(* ===== verification/LDB_Prelude.thy ===== *)
theory LDB_Prelude
  imports "HOL-Library.Word"
begin

text \<open>
  The prelude of the development: the machine types of the C++ sources, byte strings,
  and the generic facts about lists, words and optional results that the component
  theories share.

  A \<^verbatim>\<open>char\<close> / \<^verbatim>\<open>uint8_t\<close> is a \<open>byte\<close>, a \<^verbatim>\<open>std::string\<close> or a \<^verbatim>\<open>Slice\<close>
  (pointer and length) is the list of the bytes it denotes, and the unsigned integer types are
  words of their width. A parser that advances a \<^verbatim>\<open>Slice*\<close> (or returns a pointer into
  \<open>[p, limit)\<close>) returns the remaining bytes; \<open>None\<close> is the C++ \<^verbatim>\<open>false\<close> / \<^verbatim>\<open>nullptr\<close>.
\<close>

unbundle bit_operations_syntax

type_synonym byte = "8 word"
type_synonym u16 = "16 word"
type_synonym u32 = "32 word"
type_synonym u64 = "64 word"
type_synonym slice = "byte list"
type_synonym 'a parser = "slice \<Rightarrow> ('a \<times> slice) option"

named_theorems codec_simps \<open>round trips and lengths of encoders\<close>
named_theorems inv_intros \<open>invariant preservation\<close>

definition bytes_of_string :: "string \<Rightarrow> slice" where
  "bytes_of_string s = map of_char s"

section \<open>Lists\<close>

lemma take_drop_slice: "i + n \<le> length xs \<Longrightarrow> length (take n (drop i xs)) = n"
  by simp

lemma nth_take_drop: "i + j < length xs \<Longrightarrow> j < n \<Longrightarrow> take n (drop i xs) ! j = xs ! (i + j)"
  by simp

lemma drop_append_exact [simp]: "length xs = n \<Longrightarrow> drop n (xs @ ys) = ys"
  by simp

lemma take_append_exact [simp]: "length xs = n \<Longrightarrow> take n (xs @ ys) = xs"
  by simp

section \<open>Words\<close>

lemma unat_drop_bit: "unat (drop_bit n (w :: 'a::len word)) = unat w div 2 ^ n"
  by (simp add: unsigned_drop_bit_eq drop_bit_eq_div take_bit_eq_mod)
     (metis drop_bit_eq_div unat_drop_bit_eq)

lemma unat_lt2p: "unat (w :: 'a::len word) < 2 ^ LENGTH('a)"
  by (rule unsigned_less)

lemma word_less_unat: "(v :: 'a::len word) < w \<longleftrightarrow> unat v < unat w"
  by (rule word_less_nat_alt)

lemma unat_of_nat_small: "n < 2 ^ LENGTH('a) \<Longrightarrow> unat (of_nat n :: 'a::len word) = n"
  by (simp add: unsigned_of_nat take_bit_nat_eq_self)

lemma unat_u16_u32: "unat (ucast (w :: u16) :: u32) = unat w"
  using unat_lt2p [of w] by (simp add: unsigned_ucast_eq take_bit_nat_eq_self)

lemma unat_u32_u64 [simp]: "unat (ucast (w :: u32) :: u64) = unat w"
  using unat_lt2p [of w] by (simp add: unsigned_ucast_eq take_bit_nat_eq_self)

lemma unat_u64_u32: "unat (ucast (w :: u64) :: u32) = unat w mod 2 ^ 32"
  by (simp add: unsigned_ucast_eq take_bit_eq_mod)

lemma unat_u32_u16: "unat (ucast (w :: u32) :: u16) = unat w mod 2 ^ 16"
  by (simp add: unsigned_ucast_eq take_bit_eq_mod)

text \<open>The number of significant bits, for the rounding of double-precision products and quotients.\<close>

fun bit_length :: "nat \<Rightarrow> nat" where
  "bit_length n = (if n = 0 then 0 else Suc (bit_length (n div 2)))"

declare bit_length.simps [simp del]

lemma bit_length_le: "n < 2 ^ k \<Longrightarrow> bit_length n \<le> k"
proof (induction k arbitrary: n)
  case (Suc k)
  then show ?case using Suc.IH [of "n div 2"] by (simp add: bit_length.simps [of n])
qed (simp add: bit_length.simps)

lemma less_bit_length: "n < 2 ^ bit_length n"
proof (induction n rule: bit_length.induct)
  case (1 n)
  then show ?case by (cases "n = 0") (auto simp: bit_length.simps [of n])
qed

end
