(* ===== verification/Tag_Lanes.thy ===== *)
theory Tag_Lanes
  imports LDB_Prelude
begin

text \<open>
  A bucket of the wormhole filter is a 64-bit word read as four little-endian 16-bit tags. This
  theory has the access to one tag, \<open>((uint16_t *)&bucket)[j]\<close>, and the SWAR test
  \<^verbatim>\<open>hasvalue16\<close> that both filters use to compare the four tags of a bucket at once, with the
  proof that the test is exact.
\<close>

unbundle bit_operations_syntax

definition haszero16 :: "u64 \<Rightarrow> u64" where
  "haszero16 x = (x - 0x0001000100010001) AND NOT x AND 0x8000800080008000"

definition hasvalue16 :: "u64 \<Rightarrow> u64 \<Rightarrow> u64" where
  "hasvalue16 x n = haszero16 (x XOR (0x0001000100010001 * n))"

definition lane :: "u64 \<Rightarrow> nat \<Rightarrow> u16" where
  "lane w j = ucast (drop_bit (16 * j) w)"

definition set_lane :: "u64 \<Rightarrow> nat \<Rightarrow> u16 \<Rightarrow> u64" where
  "set_lane w j t = (w AND NOT (push_bit (16 * j) (mask 16))) OR push_bit (16 * j) (ucast t)"

section \<open>Reading and writing one tag\<close>

lemma bit_lane: "bit (lane w j) i \<longleftrightarrow> i < 16 \<and> bit w (16 * j + i)"
  by (auto simp: lane_def bit_simps)

lemma less_4_cases: "j < 4 \<Longrightarrow> j = 0 \<or> j = 1 \<or> j = 2 \<or> j = (3 :: nat)"
  by auto

lemma lane_set_lane:
  assumes "j < 4" "k < 4"
  shows "lane (set_lane w j t) k = (if k = j then t else lane w k)"
proof (rule bit_word_eqI)
  fix i assume "i < LENGTH(16)"
  then have i: "i < 16" by simp
  have "16 * k + i < 64" using assms i by auto
  moreover have "\<not> 16 * j \<le> 16 * k + i \<or> \<not> 16 * k + i < 16 * j + 16" if "k \<noteq> j"
    using that i by auto
  ultimately show "bit (lane (set_lane w j t) k) i = bit (if k = j then t else lane w k) i"
    using i bit_imp_le_length [of t "16 * k + i - 16 * j"] by (auto simp: bit_lane set_lane_def bit_simps)
qed

lemma lane_eqI:
  assumes "\<And>j. j < 4 \<Longrightarrow> lane v j = lane w j"
  shows "v = w"
proof (rule bit_word_eqI)
  fix i assume "i < LENGTH(64)"
  then have "i div 16 < 4" "16 * (i div 16) + i mod 16 = i" "i mod 16 < 16" by auto
  then show "bit v i = bit w i"
    using assms [of "i div 16"] bit_lane [of v "i div 16" "i mod 16"] bit_lane [of w "i div 16" "i mod 16"]
    by simp
qed

lemma lane_0 [simp]: "lane 0 j = 0"
  by (simp add: lane_def)

lemma lane_xor: "lane (v XOR w) j = lane v j XOR lane w j"
  by (rule bit_word_eqI) (simp add: bit_lane bit_simps)

lemma unat_lane: "unat (lane w j) = unat w div 2 ^ (16 * j) mod 2 ^ 16"
  by (simp add: lane_def unsigned_ucast_eq take_bit_eq_mod unat_drop_bit)

section \<open>The SWAR test\<close>

lemma bit_of_lanes:
  fixes lo b z :: int
  assumes "0 \<le> lo" "lo < 2 ^ (16 * k)" "0 \<le> b" "b < 65536"
  shows "bit (lo + 2 ^ (16 * k) * (b + 65536 * z)) (16 * k + 15) \<longleftrightarrow> 32768 \<le> b"
proof -
  have "(lo + 2 ^ (16 * k) * (b + 65536 * z)) div 2 ^ (16 * k + 15)
      = (lo + 2 ^ (16 * k) * (b + 65536 * z)) div 2 ^ (16 * k) div 2 ^ 15"
    by (simp add: power_add zdiv_zmult2_eq)
  also have "(lo + 2 ^ (16 * k) * (b + 65536 * z)) div 2 ^ (16 * k) = b + 65536 * z"
    using assms(1,2) by (simp add: div_pos_pos_trivial)
  finally have "bit (lo + 2 ^ (16 * k) * (b + 65536 * z)) (16 * k + 15) \<longleftrightarrow> odd ((b + 65536 * z) div 32768)"
    by (simp add: bit_iff_odd)
  also have "(b + 65536 * z) div 32768 = b div 32768 + 2 * z"
    using div_mult_self2 [of 32768 b "2 * z"] by simp
  also have "b div 32768 = (if 32768 \<le> b then 1 else 0)"
    using assms(3,4) by (auto simp: div_pos_pos_trivial intro: int_div_pos_eq [of _ _ 1 "b - 32768"])
  finally show ?thesis by simp
qed

lemma uint_lanes:
  "uint w = uint (lane w 0) + 65536 * (uint (lane w 1) + 65536 * (uint (lane w 2) + 65536 * uint (lane w 3)))"
proof -
  have u: "uint (lane w j) = uint w div 2 ^ (16 * j) mod 65536" for j
    using arg_cong [OF unat_lane [of w j], of int] by (simp add: zdiv_int zmod_int)
  define p q r where "p = uint w div 65536" "q = p div 65536" "r = q div 65536"
  have r: "q = uint w div 4294967296" "r = uint w div 281474976710656"
    by (simp_all add: p_q_r_def flip: zdiv_zmult2_eq)
  have "r mod 65536 = r"
    unfolding r using uint_lt2p [of w]
    by (intro mod_pos_pos_trivial) (simp_all add: pos_imp_zdiv_nonneg_iff div_less_iff_less_mult)
  then have "uint (lane w 0) = uint w mod 65536" "uint (lane w 1) = p mod 65536"
    "uint (lane w 2) = q mod 65536" "uint (lane w 3) = r"
    by (simp_all add: u p_q_r_def(1) flip: r)
  moreover have "x = a + 65536 * (b + 65536 * (c + 65536 * r))"
    if "65536 * p + a = x" "65536 * q + b = p" "65536 * r + c = q" for a b c x :: int
    by (simp flip: that)
  ultimately show ?thesis
    using mult_div_mod_eq [of 65536 "uint w"] mult_div_mod_eq [of 65536 p] mult_div_mod_eq [of 65536 q]
    unfolding p_q_r_def(1) [symmetric] p_q_r_def(2) [symmetric] p_q_r_def(3) [symmetric] by simp
qed

lemma bit_signs: "bit (0x8000800080008000 :: u64) n \<longleftrightarrow> n \<in> {15, 31, 47, 63}"
proof -
  have "(0x8000800080008000 :: u64) = push_bit 15 1 OR push_bit 31 1 OR push_bit 47 1 OR push_bit 63 1"
    by (simp add: push_bit_eq_mult)
  then show ?thesis by (simp only: bit_or_iff bit_push_bit_iff bit_1_iff) auto
qed

lemma haszero16_bits:
  "haszero16 x \<noteq> 0 \<longleftrightarrow>
    (\<exists>n\<in>{15, 31, 47, 63}. bit (x - 0x0001000100010001) n \<and> \<not> bit x n)"
proof -
  define y where "y = x - 0x0001000100010001"
  have "bit (haszero16 x) n \<longleftrightarrow> n \<in> {15, 31, 47, 63} \<and> bit y n \<and> \<not> bit x n" for n
    unfolding haszero16_def y_def [symmetric] bit_and_iff bit_not_iff bit_signs
    using bit_imp_le_length [of y n] by auto
  moreover have "haszero16 x \<noteq> 0 \<longleftrightarrow> (\<exists>n. bit (haszero16 x) n)"
    using bit_imp_le_length [of "haszero16 x"] by (auto simp: bit_eq_iff)
  ultimately show ?thesis unfolding y_def [symmetric] by blast
qed

lemma sign_bit:
  assumes "uint x - m = lo + 2 ^ (16 * k) * (b + 65536 * z)" "k < 4"
    "0 \<le> lo" "lo < 2 ^ (16 * k)" "0 \<le> b" "b < 65536"
  shows "bit (x - word_of_int m :: u64) (16 * k + 15) \<longleftrightarrow> 32768 \<le> b"
proof -
  have "x - word_of_int m = word_of_int (lo + 2 ^ (16 * k) * (b + 65536 * z))"
    unfolding assms(1) [symmetric] by simp
  then show ?thesis using bit_of_lanes [OF assms(3-)] assms(2) by (simp only: bit_word_of_int_iff) simp
qed

lemma uint_lane_bounds: "0 \<le> uint (lane w j)" "uint (lane w j) < 65536"
  using uint_lt2p [of "lane w j"] by simp_all

text \<open>If no tag is zero, subtracting one from each borrows nowhere; otherwise the lowest zero tag is
  the first to borrow, and its sign bit becomes set.\<close>

lemma sign_bits_no_borrow:
  assumes x: "uint (x :: u64) = a + 65536 * (b + 65536 * (c + 65536 * d))"
    and "1 \<le> a" "1 \<le> b" "1 \<le> c" "1 \<le> d" "a < 65536" "b < 65536" "c < 65536" "d < 65536"
    and n: "n \<in> {15, 31, 47, 63}" "bit (x - 0x0001000100010001) n"
  shows "bit x n"
proof -
  note bnd = assms(2-9)
  have "bit (x - 0x0001000100010001) 15 \<longleftrightarrow> 32768 \<le> a - 1"
    using sign_bit [of x "0x0001000100010001" 0 0 "a - 1" "b - 1 + 65536 * (c - 1 + 65536 * (d - 1))"] bnd
    by (simp add: x)
  moreover have "bit (x - 0x0001000100010001) 31 \<longleftrightarrow> 32768 \<le> b - 1"
    using sign_bit [of x "0x0001000100010001" "a - 1" 1 "b - 1" "c - 1 + 65536 * (d - 1)"] bnd by (simp add: x)
  moreover have "bit (x - 0x0001000100010001) 47 \<longleftrightarrow> 32768 \<le> c - 1"
    using sign_bit [of x "0x0001000100010001" "a - 1 + 65536 * (b - 1)" 2 "c - 1" "d - 1"] bnd by (simp add: x)
  moreover have "bit (x - 0x0001000100010001) 63 \<longleftrightarrow> 32768 \<le> d - 1"
    using sign_bit [of x "0x0001000100010001" "a - 1 + 65536 * (b - 1 + 65536 * (c - 1))" 3 "d - 1" 0] bnd
    by (simp add: x)
  moreover have "bit x 15 \<longleftrightarrow> 32768 \<le> a" "bit x 31 \<longleftrightarrow> 32768 \<le> b"
    using sign_bit [of x 0 0 0 a "b + 65536 * (c + 65536 * d)"] sign_bit [of x 0 a 1 b "c + 65536 * d"] bnd
    by (simp_all add: x)
  moreover have "bit x 47 \<longleftrightarrow> 32768 \<le> c" "bit x 63 \<longleftrightarrow> 32768 \<le> d"
    using sign_bit [of x 0 "a + 65536 * b" 2 c d] sign_bit [of x 0 "a + 65536 * (b + 65536 * c)" 3 d 0] bnd
    by (simp_all add: x)
  ultimately show ?thesis using n by auto
qed

lemma sign_bits_borrow:
  assumes "uint (x :: u64) = a + 65536 * (b + 65536 * (c + 65536 * d))"
    and "0 \<le> a" "0 \<le> b" "0 \<le> c" "0 \<le> d" "a < 65536" "b < 65536" "c < 65536" "d < 65536"
    and "a = 0 \<or> b = 0 \<or> c = 0 \<or> d = 0"
  shows "\<exists>n\<in>{15, 31, 47, 63}. bit (x - 0x0001000100010001) n \<and> \<not> bit x n"
proof -
  consider "a = 0" | "1 \<le> a" "b = 0" | "1 \<le> a" "1 \<le> b" "c = 0" | "1 \<le> a" "1 \<le> b" "1 \<le> c" "d = 0"
    using assms by linarith
  then show ?thesis
  proof cases
    case 1
    then show ?thesis
      using sign_bit [of x "0x0001000100010001" 0 0 65535 "b - 2 + 65536 * (c - 1 + 65536 * (d - 1))"]
        sign_bit [of x 0 0 0 a "b + 65536 * (c + 65536 * d)"] assms by auto
  next
    case 2
    then show ?thesis
      using sign_bit [of x "0x0001000100010001" "a - 1" 1 65535 "c - 2 + 65536 * (d - 1)"]
        sign_bit [of x 0 a 1 b "c + 65536 * d"] assms by auto
  next
    case 3
    then show ?thesis
      using sign_bit [of x "0x0001000100010001" "a - 1 + 65536 * (b - 1)" 2 65535 "d - 2"]
        sign_bit [of x 0 "a + 65536 * b" 2 c d] assms by auto
  next
    case 4
    then show ?thesis
      using sign_bit [of x "0x0001000100010001" "a - 1 + 65536 * (b - 1 + 65536 * (c - 1))" 3 65535 "-1"]
        sign_bit [of x 0 "a + 65536 * (b + 65536 * c)" 3 d 0] assms by auto
  qed
qed

lemma haszero16_iff: "haszero16 x \<noteq> 0 \<longleftrightarrow> (\<exists>j<4. lane x j = 0)"
proof -
  have ex: "(\<exists>j<4. lane x j = 0) \<longleftrightarrow>
      uint (lane x 0) = 0 \<or> uint (lane x 1) = 0 \<or> uint (lane x 2) = 0 \<or> uint (lane x 3) = 0"
    unfolding uint_0_iff by (metis less_4_cases numeral_less_iff semiring_norm(75-81) zero_less_numeral one_less_numeral_iff)
  have one: "1 \<le> uint (lane x j)" if "uint (lane x j) \<noteq> 0" for j
    using that uint_lane_bounds(1) [of x j] by linarith
  show ?thesis
    unfolding haszero16_bits ex
    using sign_bits_no_borrow [OF uint_lanes [of x] one one one one]
      sign_bits_borrow [OF uint_lanes [of x]] uint_lane_bounds [of x] by blast
qed

lemma lane_broadcast:
  assumes "j < 4"
  shows "lane (0x0001000100010001 * ucast (n :: u16)) j = n"
proof -
  have n: "unat n < 65536" using unat_lt2p [of n] by simp
  have u: "unat (ucast n :: u64) = unat n"
    using n by (simp add: unsigned_ucast_eq take_bit_nat_eq_self)
  have "unat (0x0001000100010001 * ucast n :: u64) = 0x0001000100010001 * unat n"
    using n by (subst unat_mult_lem [THEN iffD1]) (simp_all add: u)
  moreover have "0x0001000100010001 * m div 2 ^ (16 * j) mod 2 ^ 16 = m" if "m < 65536" for m :: nat
  proof -
    define y where "y = m + 65536 * m"
    define z where "z = m + 65536 * y"
    define w where "w = m + 65536 * z"
    have w: "0x0001000100010001 * m = w" by (simp add: y_def z_def w_def)
    have d: "(m + 65536 * x) div 65536 = x" "(m + 65536 * x) mod 65536 = m" for x
      using that by simp_all
    have "w div 65536 = z" "w mod 65536 = m" "z div 65536 = y" "z mod 65536 = m" "y mod 65536 = m" "y div 65536 = m"
      unfolding y_def z_def w_def by (rule d)+
    moreover have "x div 4294967296 = x div 65536 div 65536"
      "x div 281474976710656 = x div 65536 div 65536 div 65536" for x :: nat
      by (simp_all flip: div_mult2_eq)
    ultimately show ?thesis using less_4_cases [OF assms] that unfolding w by (elim disjE) simp_all
  qed
  ultimately show ?thesis using n by (simp add: word_unat_eq_iff unat_lane)
qed

text \<open>The test is exact: it neither misses a tag nor reports one that is absent.\<close>

lemma hasvalue16_iff: "hasvalue16 x (ucast (n :: u16)) \<noteq> 0 \<longleftrightarrow> (\<exists>j<4. lane x j = n)"
  unfolding hasvalue16_def haszero16_iff
  by (auto simp: lane_xor lane_broadcast) (metis xor_self_eq xor.right_neutral xor.assoc)

end
