(* ===== verification/Wormhole_Core.thy ===== *)
theory Wormhole_Core
  imports LDB_Prelude "HOL-Library.Multiset"
begin

text \<open>
  The abstract wormhole filter. Both implementations (the persistent-memory filter of
  \<^verbatim>\<open>src/pm_wf/pmwormholefilter.hpp\<close> and the LevelDB filter policy of \<^verbatim>\<open>util/wormhole.cc\<close>)
  keep four 16-bit tags per bucket; a tag is a 12-bit fingerprint (never 0) followed by the 4-bit
  distance of its bucket from the home bucket of the key. Here a table is a function from bucket
  and slot to the tag, the algorithms run on natural numbers, and the contents are the multiset
  \<open>items\<close> of pairs of home bucket and fingerprint. The theorems say that lookup is membership in
  that multiset, that insertion adds one element and that deletion removes one; the two
  implementations inherit them by refinement.
\<close>

type_synonym tag_table = "nat \<Rightarrow> nat \<Rightarrow> nat"

definition upd :: "tag_table \<Rightarrow> nat \<Rightarrow> nat \<Rightarrow> nat \<Rightarrow> tag_table" where
  "upd T b j t = T(b := (T b)(j := t))"

lemma upd_same [simp]: "upd T b j t b j = t"
  by (simp add: upd_def)

lemma upd_other: "(b', j') \<noteq> (b, j) \<Longrightarrow> upd T b j t b' j' = T b' j'"
  by (auto simp: upd_def)

lemma upd_apply: "upd T b j t b' j' = (if b' = b \<and> j' = j then t else T b' j')"
  by (simp add: upd_def)

lemma upd_upd [simp]: "upd (upd T b j t) b j u = upd T b j u"
  by (auto simp: upd_def fun_eq_iff)

lemma upd_id [simp]: "upd T b j (T b j) = T"
  by (auto simp: upd_def fun_eq_iff)

section \<open>The contents of a table\<close>

definition item :: "nat \<Rightarrow> nat \<Rightarrow> nat \<Rightarrow> nat \<times> nat" where
  "item n b t = ((b + n * 16 - t mod 16) mod n, t - t mod 16)"

definition occ :: "nat \<Rightarrow> nat \<Rightarrow> nat \<Rightarrow> (nat \<times> nat) multiset" where
  "occ n b t = (if t = 0 then {#} else {#item n b t#})"

definition items :: "nat \<Rightarrow> tag_table \<Rightarrow> (nat \<times> nat) multiset" where
  "items n T = (\<Sum>(b, j) \<in> {..<n} \<times> {..<4}. occ n b (T b j))"

lemma sum_upd1:
  fixes g g' :: "'a \<Rightarrow> 'b::cancel_comm_monoid_add"
  assumes "finite A" "x \<in> A" "\<And>y. y \<in> A \<Longrightarrow> y \<noteq> x \<Longrightarrow> g' y = g y"
  shows "sum g' A + g x = sum g A + g' x"
proof -
  have "sum g' (A - {x}) = sum g (A - {x})" using assms by (intro sum.cong) auto
  then show ?thesis
    using sum.remove [OF assms(1,2), of g] sum.remove [OF assms(1,2), of g']
    by (simp add: ac_simps)
qed

lemma items_upd:
  assumes "b < n" "j < 4"
  shows "items n (upd T b j t) + occ n b (T b j) = items n T + occ n b t"
proof -
  let ?g = "\<lambda>T (b, j). occ n b (T b j)"
  have "sum (?g (upd T b j t)) ({..<n} \<times> {..<4}) + ?g T (b, j)
      = sum (?g T) ({..<n} \<times> {..<4}) + ?g (upd T b j t) (b, j)"
    using assms by (intro sum_upd1) (auto simp: upd_apply split: if_splits)
  then show ?thesis by (simp add: items_def)
qed

lemma items_upd_empty:
  "b < n \<Longrightarrow> j < 4 \<Longrightarrow> T b j = 0 \<Longrightarrow> items n (upd T b j t) = items n T + occ n b t"
  using items_upd [of b n j T t] by (simp add: occ_def [of _ _ 0])

lemma items_upd_clear:
  "b < n \<Longrightarrow> j < 4 \<Longrightarrow> items n (upd T b j 0) = items n T - occ n b (T b j)"
  using items_upd [of b n j T 0] by (metis add_diff_cancel_right' occ_def add_0_right)

lemma occ_in_items:
  assumes "b < n" "j < 4"
  shows "occ n b (T b j) \<subseteq># items n T"
proof -
  have "items n T = occ n b (T b j) + sum (\<lambda>(b, j). occ n b (T b j)) ({..<n} \<times> {..<4} - {(b, j)})"
    unfolding items_def using assms by (subst sum.remove [of _ "(b, j)"]) auto
  then show ?thesis by simp
qed

lemma in_items_iff:
  "x \<in># items n T \<longleftrightarrow> (\<exists>b < n. \<exists>j < 4. T b j \<noteq> 0 \<and> x = item n b (T b j))"
proof -
  have "x \<in># items n T \<longleftrightarrow> (\<exists>p \<in> {..<n} \<times> {..<4}. x \<in># (case p of (b, j) \<Rightarrow> occ n b (T b j)))"
    unfolding items_def by (simp add: set_mset_sum)
  then show ?thesis by (auto simp: occ_def)
qed

lemma items_cong: "(\<And>b j. b < n \<Longrightarrow> j < 4 \<Longrightarrow> T b j = T' b j) \<Longrightarrow> items n T = items n T'"
  unfolding items_def by (intro sum.cong) auto

lemma items_empty: "(\<And>b j. b < n \<Longrightarrow> j < 4 \<Longrightarrow> T b j = 0) \<Longrightarrow> items n T = {#}"
  unfolding items_def by (intro sum.neutral) (auto simp: occ_def)

section \<open>Home buckets\<close>

lemma item_at_distance:
  assumes "h < n" "p < 16" "fp mod 16 = 0" "0 < fp"
  shows "item n ((h + p) mod n) (fp + p) = (h, fp)"
proof -
  have p: "(fp + p) mod 16 = p" using assms(2,3) by (metis add_0 mod_add_left_eq mod_less)
  have "p \<le> (h + p) mod n + n * 16" using assms by (cases n) auto
  then have "((h + p) mod n + n * 16 - p) mod n = h"
  proof -
    have "int (((h + p) mod n + n * 16 - p) mod n) = (int ((h + p) mod n) + int n * 16 - int p) mod int n"
      using \<open>p \<le> (h + p) mod n + n * 16\<close> by (simp add: zmod_int of_nat_diff)
    also have "\<dots> = ((int h + int p) mod int n + (int n * 16 - int p)) mod int n"
      by (simp add: zmod_int algebra_simps)
    also have "\<dots> = (int h + int n * 16) mod int n"
      by (simp only: mod_add_left_eq) (simp add: algebra_simps)
    also have "\<dots> = int h" using assms(1) by simp
    finally show ?thesis by simp
  qed
  then show ?thesis by (simp add: item_def p)
qed

lemma item_eq_iff:
  assumes "h < n" "b < n" "fp mod 16 = 0" "0 < fp" "t \<noteq> 0"
  shows "item n b t = (h, fp) \<longleftrightarrow> t = fp + t mod 16 \<and> b = (h + t mod 16) mod n"
proof
  assume "item n b t = (h, fp)"
  then have h: "(b + n * 16 - t mod 16) mod n = h" and fp: "t - t mod 16 = fp"
    by (simp_all add: item_def)
  have "t mod 16 \<le> b + n * 16" using assms by (cases n) (auto intro: order_trans [of _ 16])
  then have "(h + t mod 16) mod n = (b + n * 16) mod n"
    using h by (metis le_add_diff_inverse2 mod_add_left_eq)
  moreover have "t = fp + t mod 16" using fp mod_less_eq_dividend [of t 16] by simp
  ultimately show "t = fp + t mod 16 \<and> b = (h + t mod 16) mod n" using assms by simp
next
  assume "t = fp + t mod 16 \<and> b = (h + t mod 16) mod n"
  then show "item n b t = (h, fp)"
    using item_at_distance [of h n "t mod 16" fp] assms by simp
qed

section \<open>The algorithms\<close>

definition core_lookup :: "nat \<Rightarrow> tag_table \<Rightarrow> nat \<Rightarrow> nat \<Rightarrow> bool" where
  "core_lookup n T h fp \<longleftrightarrow> (\<exists>p \<in> set [0..<16]. \<exists>j \<in> set [0..<4]. T ((h + p) mod n) j = fp + p)"

definition core_delete :: "nat \<Rightarrow> tag_table \<Rightarrow> nat \<Rightarrow> nat \<Rightarrow> bool \<times> tag_table" where
  "core_delete n T h fp =
     (case List.find (\<lambda>(p, j). T ((h + p) mod n) j = fp + p) (List.product [0..<16] [0..<4]) of
        None \<Rightarrow> (False, T)
      | Some (p, j) \<Rightarrow> (True, upd T ((h + p) mod n) j 0))"

definition find_empty :: "nat \<Rightarrow> tag_table \<Rightarrow> nat \<Rightarrow> (nat \<times> nat) option" where
  "find_empty n T h =
     List.find (\<lambda>(d, j). T ((h + d) mod n) j = 0) (List.product [0..<n] [0..<4])"

definition core_cadi :: "nat \<Rightarrow> tag_table \<Rightarrow> nat \<Rightarrow> (nat \<times> nat) option" where
  "core_cadi n T x =
     List.find (\<lambda>(prob, j). T ((x - prob) mod n) j mod 16 + prob < 16)
       (List.product (rev [1..<16]) [0..<4])"

lemma find_SomeD: "List.find P xs = Some x \<Longrightarrow> x \<in> set xs \<and> P x"
  by (auto simp: find_Some_iff in_set_conv_nth)

lemma core_cadi_Some:
  assumes "core_cadi n T x = Some (prob, j)"
  shows "1 \<le> prob" "prob < 16" "j < 4" "T ((x - prob) mod n) j mod 16 + prob < 16"
  using find_SomeD [OF assms [unfolded core_cadi_def]] by auto

function core_displace ::
    "nat \<Rightarrow> tag_table \<Rightarrow> nat \<Rightarrow> nat \<Rightarrow> nat \<Rightarrow> bool \<times> tag_table \<times> nat \<times> nat" where
  "core_displace n T h d j =
     (if 16 \<le> d then
        case core_cadi n T (h + d) of
          None \<Rightarrow> (False, T, d, j)
        | Some (prob, cj) \<Rightarrow>
            core_displace n (upd T ((h + d) mod n) j (T ((h + d - prob) mod n) cj + prob)) h (d - prob) cj
      else (True, T, d, j))"
  by pat_completeness auto
termination
  by (relation "measure (\<lambda>(n, T, h, d, j). d)") (auto dest: core_cadi_Some)

declare core_displace.simps [simp del]

definition core_insert :: "nat \<Rightarrow> tag_table \<Rightarrow> nat \<Rightarrow> nat \<Rightarrow> bool \<times> tag_table" where
  "core_insert n T h fp =
     (case find_empty n T h of
        None \<Rightarrow> (False, T)
      | Some (d, j) \<Rightarrow>
          (case core_displace n T h d j of
             (ok, T', d', j') \<Rightarrow> if ok then (True, upd T' ((h + d') mod n) j' (fp + d')) else (False, T')))"

section \<open>Lookup is membership\<close>

lemma core_lookup_items:
  assumes "h < n" "fp mod 16 = 0" "0 < fp"
  shows "core_lookup n T h fp \<longleftrightarrow> (h, fp) \<in># items n T"
proof
  assume "core_lookup n T h fp"
  then obtain p j where "p < 16" "j < 4" "T ((h + p) mod n) j = fp + p"
    by (auto simp: core_lookup_def)
  then show "(h, fp) \<in># items n T"
    using assms item_at_distance [of h n p fp] unfolding in_items_iff
    by (intro exI [of _ "(h + p) mod n"] conjI exI [of _ j]) simp_all
next
  assume "(h, fp) \<in># items n T"
  then obtain b j where b: "b < n" "j < 4" "T b j \<noteq> 0" "item n b (T b j) = (h, fp)"
    by (auto simp: in_items_iff)
  then have "T b j = fp + T b j mod 16" "b = (h + T b j mod 16) mod n"
    using item_eq_iff [of h n b fp "T b j"] assms by auto
  then show "core_lookup n T h fp"
    unfolding core_lookup_def using b(2)
    by (intro bexI [of _ "T b j mod 16"] bexI [of _ j]) auto
qed

section \<open>Deletion removes one element\<close>

lemma find_None_lookup:
  "List.find (\<lambda>(p, j). T ((h + p) mod n) j = fp + p) (List.product [0..<16] [0..<4]) = None
   \<longleftrightarrow> \<not> core_lookup n T h fp"
  by (auto simp: find_None_iff core_lookup_def)

lemma core_delete_spec:
  assumes "h < n" "fp mod 16 = 0" "0 < fp"
  shows "core_delete n T h fp = (r, T') \<Longrightarrow>
     r = ((h, fp) \<in># items n T) \<and> items n T' = items n T - {#(h, fp)#} \<and> (\<not> r \<longrightarrow> T' = T)"
proof -
  assume del: "core_delete n T h fp = (r, T')"
  show ?thesis
  proof (cases "List.find (\<lambda>(p, j). T ((h + p) mod n) j = fp + p) (List.product [0..<16] [0..<4])")
    case None
    then have "r = False" "T' = T" using del by (auto simp: core_delete_def)
    moreover have "\<not> core_lookup n T h fp" using find_None_lookup [of T h n fp] None by blast
    ultimately show ?thesis using core_lookup_items [OF assms] by (simp add: diff_single_trivial)
  next
    case (Some pj)
    obtain p j where pj: "pj = (p, j)" by (cases pj)
    then have f: "p < 16" "j < 4" "T ((h + p) mod n) j = fp + p" and
      e: "r" "T' = upd T ((h + p) mod n) j 0"
      using find_SomeD [OF Some] del Some by (auto simp: core_delete_def)
    have "occ n ((h + p) mod n) (T ((h + p) mod n) j) = {#(h, fp)#}"
      using f assms by (simp add: occ_def item_at_distance)
    moreover have "(h + p) mod n < n" using assms(1) by simp
    ultimately show ?thesis
      using e f occ_in_items [of "(h + p) mod n" n j T] items_upd_clear [of "(h + p) mod n" n j T] by simp
  qed
qed

section \<open>Insertion adds one element\<close>

lemma find_product_None:
  "List.find P (List.product xs ys) = None \<longleftrightarrow> (\<forall>x \<in> set xs. \<forall>y \<in> set ys. \<not> P (x, y))"
  by (auto simp: find_None_iff)

lemma find_append: "List.find P (xs @ ys) = (case List.find P xs of None \<Rightarrow> List.find P ys | Some x \<Rightarrow> Some x)"
  by (induction xs) auto

lemma find_map_Pair_first:
  "List.find P (List.product [a..<n] ys) = Some (d, j) \<Longrightarrow>
   a \<le> d \<and> d < n \<and> j \<in> set ys \<and> P (d, j) \<and> (\<forall>d' y. a \<le> d' \<longrightarrow> d' < d \<longrightarrow> y \<in> set ys \<longrightarrow> \<not> P (d', y))"
proof (induction "n - a" arbitrary: a)
  case 0
  then show ?case by simp
next
  case (Suc k)
  then have a: "a < n" "[a..<n] = a # [Suc a..<n]" by (simp_all add: upt_conv_Cons)
  show ?case
  proof (cases "List.find P (map (Pair a) ys)")
    case None
    then have "List.find P (List.product [Suc a..<n] ys) = Some (d, j)"
      using Suc.prems a by (simp add: find_append)
    moreover have "k = n - Suc a" using Suc.hyps(2) by simp
    ultimately have "Suc a \<le> d \<and> d < n \<and> j \<in> set ys \<and> P (d, j) \<and>
        (\<forall>d' y. Suc a \<le> d' \<longrightarrow> d' < d \<longrightarrow> y \<in> set ys \<longrightarrow> \<not> P (d', y))"
      by (rule Suc.hyps(1) [rotated])
    moreover have "\<forall>y \<in> set ys. \<not> P (a, y)" using None by (auto simp: find_None_iff)
    ultimately show ?thesis by (metis Suc_leD Suc_leI le_eq_less_or_eq)
  next
    case (Some z)
    then have "z = (d, j)" using Suc.prems a by (simp add: find_append)
    then show ?thesis using find_SomeD [OF Some] a by auto
  qed
qed

lemma find_empty_Some:
  assumes "find_empty n T h = Some (d, j)"
  shows "d < n" "j < 4" "T ((h + d) mod n) j = 0"
    "\<And>d' j'. d' < d \<Longrightarrow> j' < 4 \<Longrightarrow> T ((h + d') mod n) j' \<noteq> 0"
  using find_map_Pair_first [OF assms [unfolded find_empty_def]] by auto

text \<open>
  The displacement loop moves a hole \<open>(h + d, j)\<close> towards the home bucket \<open>h\<close>. Whatever the hole
  holds is disregarded; the buckets strictly between are full. The contents without the hole stay
  the same from one step to the next.
\<close>

definition hole_ok :: "nat \<Rightarrow> tag_table \<Rightarrow> nat \<Rightarrow> nat \<Rightarrow> nat \<Rightarrow> bool" where
  "hole_ok n T h d j \<longleftrightarrow> h < n \<and> d < n \<and> j < 4 \<and> (\<forall>d' < d. \<forall>j' < 4. T ((h + d') mod n) j' \<noteq> 0)"

definition without :: "nat \<Rightarrow> tag_table \<Rightarrow> nat \<Rightarrow> nat \<Rightarrow> nat \<Rightarrow> (nat \<times> nat) multiset" where
  "without n T h d j = items n (upd T ((h + d) mod n) j 0)"

lemma home_mod_inj:
  fixes d d' :: nat
  assumes "(h + d) mod n = (h + d') mod n" "d < n" "d' < n"
  shows "d = d'"
proof -
  have *: "d = d'" if "(h + d) mod n = (h + d') mod n" "d < n" "d' < n" "d \<le> d'" for d d' :: nat
  proof -
    have "n dvd h + d' - (h + d)" using that mod_eq_dvd_iff_nat [of "h + d" "h + d'" n] by simp
    then show ?thesis using that by (auto dest!: dvd_imp_le)
  qed
  show ?thesis using * [of d d'] * [of d' d] assms by (cases "d \<le> d'") auto
qed

lemma mod_pred_add: "prob \<le> d \<Longrightarrow> (h + d - prob) mod n = (h + (d - prob)) mod (n :: nat)"
  by simp

lemma item_shift:
  assumes "prob \<le> x" "t mod 16 + prob < 16" "0 < n"
  shows "item n (x mod n) (t + prob) = item n ((x - prob) mod n) t"
proof -
  have m: "(t + prob) mod 16 = t mod 16 + prob" using assms(2) by (metis mod_add_left_eq mod_less)
  have "int ((x mod n + n * 16 - (t mod 16 + prob)) mod n) = (int x - int (t mod 16 + prob)) mod int n"
  proof -
    have "t mod 16 + prob \<le> x mod n + n * 16" using assms(2,3) by (cases n) auto
    then have "int ((x mod n + n * 16 - (t mod 16 + prob)) mod n)
        = (int x mod int n + (int n * 16 - int (t mod 16 + prob))) mod int n"
      by (simp add: zmod_int of_nat_diff algebra_simps)
    also have "\<dots> = (int x - int (t mod 16 + prob)) mod int n"
      by (simp only: mod_add_left_eq) (metis (no_types, opaque_lifting) add.commute add_diff_eq
          diff_add_eq mod_mult_self2 mult.commute)
    finally show ?thesis .
  qed
  moreover have "int (((x - prob) mod n + n * 16 - t mod 16) mod n) = (int x - int (t mod 16 + prob)) mod int n"
  proof -
    have "t mod 16 \<le> (x - prob) mod n + n * 16" using assms(2,3) by (cases n) auto
    then have "int (((x - prob) mod n + n * 16 - t mod 16) mod n)
        = ((int x - int prob) mod int n + (int n * 16 - int (t mod 16))) mod int n"
      using assms(1) by (simp add: zmod_int of_nat_diff algebra_simps)
    also have "\<dots> = (int x - int (t mod 16 + prob)) mod int n"
      by (simp only: mod_add_left_eq) (metis (no_types, opaque_lifting) add.commute add_diff_eq
          diff_add_eq diff_diff_add mod_mult_self2 mult.commute of_nat_add)
    finally show ?thesis .
  qed
  ultimately show ?thesis
    unfolding item_def m by (metis add_diff_cancel_right add.commute of_nat_eq_iff)
qed


lemma displace_step:
  assumes ok: "hole_ok n T h d j" and d: "16 \<le> d" and c: "core_cadi n T (h + d) = Some (prob, cj)"
  defines "T' \<equiv> upd T ((h + d) mod n) j (T ((h + d - prob) mod n) cj + prob)"
  shows "hole_ok n T' h (d - prob) cj" and "without n T' h (d - prob) cj = without n T h d j"
    and "\<exists>x \<in># without n T h d j. items n T' = without n T h d j + {#x#}"
proof -
  note cd = core_cadi_Some [OF c]
  let ?b = "(h + d) mod n" and ?c = "(h + (d - prob)) mod n"
  have hd: "h + d - prob = h + (d - prob)" using cd(2) d by simp
  define t where "t = T ?c cj"
  have T': "T' = upd T ?b j (t + prob)" by (simp add: T'_def t_def hd)
  have n: "0 < n" "d < n" "j < 4" "h < n" and full: "\<And>d' j'. d' < d \<Longrightarrow> j' < 4 \<Longrightarrow> T ((h + d') mod n) j' \<noteq> 0"
    using ok by (auto simp: hole_ok_def)
  have ne: "(h + d') mod n \<noteq> ?b" if "d' < d" for d'
    using home_mod_inj [of h d' n d] that n(2) by auto
  then have bc: "?c \<noteq> ?b" using ne [of "d - prob"] cd(1,2) d by linarith
  have t0: "t \<noteq> 0" unfolding t_def using full [of "d - prob" cj] cd(1,3) d by auto
  have b: "?b < n" "?c < n" using n by simp_all
  show "hole_ok n T' h (d - prob) cj"
    using n cd d full ne unfolding hole_ok_def T' by (auto simp: upd_apply)
  have px: "prob \<le> h + d" using cd(2) d by linarith
  have tm: "t mod 16 + prob < 16" using cd(4) unfolding t_def hd .
  have sh: "item n ?b (t + prob) = item n ?c t" using item_shift [OF px tm n(1)] unfolding hd .
  have "items n T' = items n (upd (upd T ?b j 0) ?b j (t + prob))" by (simp add: T')
  also have "\<dots> = without n T h d j + occ n ?c t"
    unfolding without_def using items_upd_empty [of ?b n j "upd T ?b j 0" "t + prob"] b n(3) t0 sh
    by (simp add: occ_def)
  finally have it: "items n T' = without n T h d j + occ n ?c t" .
  moreover have "occ n ?c t = {#item n ?c t#}" using t0 by (simp add: occ_def)
  moreover have "occ n ?c t \<subseteq># without n T h d j"
    using occ_in_items [OF b(2) cd(3), of "upd T ?b j 0"] bc by (simp add: without_def upd_apply t_def)
  ultimately show "\<exists>x \<in># without n T h d j. items n T' = without n T h d j + {#x#}" by auto
  have "T' ?c cj = t" using bc by (simp add: T' upd_apply t_def)
  then have "without n T' h (d - prob) cj = items n T' - occ n ?c t"
    unfolding without_def using items_upd_clear [OF b(2) cd(3), of T'] by simp
  then show "without n T' h (d - prob) cj = without n T h d j" using it by simp
qed

lemma displace_spec:
  assumes "hole_ok n T h d j" "core_displace n T h d j = (ok, T', d', j')"
  shows "hole_ok n T' h d' j' \<and> without n T' h d' j' = without n T h d j \<and> (ok \<longrightarrow> d' < 16) \<and>
         (items n T' = items n T \<or> (\<exists>x \<in># without n T h d j. items n T' = without n T h d j + {#x#}))"
  using assms
proof (induction n T h d j rule: core_displace.induct)
  case (1 n T h d j)
  show ?case
  proof (cases "16 \<le> d")
    case False
    then show ?thesis using 1(2,3) by (auto simp: core_displace.simps [of n T h d j])
  next
    case True
    show ?thesis
    proof (cases "core_cadi n T (h + d)")
      case None
      then show ?thesis using True 1(2,3) by (auto simp: core_displace.simps [of n T h d j])
    next
      case (Some pc)
      obtain prob cj where pc: "pc = (prob, cj)" by (cases pc)
      define T1 where "T1 = upd T ((h + d) mod n) j (T ((h + d - prob) mod n) cj + prob)"
      have c: "core_cadi n T (h + d) = Some (prob, cj)" using Some pc by simp
      note st = displace_step [OF 1(2) True c, folded T1_def]
      have "core_displace n T1 h (d - prob) cj = (ok, T', d', j')"
        using 1(3) True c by (simp add: core_displace.simps [of n T h d j] T1_def)
      then have IH: "hole_ok n T' h d' j' \<and> without n T' h d' j' = without n T1 h (d - prob) cj \<and> (ok \<longrightarrow> d' < 16) \<and>
         (items n T' = items n T1 \<or> (\<exists>x \<in># without n T1 h (d - prob) cj.
             items n T' = without n T1 h (d - prob) cj + {#x#}))"
        using 1(1) [OF True Some pc [symmetric]] st(1) unfolding T1_def by simp
      then show ?thesis using st(2,3) by auto
    qed
  qed
qed


lemma find_empty_hole:
  assumes "find_empty n T h = Some (d, j)" "h < n"
  shows "hole_ok n T h d j" "without n T h d j = items n T"
proof -
  note f = find_empty_Some [OF assms(1)]
  show "hole_ok n T h d j" using f assms(2) by (simp add: hole_ok_def)
  have "upd T ((h + d) mod n) j 0 = T" using f(3) upd_id [of T "(h + d) mod n" j] by simp
  then show "without n T h d j = items n T" by (simp add: without_def)
qed

theorem core_insert_spec:
  assumes "h < n" "fp mod 16 = 0" "0 < fp" "core_insert n T h fp = (r, T')"
  shows "r \<Longrightarrow> items n T' = items n T + {#(h, fp)#}"
    and "\<not> r \<Longrightarrow> items n T' = items n T \<or> (\<exists>x \<in># items n T. items n T' = items n T + {#x#})"
proof -
  show "items n T' = items n T + {#(h, fp)#}" if r: r
  proof -
    obtain d j T1 d' j' where f: "find_empty n T h = Some (d, j)"
      and c: "core_displace n T h d j = (True, T1, d', j')"
      and T': "T' = upd T1 ((h + d') mod n) j' (fp + d')"
      using assms(4) r by (auto simp: core_insert_def split: option.splits prod.splits if_splits)
    note h = find_empty_hole [OF f assms(1)]
    have s: "hole_ok n T1 h d' j'" "without n T1 h d' j' = items n T" "d' < 16"
      using displace_spec [OF h(1) c] h(2) by auto
    have "items n T' = items n (upd (upd T1 ((h + d') mod n) j' 0) ((h + d') mod n) j' (fp + d'))"
      by (simp add: T')
    also have "\<dots> = items n T + occ n ((h + d') mod n) (fp + d')"
      using s(1,2) items_upd_empty [of "(h + d') mod n" n j' "upd T1 ((h + d') mod n) j' 0" "fp + d'"]
      by (simp add: hole_ok_def without_def)
    finally show ?thesis using item_at_distance [of h n d' fp] s(3) assms(1-3) by (simp add: occ_def)
  qed
  show "items n T' = items n T \<or> (\<exists>x \<in># items n T. items n T' = items n T + {#x#})" if r: "\<not> r"
  proof (cases "find_empty n T h")
    case None
    then show ?thesis using assms(4) by (simp add: core_insert_def)
  next
    case (Some dj)
    then obtain d j d' j' where f: "find_empty n T h = Some (d, j)"
      and c: "core_displace n T h d j = (False, T', d', j')"
      using assms(4) r
      by (cases dj) (auto simp: core_insert_def split: prod.splits if_splits)
    note h = find_empty_hole [OF f assms(1)]
    show ?thesis using displace_spec [OF h(1) c] h(2) by auto
  qed
qed

lemma core_insert_set:
  assumes "h < n" "fp mod 16 = 0" "0 < fp" "core_insert n T h fp = (r, T')"
  shows "set_mset (items n T') = (if r then insert (h, fp) (set_mset (items n T)) else set_mset (items n T))"
  using core_insert_spec [OF assms] by (cases r) auto

section \<open>Capacity\<close>

text \<open>In a table of at most sixteen buckets every bucket is within reach, so an insertion fails only
  when all slots are taken.\<close>

lemma size_items: "size (items n T) = card {p \<in> {..<n} \<times> {..<4}. T (fst p) (snd p) \<noteq> 0}"
proof -
  have "size (items n T) = (\<Sum>p \<in> {..<n} \<times> {..<4}. if T (fst p) (snd p) \<noteq> 0 then 1 else 0)"
    unfolding items_def size_multiset_overloaded_eq [symmetric]
    by (subst size_multiset_sum) (auto intro!: sum.cong simp: occ_def)
  also have "\<dots> = card {p \<in> {..<n} \<times> {..<4}. T (fst p) (snd p) \<noteq> 0}"
    by (simp add: sum.If_cases Int_def)
  finally show ?thesis .
qed

lemma core_insert_room:
  assumes "h < n" "n \<le> 16" "size (items n T) < 4 * n"
  shows "\<exists>T'. core_insert n T h fp = (True, T')"
proof -
  have "find_empty n T h \<noteq> None"
  proof
    assume "find_empty n T h = None"
    then have full: "\<And>d j. d < n \<Longrightarrow> j < 4 \<Longrightarrow> T ((h + d) mod n) j \<noteq> 0"
      unfolding find_empty_def find_product_None by auto
    have "T b j \<noteq> 0" if "b < n" "j < 4" for b j
    proof -
      have "(h + (b + n - h) mod n) mod n = b" using that assms(1) by (simp add: mod_add_right_eq)
      moreover have "(b + n - h) mod n < n" using that by simp
      ultimately show ?thesis using full [of "(b + n - h) mod n" j] that(2) by simp
    qed
    then have "{p \<in> {..<n} \<times> {..<4}. T (fst p) (snd p) \<noteq> 0} = {..<n} \<times> {..<4 :: nat}" by auto
    then have "size (items n T) = n * 4" by (simp add: size_items)
    then show False using assms(3) by simp
  qed
  then obtain d j where f: "find_empty n T h = Some (d, j)" by auto
  then have "\<not> 16 \<le> d" using find_empty_Some(1) [OF f] assms(2) by simp
  then show ?thesis using f by (simp add: core_insert_def core_displace.simps [of n T h d j])
qed

text \<open>At most 64 fingerprints can be stored with one home bucket.\<close>

lemma home_capacity:
  assumes "h < n"
  shows "card {fp. fp mod 16 = 0 \<and> 0 < fp \<and> (h, fp) \<in># items n T} \<le> 64"
proof -
  let ?S = "{fp. fp mod 16 = 0 \<and> 0 < fp \<and> (h, fp) \<in># items n T}"
  let ?f = "\<lambda>(p, j). T ((h + p) mod n) j - p"
  have "?S \<subseteq> ?f ` ({..<16} \<times> {..<4})"
  proof
    fix fp assume fp: "fp \<in> ?S"
    then have "core_lookup n T h fp" using core_lookup_items [OF assms, of fp] by simp
    then obtain p j where "p < 16" "j < 4" "T ((h + p) mod n) j = fp + p" by (auto simp: core_lookup_def)
    then show "fp \<in> ?f ` ({..<16} \<times> {..<4})" by (intro image_eqI [of _ _ "(p, j)"]) auto
  qed
  then have "card ?S \<le> card (?f ` ({..<16} \<times> {..<4 :: nat}))" by (intro card_mono) auto
  also have "\<dots> \<le> card ({..<16 :: nat} \<times> {..<4 :: nat})" by (rule card_image_le) simp
  finally show ?thesis by simp
qed

end
