(* ===== verification/Wormhole_Loops.thy ===== *)
theory Wormhole_Loops
  imports Wormhole_Core
begin

text \<open>
  The insertion of the wormhole filter on 32-bit bucket indices. The two sources have the same
  nested loops (\<^verbatim>\<open>pmwormholefilter_insert\<close> of \<^verbatim>\<open>src/pm_wf/pmwormholefilter.hpp\<close> and \<^verbatim>\<open>InsertItem\<close> of
  \<^verbatim>\<open>util/wormhole.cc\<close>); they differ in how a tag is read and written. The loops are defined once,
  with the accesses as arguments; the locale \<open>tag_store\<close> is the contract of the accesses, under
  which the loops are proved to return and to refine the abstract insertion of
  \<^verbatim>\<open>Wormhole_Core\<close>. Both sources interpret it.
\<close>

unbundle bit_operations_syntax

section \<open>The loops\<close>

abbreviation (input) MAX_PROB :: nat where "MAX_PROB \<equiv> 16"
abbreviation DIS_MASK :: u64 where "DIS_MASK \<equiv> 0x000F"
abbreviation FPT_MASK :: u64 where "FPT_MASK \<equiv> 0xFFF0"

text \<open>The slots \<open>0 .. SLOT_PER_BUK - 1\<close> and the probes \<open>MAX_PROB - 1 .. 1\<close> in the order of the loops.\<close>

definition slots :: "u32 list" where
  "slots = [0, 1, 2, 3]"

definition probes_down :: "u32 list" where
  "probes_down = [15, 14, 13, 12, 11, 10, 9, 8, 7, 6, 5, 4, 3, 2, 1]"

text \<open>The candidate search: probes downwards, in each the first slot whose tag may move by \<open>prob\<close>.\<close>

primrec find_cadi :: "(u32 \<Rightarrow> u32 \<Rightarrow> u32) \<Rightarrow> u32 \<Rightarrow> u32 list \<Rightarrow> (u32 \<times> u32) option" where
  "find_cadi rd cur [] = None"
| "find_cadi rd cur (prob # ps) =
     (case List.find (\<lambda>cadi_tag_idx.
             (ucast (rd (cur - prob) cadi_tag_idx) AND DIS_MASK) + ucast prob < 16) slots of
        Some cadi_tag_idx \<Rightarrow> Some (prob, cadi_tag_idx)
      | None \<Rightarrow> find_cadi rd cur ps)"

definition cadi_moved :: "(u32 \<Rightarrow> u32 \<Rightarrow> u32) \<Rightarrow> u32 \<Rightarrow> u32 \<Rightarrow> u32 \<Rightarrow> u32" where
  "cadi_moved rd cur prob cadi_tag_idx =
     (let cadi_tag = ucast (rd (cur - prob) cadi_tag_idx) :: u64
      in ucast ((cadi_tag AND FPT_MASK) OR ((cadi_tag AND DIS_MASK) + ucast prob)))"

partial_function (option) displace_loop ::
    "('s \<Rightarrow> u32 \<Rightarrow> u32 \<Rightarrow> u32) \<Rightarrow> ('s \<Rightarrow> u32 \<Rightarrow> u32 \<Rightarrow> u32 \<Rightarrow> 's) \<Rightarrow> u64 \<Rightarrow> 's \<Rightarrow> u32 \<Rightarrow> u32 \<Rightarrow>
     (bool \<times> 's \<times> u32 \<times> u32) option" where
  [code]: "displace_loop rd mv init_buck_idx s curr_buck_idx curr_tag_idx =
     (if ucast curr_buck_idx - init_buck_idx \<ge> 16 then
        case find_cadi (rd s) curr_buck_idx probes_down of
          None \<Rightarrow> Some (False, s, curr_buck_idx, curr_tag_idx)
        | Some (prob, cadi_tag_idx) \<Rightarrow>
            displace_loop rd mv init_buck_idx
              (mv s curr_buck_idx curr_tag_idx (cadi_moved (rd s) curr_buck_idx prob cadi_tag_idx))
              (curr_buck_idx - prob) cadi_tag_idx
      else Some (True, s, curr_buck_idx, curr_tag_idx))"

text \<open>\<open>tag\<close> is the fingerprint already shifted left by the four distance bits.\<close>

partial_function (option) insert_loop ::
    "('s \<Rightarrow> u32 \<Rightarrow> u32 \<Rightarrow> u32) \<Rightarrow> ('s \<Rightarrow> u32 \<Rightarrow> u32 \<Rightarrow> u32 \<Rightarrow> 's) \<Rightarrow> ('s \<Rightarrow> u32 \<Rightarrow> u32 \<Rightarrow> u32 \<Rightarrow> 's) \<Rightarrow>
     u64 \<Rightarrow> u64 \<Rightarrow> u64 \<Rightarrow> 's \<Rightarrow> u32 \<Rightarrow> (bool \<times> 's) option" where
  [code]: "insert_loop rd mv wr num_buckets init_buck_idx tag s curr_buck_idx =
     (if ucast curr_buck_idx < init_buck_idx + num_buckets then
        case List.find (\<lambda>j. rd s curr_buck_idx j = 0) slots of
          Some curr_tag_idx \<Rightarrow>
            (case displace_loop rd mv init_buck_idx s curr_buck_idx curr_tag_idx of
               None \<Rightarrow> None
             | Some (ok, s', cur, j) \<Rightarrow>
                 if ok then Some (True, wr s' cur j (ucast (tag OR (ucast cur - init_buck_idx))))
                 else Some (False, s'))
        | None \<Rightarrow> insert_loop rd mv wr num_buckets init_buck_idx tag s (curr_buck_idx + 1)
      else Some (False, s))"

text \<open>A part of the state that the writes leave alone is left alone by the loops.\<close>

lemma displace_loop_keeps:
  assumes "displace_loop rd mv init s cur j = Some (ok, s', cur', j')" "\<And>s i j t. g (mv s i j t) = g s"
  shows "g s' = g s"
proof -
  have "(\<forall>s i j t. g (mv s i j t) = g s) \<longrightarrow> g (fst (snd (ok, s', cur', j'))) = g s"
  proof (rule displace_loop.raw_induct [OF _ assms(1)], intro impI, goal_cases)
    case (1 dl rd mv init s cur j y)
    show ?case
    proof (cases "16 \<le> ucast cur - init \<and> find_cadi (rd s) cur probes_down \<noteq> None")
      case True
      then obtain prob cj where "find_cadi (rd s) cur probes_down = Some (prob, cj)" by auto
      then have "dl rd mv init (mv s cur j (cadi_moved (rd s) cur prob cj)) (cur - prob) cj = Some y"
        using 1(2) True by simp
      from 1(1) [OF this] show ?thesis using 1(3) by simp
    next
      case False
      then have "fst (snd y) = s" using 1(2) by (auto split: if_splits option.splits)
      then show ?thesis by simp
    qed
  qed
  then show ?thesis using assms(2) by simp
qed

lemma insert_loop_keeps:
  assumes "insert_loop rd mv wr num init tag s cur = Some (ok, s')"
    "\<And>s i j t. g (mv s i j t) = g s" "\<And>s i j t. g (wr s i j t) = g s"
  shows "g s' = g s"
proof -
  have "(\<forall>s i j t. g (mv s i j t) = g s) \<longrightarrow> (\<forall>s i j t. g (wr s i j t) = g s) \<longrightarrow> g (snd (ok, s')) = g s"
  proof (rule insert_loop.raw_induct [OF _ assms(1)], intro impI, goal_cases)
    case (1 il rd mv wr num init tag s cur y)
    note w = 1(3) 1(4)
    consider "snd y = s" | "il rd mv wr num init tag s (cur + 1) = Some y"
      | j ok s' cur' j' where "displace_loop rd mv init s cur j = Some (ok, s', cur', j')"
        "snd y = (if ok then wr s' cur' j' (ucast (tag OR (ucast cur' - init))) else s')"
      using 1(2) by (auto split: if_splits option.splits)
    then show ?case
    proof cases
      case 2
      from 1(1) [OF this] show ?thesis using w by simp
    next
      case 3
      then show ?thesis using displace_loop_keeps [OF 3(1), of g] w by simp
    qed simp
  qed
  then show ?thesis using assms(2,3) by simp
qed

section \<open>Tags as numbers\<close>

lemma low_or_add:
  assumes "unat (t :: u64) mod 16 = 0" "unat (p :: u64) < 16"
  shows "t OR p = t + p" "unat (t OR p) = unat t + unat p"
proof -
  have "take_bit 4 t = 0" using assms(1) by (simp add: word_unat_eq_iff take_bit_eq_mod unat_mod)
  then have t: "\<not> bit t n" if "n < 4" for n using that by (metis bit_take_bit_iff bit_0_eq bot_apply bot_bool_def)
  have "take_bit 4 p = p" using assms(2) by (simp add: word_unat_eq_iff take_bit_eq_mod unat_mod)
  then have p: "\<not> bit p n" if "\<not> n < 4" for n using that by (metis bit_take_bit_iff)
  have "t AND p = 0" by (rule bit_word_eqI) (use t p in \<open>auto simp: bit_and_iff\<close>)
  then show e: "t OR p = t + p" by (simp add: disjunctive_add_eq_or)
  obtain k where k: "unat t = 16 * k" using assms(1) by (metis mod_0_imp_dvd dvdE)
  have "unat t < 16 * 2 ^ 60" using unat_lt2p [of t] by simp
  then have "k < 2 ^ 60" using k by simp
  then have "unat t + unat p < 2 ^ 64" using k assms(2) by simp
  then show "unat (t OR p) = unat t + unat p" unfolding e by (simp add: unat_add_lem [THEN iffD1])
qed

lemma find_map_conv:
  assumes "\<And>x. x \<in> set xs \<Longrightarrow> P x \<longleftrightarrow> Q (g x)"
  shows "map_option g (List.find P xs) = List.find Q (map g xs)"
  using assms by (induction xs) auto

lemma map_unat_slots: "map unat slots = [0..<4]"
  by (simp add: slots_def upt_rec)

lemma map_unat_probes: "map unat probes_down = rev [1..<16]"
  by (simp add: probes_down_def upt_rec)

lemma unat_dis: "unat (t AND DIS_MASK) = unat t mod 16"
proof -
  have m: "DIS_MASK = mask 4" by (simp add: mask_eq_exp_minus_1)
  show ?thesis unfolding m take_bit_eq_mask [symmetric] by (simp add: take_bit_eq_mod unat_mod)
qed

lemma unat_fpt:
  assumes "unat (t :: u64) < 65536"
  shows "unat (t AND FPT_MASK) = 16 * (unat t div 16)"
proof -
  have "take_bit 16 t = t" using assms by (simp add: word_unat_eq_iff take_bit_eq_mod unat_mod)
  then have b: "n < 16" if "bit t n" for n using that by (metis bit_take_bit_iff)
  have m: "FPT_MASK = push_bit 4 (mask 12)" by (simp add: mask_eq_exp_minus_1 push_bit_eq_mult)
  have "t AND FPT_MASK = push_bit 4 (drop_bit 4 t)"
    unfolding m by (rule bit_word_eqI) (auto simp: bit_simps dest: b)
  moreover have "unat (drop_bit 4 t) = unat t div 16" by (simp add: unat_drop_bit)
  ultimately show ?thesis
    using assms by (simp add: push_bit_eq_mult unat_mult_lem [THEN iffD1] mult.commute)
qed

lemma dis_sum:
  assumes "unat (p :: u64) < 16"
  shows "unat ((t AND DIS_MASK) + p) = unat t mod 16 + unat p"
proof -
  have "unat t mod 16 < 16" by simp
  then show ?thesis
    using assms by (subst unat_add_lem [THEN iffD1]) (simp_all add: unat_dis)
qed

lemma moved_tag:
  assumes "unat (t :: u64) < 65536" "unat t mod 16 + unat p < 16"
  shows "unat ((t AND FPT_MASK) OR ((t AND DIS_MASK) + p)) = unat t + unat p"
proof -
  have "unat ((t AND DIS_MASK) + p) = unat t mod 16 + unat p" using assms by (intro dis_sum) simp
  then show ?thesis
    using low_or_add(2) [of "t AND FPT_MASK" "(t AND DIS_MASK) + p"] assms by (simp add: unat_fpt)
qed

lemma slots_less: "j \<in> set slots \<Longrightarrow> unat j < 4"
  by (auto simp: slots_def)

lemma unat_minus_probe:
  assumes "unat (p :: u32) < 16" "16 \<le> unat cur"
  shows "unat (cur - p) = unat cur - unat p"
  using assms by (simp add: unat_sub_if')

lemma moved_bound:
  assumes "(t :: nat) < 65536" "t mod 16 + p < 16"
  shows "t + p < 65536"
proof -
  have "t div 16 < 4096" using assms(1) by (simp add: div_less_iff_less_mult)
  then show ?thesis using assms(2) mult_div_mod_eq [of 16 t] by linarith
qed

lemma unat_home: "h < 2 ^ 32 \<Longrightarrow> unat (of_nat h :: u64) = h"
  by (simp add: unat_of_nat take_bit_nat_eq_self)

lemma find_product_upt_Cons:
  assumes "d < n"
  shows "List.find P (List.product [d..<n] ys) =
    (case List.find (\<lambda>j. P (d, j)) ys of
       Some j \<Rightarrow> Some (d, j) | None \<Rightarrow> List.find P (List.product [Suc d..<n] ys))"
proof -
  have "List.find P (map (Pair d) ys) = map_option (Pair d) (List.find (\<lambda>j. P (d, j)) ys)"
    by (rule find_map_conv [symmetric]) simp
  then show ?thesis
    using assms by (simp add: upt_conv_Cons find_append split: option.splits)
qed

section \<open>The contract of the tag accesses\<close>

locale tag_store =
  fixes rd :: "'s \<Rightarrow> u32 \<Rightarrow> u32 \<Rightarrow> u32"
    and mv wr :: "'s \<Rightarrow> u32 \<Rightarrow> u32 \<Rightarrow> u32 \<Rightarrow> 's"
    and inv :: "'s \<Rightarrow> bool"
    and nb :: "'s \<Rightarrow> nat"
    and tb :: "'s \<Rightarrow> tag_table"
  assumes nb_bounds: "inv s \<Longrightarrow> 0 < nb s" "inv s \<Longrightarrow> nb s < 2 ^ 31"
    and rd_tab: "inv s \<Longrightarrow> unat j < 4 \<Longrightarrow> unat (rd s i j) = tb s (unat i mod nb s) (unat j)"
    and wr_tab: "inv s \<Longrightarrow> unat j < 4 \<Longrightarrow>
      tb (wr s i j t) = upd (tb s) (unat i mod nb s) (unat j) (unat t mod 65536)"
    and wr_inv: "inv s \<Longrightarrow> unat j < 4 \<Longrightarrow> inv (wr s i j t)" "inv s \<Longrightarrow> unat j < 4 \<Longrightarrow> nb (wr s i j t) = nb s"
    and mv_tab: "inv s \<Longrightarrow> unat j < 4 \<Longrightarrow>
      tb (mv s i j t) = upd (tb s) (unat i mod nb s) (unat j) (unat t mod 65536)"
    and mv_inv: "inv s \<Longrightarrow> unat j < 4 \<Longrightarrow> inv (mv s i j t)" "inv s \<Longrightarrow> unat j < 4 \<Longrightarrow> nb (mv s i j t) = nb s"
    and tb_less: "inv s \<Longrightarrow> k < 4 \<Longrightarrow> tb s (b mod nb s) k < 65536"
begin

lemma find_cadi_core:
  assumes "inv s" "16 \<le> unat cur"
  shows "list_all (\<lambda>p. unat p < 16) ps \<Longrightarrow>
    map_option (map_prod unat unat) (find_cadi (rd s) cur ps) =
    List.find (\<lambda>(p, j). tb s ((unat cur - p) mod nb s) j mod 16 + p < 16)
      (List.product (map unat ps) [0..<4])"
proof (induction ps)
  case (Cons p ps)
  let ?P = "\<lambda>j. (ucast (rd s (cur - p) j) AND DIS_MASK) + ucast p < 16"
  let ?Q = "\<lambda>j. tb s ((unat cur - unat p) mod nb s) j mod 16 + unat p < 16"
  let ?R = "\<lambda>(p, j). tb s ((unat cur - p) mod nb s) j mod 16 + p < 16"
  have p: "unat p < 16" using Cons.prems by simp
  have "?P j \<longleftrightarrow> ?Q (unat j)" if "j \<in> set slots" for j
    using p dis_sum [of "ucast p" "ucast (rd s (cur - p) j)"] assms slots_less [OF that]
    by (simp add: word_less_unat rd_tab unat_minus_probe)
  then have "map_option unat (List.find ?P slots) = List.find ?Q [0..<4]"
    unfolding map_unat_slots [symmetric] by (rule find_map_conv)
  then have "map_option (Pair (unat p)) (map_option unat (List.find ?P slots)) = List.find ?R (map (Pair (unat p)) [0..<4])"
    by (simp add: find_map_conv)
  then have "List.find ?R (map (Pair (unat p)) [0..<4]) = map_option (\<lambda>j. (unat p, unat j)) (List.find ?P slots)"
    by (simp add: option.map_comp comp_def)
  moreover have "map_option (map_prod unat unat) (find_cadi (rd s) cur ps) = List.find ?R (List.product (map unat ps) [0..<4])"
    using Cons by simp
  ultimately show ?case by (cases "List.find ?P slots") (simp_all add: find_append del: find_cadi.simps(1))
qed simp

text \<open>A position of the loops: the bucket index \<open>cur\<close> is \<open>d\<close> buckets past the home bucket \<open>h\<close>.\<close>

definition pos :: "'s \<Rightarrow> nat \<Rightarrow> nat \<Rightarrow> u32 \<Rightarrow> u32 \<Rightarrow> bool" where
  "pos s h d cur j \<longleftrightarrow> inv s \<and> h < nb s \<and> d < nb s \<and>
     unat cur = h + d \<and> unat j < 4"

lemma pos_distance:
  assumes "pos s h d cur j"
  shows "unat (ucast cur - of_nat h :: u64) = d"
proof -
  have "h < 2 ^ 32" using assms nb_bounds(2) [of s] by (simp add: pos_def)
  then show ?thesis using assms by (simp add: unat_sub_if' unat_home pos_def)
qed

lemma displace_stop:
  assumes "pos s h d cur j" "d < 16"
  shows "displace_loop rd mv (of_nat h) s cur j = Some (True, s, cur, j)"
  using assms pos_distance [OF assms(1)] by (subst displace_loop.simps) (simp add: word_le_nat_alt)

lemma find_cadi_core_cadi:
  assumes "pos s h d cur j" "16 \<le> d"
  shows "core_cadi (nb s) (tb s) (h + d) =
    map_option (map_prod unat unat) (find_cadi (rd s) cur probes_down)"
proof -
  have "list_all (\<lambda>p. unat p < 16) probes_down" by (simp add: probes_down_def)
  then show ?thesis
    using assms by (simp add: find_cadi_core map_unat_probes core_cadi_def pos_def)
qed

lemma displace_none:
  assumes "pos s h d cur j" "16 \<le> d" "find_cadi (rd s) cur probes_down = None"
  shows "displace_loop rd mv (of_nat h) s cur j = Some (False, s, cur, j)"
  using assms pos_distance [OF assms(1)] by (subst displace_loop.simps) (simp add: word_le_nat_alt)

lemma displace_move:
  assumes p: "pos s h d cur j" "16 \<le> d" and c: "find_cadi (rd s) cur probes_down = Some (prob, cj)"
  defines "s1 \<equiv> mv s cur j (cadi_moved (rd s) cur prob cj)"
  shows "displace_loop rd mv (of_nat h) s cur j = displace_loop rd mv (of_nat h) s1 (cur - prob) cj"
    and "pos s1 h (d - unat prob) (cur - prob) cj" "0 < unat prob" "unat prob \<le> d" "nb s1 = nb s"
    and "core_cadi (nb s) (tb s) (h + d) = Some (unat prob, unat cj)"
    and "tb s1 = upd (tb s) ((h + d) mod nb s) (unat j)
      (tb s ((h + d - unat prob) mod nb s) (unat cj) + unat prob)"
proof -
  let ?n = "nb s" and ?T = "tb s"
  show core: "core_cadi ?n ?T (h + d) = Some (unat prob, unat cj)"
    using find_cadi_core_cadi [OF p] c by simp
  note b = core_cadi_Some [OF core]
  have d: "unat (ucast cur - of_nat h :: u64) = d" and cur: "unat cur = h + d"
    using pos_distance [OF p(1)] p(1) by (simp_all add: pos_def)
  show "displace_loop rd mv (of_nat h) s cur j = displace_loop rd mv (of_nat h) s1 (cur - prob) cj"
    using p(2) d c by (subst displace_loop.simps) (simp add: word_le_nat_alt s1_def)
  show "0 < unat prob" "unat prob \<le> d" using b p(2) by auto
  have m: "unat (cur - prob) = h + d - unat prob" using b p(2) cur by (simp add: unat_minus_probe)
  show "nb s1 = nb s" using p(1) by (simp add: s1_def pos_def mv_inv)
  then show "pos s1 h (d - unat prob) (cur - prob) cj"
    using p b m by (auto simp: pos_def s1_def mv_inv)
  have r: "unat (rd s (cur - prob) cj) = ?T ((h + d - unat prob) mod ?n) (unat cj)"
    using p(1) b(3) by (simp add: rd_tab m pos_def)
  have "unat (cadi_moved (rd s) cur prob cj) mod 65536 = ?T ((h + d - unat prob) mod ?n) (unat cj) + unat prob"
  proof -
    let ?t = "ucast (rd s (cur - prob) cj) :: u64"
    have t: "unat ?t < 65536" "unat ?t mod 16 + unat (ucast prob :: u64) < 16"
      using b(3,4) p(1) tb_less by (simp_all add: r pos_def)
    then have "unat ?t + unat prob < 65536" using moved_bound [of "unat ?t" "unat prob"] by simp
    then show ?thesis
      unfolding cadi_moved_def Let_def unat_u64_u32 moved_tag [OF t] by (simp add: r)
  qed
  then show "tb s1 = upd ?T ((h + d) mod ?n) (unat j) (?T ((h + d - unat prob) mod ?n) (unat cj) + unat prob)"
    using p cur by (simp add: s1_def mv_tab pos_def)
qed

lemma displace_core:
  assumes "pos s h d cur j"
  shows "\<exists>ok s' d' cur' j'. displace_loop rd mv (of_nat h) s cur j = Some (ok, s', cur', j') \<and>
     core_displace (nb s) (tb s) h d (unat j) = (ok, tb s', d', unat j') \<and>
     pos s' h d' cur' j' \<and> nb s' = nb s"
  using assms
proof (induction d arbitrary: s cur j rule: less_induct)
  case (less d)
  note core = core_displace.simps [of "nb s" "tb s" h d "unat j"]
  show ?case
  proof (cases "16 \<le> d")
    case False
    then show ?thesis
      using less.prems displace_stop [OF less.prems] core by (intro exI [of _ True] exI) auto
  next
    case True
    show ?thesis
    proof (cases "find_cadi (rd s) cur probes_down")
      case None
      then show ?thesis
        using True less.prems displace_none [OF less.prems True None] find_cadi_core_cadi [OF less.prems True] core
        by (intro exI [of _ False] exI) auto
    next
      case (Some pc)
      obtain prob cj where "find_cadi (rd s) cur probes_down = Some (prob, cj)" using Some by (cases pc) auto
      note m = displace_move [OF less.prems True this]
      show ?thesis
        using less.IH [OF _ m(2)] m(1,3-) True core by simp
    qed
  qed
qed

definition place :: "nat \<Rightarrow> u64 \<Rightarrow> 's \<Rightarrow> u32 \<Rightarrow> u32 \<Rightarrow> (bool \<times> 's) option" where
  "place h tag s cur j =
     (case displace_loop rd mv (of_nat h) s cur j of
        None \<Rightarrow> None
      | Some (ok, s', cur', j') \<Rightarrow>
          if ok then Some (True, wr s' cur' j' (ucast (tag OR (ucast cur' - of_nat h))))
          else Some (False, s'))"

lemma insert_loop_search:
  assumes "inv s" "h < nb s" "unat cur = h + d" "d \<le> nb s" "unat num = nb s"
  shows "case List.find (\<lambda>(d, j). tb s ((h + d) mod nb s) j = 0)
            (List.product [d..<nb s] [0..<4]) of
       None \<Rightarrow> insert_loop rd mv wr num (of_nat h) tag s cur = Some (False, s)
     | Some (d', j') \<Rightarrow> \<exists>cur' j. pos s h d' cur' j \<and> unat j = j' \<and>
         insert_loop rd mv wr num (of_nat h) tag s cur = place h tag s cur' j"
  using assms(3,4)
proof (induction "nb s - d" arbitrary: d cur)
  case 0
  then have d: "d = nb s" by simp
  have "\<not> (ucast cur < of_nat h + num)"
    using assms(1,2,5) nb_bounds(2) [of s] 0 d by (simp add: word_less_unat unat_word_ariths unat_home)
  then show ?case using d by (simp add: insert_loop.simps [of _ _ _ _ _ _ _ cur])
next
  case (Suc k)
  let ?n = "nb s" and ?T = "tb s"
  have d: "d < ?n" using Suc.hyps(2) by simp
  have g: "ucast cur < of_nat h + num"
    using assms(1,2,5) nb_bounds(2) [of s] Suc d by (simp add: word_less_unat unat_word_ariths unat_home)
  have "map_option unat (List.find (\<lambda>j. rd s cur j = 0) slots) = List.find (\<lambda>j. ?T ((h + d) mod ?n) j = 0) [0..<4]"
    unfolding map_unat_slots [symmetric]
    by (rule find_map_conv) (simp add: rd_tab assms(1) slots_less Suc.prems(1) flip: unat_eq_0)
  note fe = this [symmetric]
  show ?case
  proof (cases "List.find (\<lambda>j. rd s cur j = 0) slots")
    case None
    have "unat (cur + 1) = h + Suc d" using Suc.prems d assms nb_bounds(2) [of s] by (simp add: unat_word_ariths)
    moreover have "k = ?n - Suc d" using Suc.hyps(2) by simp
    moreover have lp: "insert_loop rd mv wr num (of_nat h) tag s cur = insert_loop rd mv wr num (of_nat h) tag s (cur + 1)"
      using g None by (simp add: insert_loop.simps [of _ _ _ _ _ _ _ cur])
    ultimately show ?thesis
      unfolding lp using Suc.hyps(1) [of "Suc d" "cur + 1"] d fe None by (simp add: find_product_upt_Cons)
  next
    case (Some j)
    then have "j \<in> set slots" by (rule find_SomeD [THEN conjunct1])
    then have "unat j < 4" by (auto simp: slots_def)
    then have "pos s h d cur j" using Suc.prems d assms by (simp add: pos_def)
    then show ?thesis
      using g Some fe d by (auto simp: find_product_upt_Cons insert_loop.simps [of _ _ _ _ _ _ _ cur] place_def)
  qed
qed

lemma place_core:
  assumes "pos s h d cur j" "unat tag mod 16 = 0" "unat tag < 65536"
    "find_empty (nb s) (tb s) h = Some (d, unat j)"
  shows "\<exists>ok s'. place h tag s cur j = Some (ok, s') \<and>
    core_insert (nb s) (tb s) h (unat tag) = (ok, tb s') \<and>
    inv s' \<and> nb s' = nb s"
proof -
  let ?n = "nb s"
  obtain ok s' d' cur' j' where r: "displace_loop rd mv (of_nat h) s cur j = Some (ok, s', cur', j')"
    "core_displace ?n (tb s) h d (unat j) = (ok, tb s', d', unat j')"
    "pos s' h d' cur' j'" and s: "nb s' = nb s"
    using displace_core [OF assms(1)] by blast
  have h: "h < ?n" using assms(1) by (simp add: pos_def)
  have d': "ok \<Longrightarrow> d' < 16"
    using displace_spec [OF find_empty_hole(1) [OF assms(4) h] r(2)] by blast
  have "unat (ucast (tag OR (ucast cur' - of_nat h)) :: u32) mod 65536 = unat tag + d'" if ok
  proof -
    have u: "unat (tag OR (ucast cur' - of_nat h)) = unat tag + d'"
      using low_or_add(2) [of tag "ucast cur' - of_nat h"] pos_distance [OF r(3)] d' that assms(2) by simp
    have "unat tag + d' < 65536" using moved_bound [of "unat tag" d'] d' that assms(2,3) by simp
    then show ?thesis unfolding unat_u64_u32 u by simp
  qed
  moreover have "inv s'" "unat j' < 4" "unat cur' = h + d'" using r(3) by (auto simp: pos_def)
  ultimately show ?thesis
    using r s assms(4) by (cases ok) (auto simp: place_def core_insert_def wr_tab wr_inv)
qed

text \<open>What an insertion does: it returns, and acts on the table as the abstract insertion.\<close>

lemma insert_loop_place:
  assumes "inv s" "unat num = nb s" "unat i < nb s"
  shows "case find_empty (nb s) (tb s) (unat i) of
      None \<Rightarrow> insert_loop rd mv wr num (ucast i) tag s i = Some (False, s)
    | Some (d, j') \<Rightarrow> \<exists>cur j. pos s (unat i) d cur j \<and> unat j = j' \<and>
        insert_loop rd mv wr num (ucast i) tag s i = place (unat i) tag s cur j"
proof -
  have i: "ucast i = (of_nat (unat i) :: u64)" by simp
  show ?thesis
    unfolding i find_empty_def by (rule insert_loop_search [OF assms(1,3) _ _ assms(2)]) simp_all
qed

lemma insert_loop_core:
  assumes "inv s" "unat num = nb s" "unat i < nb s" "unat tag mod 16 = 0" "unat tag < 65536"
  shows "\<exists>ok s'. insert_loop rd mv wr num (ucast i) tag s i = Some (ok, s') \<and>
    core_insert (nb s) (tb s) (unat i) (unat tag) = (ok, tb s') \<and> inv s' \<and> nb s' = nb s"
proof (cases "find_empty (nb s) (tb s) (unat i)")
  case None
  then show ?thesis
    using insert_loop_place [OF assms(1-3), of tag] assms(1) by (intro exI [of _ False]) (simp add: core_insert_def)
next
  case (Some dj)
  obtain d cur j where p: "pos s (unat i) d cur j" "find_empty (nb s) (tb s) (unat i) = Some (d, unat j)"
    "insert_loop rd mv wr num (ucast i) tag s i = place (unat i) tag s cur j"
    using insert_loop_place [OF assms(1-3), of tag] Some by (cases dj) auto
  show ?thesis using place_core [OF p(1) assms(4,5) p(2)] p(3) by simp
qed

end

end
