(* ===== verification/Wormhole_PM.thy ===== *)
theory Wormhole_PM
  imports Tag_Lanes Wormhole_Loops
begin

text \<open>
  The persistent-memory wormhole filter of \<^verbatim>\<open>src/pm_wf/pmwormholefilter.hpp\<close>. The filter object is
  a record with the source's fields; the root object of the pool is an option (\<open>None\<close> is the null
  \<^verbatim>\<open>TOID\<close>). Dereferencing the null object and reducing a hash modulo zero buckets are error values.
  The ghost field \<open>events\<close> lists the stores to buckets and the \<^verbatim>\<open>pmemobj_persist\<close> calls in program
  order; it is what the crash theorems of \<^verbatim>\<open>Wormhole_Crash\<close> speak about. The loops of the insertion
  run on 32-bit indices and are \<open>partial_function\<close>s: that they return is proved.
\<close>

unbundle bit_operations_syntax

section \<open>The filter object\<close>

record PMWF_TwoIndependentMultiplyShift =
  multiply :: "128 word"
  add_v :: "128 word"

text \<open>The constructor draws five 32-bit values for each of the two members.\<close>

definition draw128 :: "u32 list \<Rightarrow> 128 word" where
  "draw128 rs = foldl (\<lambda>v r. push_bit 32 v OR ucast r) (ucast (hd rs)) (tl rs)"

definition new_hasher :: "u32 list \<Rightarrow> PMWF_TwoIndependentMultiplyShift" where
  "new_hasher random = \<lparr>multiply = draw128 (take 5 random), add_v = draw128 (take 5 (drop 5 random))\<rparr>"

definition hasher_apply :: "PMWF_TwoIndependentMultiplyShift \<Rightarrow> u64 \<Rightarrow> u64" where
  "hasher_apply h key = key"

datatype pm_event = Store nat u64 | Persist nat

record pmwormholefilter =
  num_buckets :: u32
  hasher :: PMWF_TwoIndependentMultiplyShift
  buckets :: "u64 list"
  events :: "pm_event list"

type_synonym pm_root = "pmwormholefilter option"

datatype pm_error = Null_Object | Division_By_Zero

section \<open>Creation\<close>

text \<open>
  The number of buckets is \<^verbatim>\<open>int((max_num_keys / 4) / 0.8)\<close>: an IEEE double division. The literal
  0.8 is the double \<open>7205759403792794 / 2 ^ 53\<close>; the quotient is rounded to 53 significant bits,
  ties to even, and then truncated.
\<close>

definition dbl_0_8 :: nat where
  "dbl_0_8 = 7205759403792794"

definition int_div_0_8 :: "nat \<Rightarrow> nat" where
  "int_div_0_8 m =
     (if m = 0 then 0
      else let x = m * 2 ^ 53;
               e = 53 - bit_length (x div dbl_0_8);
               y = x * 2 ^ e;
               q = y div dbl_0_8;
               r = y mod dbl_0_8;
               q' = (if dbl_0_8 < 2 * r \<or> (2 * r = dbl_0_8 \<and> odd q) then q + 1 else q)
           in q' div 2 ^ e)"

definition pm_num_buckets :: "u32 \<Rightarrow> u32" where
  "pm_num_buckets max_num_keys = of_nat (int_div_0_8 (unat (max_num_keys div 4)))"

text \<open>
  \<open>zalloc n\<close> says whether the zeroing transactional allocation of \<open>n\<close> bytes succeeds; when it does
  not, the transaction aborts and the root keeps its value. \<open>random\<close> are the values drawn from the
  random device. \<^verbatim>\<open>sizeof(struct pmwormholefilter)\<close> is 48.
\<close>

definition pmwormholefilter_init :: "(nat \<Rightarrow> bool) \<Rightarrow> u32 list \<Rightarrow> pm_root \<Rightarrow> u32 \<Rightarrow> pm_root" where
  "pmwormholefilter_init zalloc random root max_num_keys =
     (let n = pm_num_buckets max_num_keys
      in if zalloc (48 + 8 * unat n)
         then Some \<lparr>num_buckets = n, hasher = new_hasher random,
                    buckets = replicate (unat n) 0, events = []\<rparr>
         else root)"

definition pmwormholefilter_destroy :: "pm_root \<Rightarrow> pm_root" where
  "pmwormholefilter_destroy root = None"

section \<open>Tags\<close>

definition index_hash :: "u32 \<Rightarrow> u32 \<Rightarrow> pm_error + u32" where
  "index_hash hv num = (if num = 0 then Inl Division_By_Zero else Inr (hv mod num))"

definition tag_hash :: "u32 \<Rightarrow> u32" where
  "tag_hash hv =
     (let tag = ucast ((ucast hv :: u64) AND (push_bit 12 1 - 1)) :: u32;
          tag = tag + (if tag = 0 then 1 else 0)
      in push_bit 4 tag)"

definition ReadTag :: "pmwormholefilter \<Rightarrow> u32 \<Rightarrow> u32 \<Rightarrow> u32" where
  "ReadTag f i j =
     (let i_m = i mod num_buckets f in ucast (lane (buckets f ! unat i_m) (unat j)))"

definition WriteTag :: "pmwormholefilter \<Rightarrow> u32 \<Rightarrow> u32 \<Rightarrow> u32 \<Rightarrow> pmwormholefilter" where
  "WriteTag f i j t =
     (let i_m = unat (i mod num_buckets f);
          w = set_lane (buckets f ! i_m) (unat j) (ucast t)
      in f\<lparr>buckets := (buckets f)[i_m := w], events := events f @ [Store i_m w]\<rparr>)"

definition PMWriteTag :: "pmwormholefilter \<Rightarrow> u32 \<Rightarrow> u32 \<Rightarrow> u32 \<Rightarrow> pmwormholefilter" where
  "PMWriteTag f i j t =
     (let i_m = unat (i mod num_buckets f);
          w = set_lane (buckets f ! i_m) (unat j) (ucast t)
      in f\<lparr>buckets := (buckets f)[i_m := w], events := events f @ [Store i_m w, Persist i_m]\<rparr>)"

section \<open>Insertion\<close>

text \<open>The displaced tags are written with a persist, the new tag without.\<close>

definition pmwormholefilter_insert :: "pm_root \<Rightarrow> u64 \<Rightarrow> (pm_error + bool \<times> pm_root) option" where
  "pmwormholefilter_insert root key =
     (case root of
        None \<Rightarrow> Some (Inl Null_Object)
      | Some f \<Rightarrow>
          let hash = hasher_apply (hasher f) key
          in case index_hash (ucast hash) (num_buckets f) of
               Inl e \<Rightarrow> Some (Inl e)
             | Inr i \<Rightarrow>
                 (let init_buck_idx = ucast i :: u64;
                      tag = ucast (tag_hash (ucast (drop_bit 32 hash))) :: u64
                  in case insert_loop ReadTag PMWriteTag WriteTag (ucast (num_buckets f)) init_buck_idx tag f i of
                       None \<Rightarrow> None
                     | Some (ok, f') \<Rightarrow> Some (Inr (ok, Some f'))))"

section \<open>Lookup, deletion, size\<close>

definition pmwormholefilter_lookup :: "pm_root \<Rightarrow> u64 \<Rightarrow> pm_error + bool" where
  "pmwormholefilter_lookup root key =
     (case root of
        None \<Rightarrow> Inl Null_Object
      | Some f \<Rightarrow>
          let hash = hasher_apply (hasher f) key
          in case index_hash (ucast hash) (num_buckets f) of
               Inl e \<Rightarrow> Inl e
             | Inr i \<Rightarrow>
                 (let init_buck_idx = ucast i :: u64;
                      tag = ucast (tag_hash (ucast (drop_bit 32 hash))) :: u64
                  in Inr (list_ex (\<lambda>prob :: u32.
                       let m = ucast ((init_buck_idx + ucast prob) mod ucast (num_buckets f)) :: u32
                       in hasvalue16 (buckets f ! unat m) (tag OR ucast prob) \<noteq> 0)
                       (map of_nat [0..<MAX_PROB]))))"

definition pmwormholefilter_delete :: "pm_root \<Rightarrow> u64 \<Rightarrow> pm_error + bool \<times> pm_root" where
  "pmwormholefilter_delete root key =
     (case root of
        None \<Rightarrow> Inl Null_Object
      | Some f \<Rightarrow>
          let hash = hasher_apply (hasher f) key
          in case index_hash (ucast hash) (num_buckets f) of
               Inl e \<Rightarrow> Inl e
             | Inr i \<Rightarrow>
                 (let init_buck_idx = ucast i :: u64;
                      tag = ucast (tag_hash (ucast (drop_bit 32 hash))) :: u64
                  in case List.find (\<lambda>(prob :: u32, j).
                            ucast (ReadTag f (ucast (init_buck_idx + ucast prob)) j) = tag OR ucast prob)
                          (List.product (map of_nat [0..<MAX_PROB]) slots) of
                       Some (prob, j) \<Rightarrow>
                         Inr (True, Some (WriteTag f (ucast (init_buck_idx + ucast prob)) j 0))
                     | None \<Rightarrow> Inr (False, Some f)))"

definition pmwormholefilter_bytes :: "pm_root \<Rightarrow> pm_error + int" where
  "pmwormholefilter_bytes root =
     (case root of
        None \<Rightarrow> Inl Null_Object
      | Some f \<Rightarrow> Inr (sint (ucast (8 * ucast (num_buckets f) :: u64) :: u32)))"

section \<open>Refinement of the abstract table\<close>

definition pm_inv :: "pmwormholefilter \<Rightarrow> bool" where
  "pm_inv f \<longleftrightarrow> num_buckets f \<noteq> 0 \<and> unat (num_buckets f) < 2 ^ 31 \<and> length (buckets f) = unat (num_buckets f)"

definition tab :: "u64 list \<Rightarrow> tag_table" where
  "tab bs b j = unat (lane (bs ! b) j)"

definition pm_home :: "pmwormholefilter \<Rightarrow> u64 \<Rightarrow> nat" where
  "pm_home f key = unat (ucast (hasher_apply (hasher f) key) mod num_buckets f)"

definition pm_fpt :: "pmwormholefilter \<Rightarrow> u64 \<Rightarrow> nat" where
  "pm_fpt f key = unat (tag_hash (ucast (drop_bit 32 (hasher_apply (hasher f) key))))"

definition pm_item :: "pmwormholefilter \<Rightarrow> u64 \<Rightarrow> nat \<times> nat" where
  "pm_item f key = (pm_home f key, pm_fpt f key)"

definition contents :: "pmwormholefilter \<Rightarrow> (nat \<times> nat) multiset" where
  "contents f = items (unat (num_buckets f)) (tab (buckets f))"

lemma lane_ge: "4 \<le> j \<Longrightarrow> lane w j = 0"
  by (rule bit_word_eqI) (auto simp: bit_lane dest: bit_imp_le_length)

lemma tab_less: "tab bs b j < 65536"
  using unat_lt2p [of "lane (bs ! b) j"] by (simp add: tab_def)

lemma unat_ReadTag:
  "unat (ReadTag f i j) = tab (buckets f) (unat i mod unat (num_buckets f)) (unat j)"
  by (simp add: ReadTag_def tab_def unat_u16_u32 unat_mod Let_def)

lemma tab_update:
  assumes "b < length bs" "j < 4"
  shows "tab (bs[b := set_lane (bs ! b) j t]) = upd (tab bs) b j (unat t)"
proof (intro ext)
  fix b' j'
  show "tab (bs[b := set_lane (bs ! b) j t]) b' j' = upd (tab bs) b j (unat t) b' j'"
    using assms by (cases "j' < 4") (auto simp: tab_def upd_apply nth_list_update lane_set_lane lane_ge)
qed

lemma WriteTag_sel [simp]:
  "num_buckets (WriteTag f i j t) = num_buckets f" "hasher (WriteTag f i j t) = hasher f"
  "length (buckets (WriteTag f i j t)) = length (buckets f)"
  by (simp_all add: WriteTag_def Let_def)

lemma PMWriteTag_sel [simp]:
  "num_buckets (PMWriteTag f i j t) = num_buckets f" "hasher (PMWriteTag f i j t) = hasher f"
  "buckets (PMWriteTag f i j t) = buckets (WriteTag f i j t)"
  by (simp_all add: WriteTag_def PMWriteTag_def Let_def)

lemma pm_inv_WriteTag [simp]:
  "pm_inv (WriteTag f i j t) = pm_inv f" "pm_inv (PMWriteTag f i j t) = pm_inv f"
  by (simp_all add: pm_inv_def)

lemma pm_inv_pos: "pm_inv f \<Longrightarrow> 0 < unat (num_buckets f)"
  by (simp add: pm_inv_def unat_gt_0)

lemma tab_WriteTag:
  assumes "pm_inv f" "unat j < 4"
  shows "tab (buckets (WriteTag f i j t)) =
    upd (tab (buckets f)) (unat i mod unat (num_buckets f)) (unat j) (unat t mod 65536)"
  using assms pm_inv_pos [OF assms(1)]
  by (simp add: WriteTag_def Let_def tab_update pm_inv_def unat_mod unat_u32_u16)

section \<open>Tags as numbers\<close>

lemma unat_tag_hash:
  "unat (tag_hash hv) = 16 * (if unat hv mod 4096 = 0 then 1 else unat hv mod 4096)"
proof -
  define t where "t = (ucast ((ucast hv :: u64) AND (push_bit 12 1 - 1)) :: u32)"
  have m: "push_bit 12 1 - 1 = (mask 12 :: u64)" by (simp add: mask_eq_exp_minus_1)
  have t: "unat t = unat hv mod 4096"
    unfolding t_def m take_bit_eq_mask [symmetric]
    by (simp add: unat_u64_u32 take_bit_eq_mod unat_mod)
  define u where "u = t + (if t = 0 then 1 else 0)"
  have u: "unat u = (if unat hv mod 4096 = 0 then 1 else unat hv mod 4096)"
    by (cases "t = 0") (simp_all add: u_def unat_eq_0 flip: t)
  then have "unat u < 4096" by simp
  then have "unat (push_bit 4 u) = 16 * unat u"
    by (simp add: push_bit_eq_mult unat_mult_lem [THEN iffD1] mult.commute)
  then show ?thesis using u by (simp add: tag_hash_def Let_def t_def u_def)
qed

lemma tag_hash_ok:
  "unat (tag_hash hv) mod 16 = 0" "0 < unat (tag_hash hv)" "unat (tag_hash hv) < 65536"
  by (auto simp: unat_tag_hash)

section \<open>Insertion\<close>

interpretation pm: tag_store ReadTag PMWriteTag WriteTag pm_inv
  "\<lambda>f. unat (num_buckets f)" "\<lambda>f. tab (buckets f)"
  by unfold_locales
    (simp_all add: pm_inv_pos unat_ReadTag tab_WriteTag tab_less, simp_all add: pm_inv_def)

lemma pm_home_less: "pm_inv f \<Longrightarrow> pm_home f key < unat (num_buckets f)"
  using pm_inv_pos [of f] by (simp add: pm_home_def unat_mod)

lemma pm_fpt_ok: "pm_fpt f key mod 16 = 0" "0 < pm_fpt f key" "pm_fpt f key < 65536"
  by (simp_all only: pm_fpt_def tag_hash_ok)

definition pm_tag64 :: "pmwormholefilter \<Rightarrow> u64 \<Rightarrow> u64" where
  "pm_tag64 f key = ucast (tag_hash (ucast (drop_bit 32 (hasher_apply (hasher f) key))))"

definition pm_index :: "pmwormholefilter \<Rightarrow> u64 \<Rightarrow> u32" where
  "pm_index f key = ucast (hasher_apply (hasher f) key) mod num_buckets f"

lemma unat_pm_key: "unat (pm_tag64 f key) = pm_fpt f key" "unat (pm_index f key) = pm_home f key"
  by (simp_all add: pm_tag64_def pm_fpt_def pm_index_def pm_home_def)

lemma pm_insert_unfold:
  assumes "pm_inv f"
  shows "pmwormholefilter_insert (Some f) key = map_option (\<lambda>(ok, f'). Inr (ok, Some f'))
    (insert_loop ReadTag PMWriteTag WriteTag (ucast (num_buckets f)) (ucast (pm_index f key))
       (pm_tag64 f key) f (pm_index f key))"
  using assms unfolding pmwormholefilter_insert_def index_hash_def pm_tag64_def pm_index_def
  by (simp add: pm_inv_def Let_def split: option.splits)

lemma hasher_insert:
  assumes "insert_loop ReadTag PMWriteTag WriteTag num init tag f i = Some (ok, f')"
  shows "hasher f' = hasher f"
  using assms by (rule insert_loop_keeps) simp_all

lemma pm_insert_core:
  assumes "pm_inv f"
  shows "\<exists>ok f'. pmwormholefilter_insert (Some f) key = Some (Inr (ok, Some f')) \<and>
    core_insert (unat (num_buckets f)) (tab (buckets f)) (pm_home f key) (pm_fpt f key) = (ok, tab (buckets f')) \<and>
    pm_inv f' \<and> num_buckets f' = num_buckets f \<and> hasher f' = hasher f"
  using pm.insert_loop_core [OF assms, of "ucast (num_buckets f)" "pm_index f key" "pm_tag64 f key"]
    pm_insert_unfold [OF assms, of key] pm_home_less [OF assms, of key] pm_fpt_ok [of f key]
    hasher_insert
  by (fastforce simp: unat_pm_key word_unat_eq_iff)

lemma pm_lookup_core:
  assumes "pm_inv f"
  shows "pmwormholefilter_lookup (Some f) key =
    Inr (core_lookup (unat (num_buckets f)) (tab (buckets f)) (pm_home f key) (pm_fpt f key))"
proof -
  let ?n = "unat (num_buckets f)" and ?h = "pm_home f key"
  define i where "i = ucast (hasher_apply (hasher f) key) mod num_buckets f"
  define tag where "tag = tag_hash (ucast (drop_bit 32 (hasher_apply (hasher f) key)))"
  have i: "unat i = ?h" by (simp add: i_def pm_home_def)
  have h: "?h < ?n" "?n < 2 ^ 31" using assms pm_home_less [OF assms] by (simp_all add: pm_inv_def)
  have probe: "hasvalue16 (buckets f ! unat (ucast ((ucast i + ucast prob) mod ucast (num_buckets f) :: u64) :: u32))
        (ucast tag OR ucast prob) \<noteq> 0 \<longleftrightarrow> (\<exists>j<4. tab (buckets f) ((?h + p) mod ?n) j = pm_fpt f key + p)"
    if "p < 16" "prob = (of_nat p :: u32)" for p prob
  proof -
    have prob: "unat prob = p" using that by (simp add: unat_of_nat take_bit_nat_eq_self)
    have "unat (ucast i + ucast prob :: u64) = ?h + p" using h that(1) by (simp add: unat_word_ariths i prob)
    moreover have "(?h + p) mod ?n < 2 ^ 32" using h by (simp add: order_less_trans [OF mod_less_divisor])
    ultimately have m: "unat (ucast ((ucast i + ucast prob) mod ucast (num_buckets f) :: u64) :: u32) = (?h + p) mod ?n"
      by (simp add: unat_u64_u32 unat_mod)
    have fp: "unat tag = pm_fpt f key" by (simp add: tag_def pm_fpt_def)
    have u: "unat (ucast tag OR ucast prob :: u64) = pm_fpt f key + p"
      using low_or_add(2) [of "ucast tag" "ucast prob"] pm_fpt_ok that(1) prob fp by simp
    have b: "pm_fpt f key + p < 65536"
      using moved_bound [of "pm_fpt f key" p] pm_fpt_ok that(1) by simp
    have e: "ucast tag OR ucast prob = (ucast (of_nat (pm_fpt f key + p) :: u16) :: u64)"
      using u b by (simp add: word_unat_eq_iff unsigned_ucast_eq unat_of_nat take_bit_nat_eq_self del: of_nat_add)
    show ?thesis
      unfolding m e hasvalue16_iff tab_def using b
      by (simp add: word_unat_eq_iff unat_of_nat take_bit_nat_eq_self del: of_nat_add)
  qed
  show ?thesis
    using assms probe unfolding pmwormholefilter_lookup_def index_hash_def core_lookup_def
    by (simp add: pm_inv_def Let_def list_ex_iff flip: i_def tag_def) fastforce
qed

lemma pm_delete_find:
  fixes i tag :: u32
  assumes "unat i < n" "n < 2 ^ 31" "n = unat (num_buckets f)" "unat tag mod 16 = 0"
  shows "map_option (map_prod unat unat)
      (List.find (\<lambda>(prob :: u32, j). ucast (ReadTag f (ucast (ucast i + ucast prob :: u64)) j) =
          (ucast tag OR ucast prob :: u64)) (List.product (map of_nat [0..<16]) slots)) =
    List.find (\<lambda>(p, j). tab (buckets f) ((unat i + p) mod n) j = unat tag + p) (List.product [0..<16] [0..<4])"
    (is "map_option ?g (List.find ?P ?ps) = List.find ?Q ?qs")
    and "\<And>p. unat p < 16 \<Longrightarrow> unat (ucast (ucast i + ucast (p :: u32) :: u64) :: u32) = unat i + unat p"
    and "\<And>p j. (p, j) \<in> set (List.product (map of_nat [0..<16]) slots) \<Longrightarrow> unat (p :: u32) < 16 \<and> unat j < 4"
proof -
  show pos: "unat (ucast (ucast i + ucast p :: u64) :: u32) = unat i + unat p" if "unat p < 16" for p :: u32
    using assms(1,2) that by (simp add: unat_word_ariths unat_u64_u32)
  show bnd: "unat p < 16 \<and> unat j < 4" if "(p, j) \<in> set ?ps" for p j
    using that by (auto simp: unat_of_nat take_bit_nat_eq_self slots_def)
  have "?P x \<longleftrightarrow> ?Q (?g x)" if "x \<in> set ?ps" for x
  proof -
    obtain p j where x: "x = (p, j)" by (cases x)
    have b: "unat p < 16" using that x bnd by blast
    have "unat (ucast tag OR ucast p :: u64) = unat tag + unat p"
      using low_or_add(2) [of "ucast tag" "ucast p"] assms(4) b by simp
    then show ?thesis unfolding x by (simp add: word_unat_eq_iff unat_ReadTag pos [OF b] assms(3))
  qed
  then have "map_option ?g (List.find ?P ?ps) = List.find ?Q (map ?g ?ps)"
    by (rule find_map_conv)
  also have "map ?g ?ps = ?qs" by (simp add: slots_def upt_rec)
  finally show "map_option ?g (List.find ?P ?ps) = List.find ?Q ?qs" .
qed

lemma pm_delete_core:
  assumes "pm_inv f"
  shows "\<exists>ok f'. pmwormholefilter_delete (Some f) key = Inr (ok, Some f') \<and>
    core_delete (unat (num_buckets f)) (tab (buckets f)) (pm_home f key) (pm_fpt f key) = (ok, tab (buckets f')) \<and>
    pm_inv f' \<and> num_buckets f' = num_buckets f \<and> hasher f' = hasher f"
proof -
  let ?n = "unat (num_buckets f)" and ?h = "pm_home f key" and ?fp = "pm_fpt f key"
  define i where "i = ucast (hasher_apply (hasher f) key) mod num_buckets f"
  define tag where "tag = tag_hash (ucast (drop_bit 32 (hasher_apply (hasher f) key)))"
  have i: "unat i = ?h" "unat tag = ?fp" by (simp_all add: i_def pm_home_def tag_def pm_fpt_def)
  have h: "unat i < ?n" "?n < 2 ^ 31" "unat tag mod 16 = 0"
    using assms pm_home_less [OF assms] pm_fpt_ok i by (simp_all add: pm_inv_def)
  note fd = pm_delete_find [OF h(1,2) refl h(3)]
  let ?P = "\<lambda>(prob :: u32, j). ucast (ReadTag f (ucast (ucast i + ucast prob :: u64)) j) = (ucast tag OR ucast prob :: u64)"
  let ?ps = "List.product (map of_nat [0..<16]) slots :: (u32 \<times> u32) list"
  have eq: "pmwormholefilter_delete (Some f) key =
      (case List.find ?P ?ps of
         Some (prob, j) \<Rightarrow> Inr (True, Some (WriteTag f (ucast (ucast i + ucast prob :: u64)) j 0))
       | None \<Rightarrow> Inr (False, Some f))"
    using assms unfolding i_def tag_def
    by (simp add: pmwormholefilter_delete_def index_hash_def pm_inv_def Let_def)
  show ?thesis
  proof (cases "List.find ?P ?ps")
    case None
    then show ?thesis using eq fd(1) assms i by (intro exI [of _ False]) (simp add: core_delete_def)
  next
    case (Some pj)
    obtain p j where pj: "pj = (p, j)" by (cases pj)
    have b: "unat p < 16" "unat j < 4" using find_SomeD [OF Some] fd(3) pj by auto
    have "core_delete ?n (tab (buckets f)) ?h ?fp = (True, upd (tab (buckets f)) ((?h + unat p) mod ?n) (unat j) 0)"
      using fd(1) [symmetric] Some pj i by (simp add: core_delete_def)
    then show ?thesis
      using eq Some pj assms tab_WriteTag [OF assms b(2)] fd(2) [OF b(1)] i by (intro exI [of _ True]) simp
  qed
qed

section \<open>What the operations do to the contents\<close>

lemma pm_item_cong: "num_buckets f' = num_buckets f \<Longrightarrow> hasher f' = hasher f \<Longrightarrow> pm_item f' = pm_item f"
  by (simp add: fun_eq_iff pm_item_def pm_home_def pm_fpt_def)

lemma pm_insert_cases:
  assumes "pm_inv f"
  obtains ok f' where "pmwormholefilter_insert (Some f) key = Some (Inr (ok, Some f'))"
    "pm_inv f'" "num_buckets f' = num_buckets f" "hasher f' = hasher f"
    "ok \<Longrightarrow> contents f' = contents f + {#pm_item f key#}"
    "\<not> ok \<Longrightarrow> contents f' = contents f \<or> (\<exists>x \<in># contents f. contents f' = contents f + {#x#})"
proof -
  obtain ok f' where i: "pmwormholefilter_insert (Some f) key = Some (Inr (ok, Some f'))"
    "core_insert (unat (num_buckets f)) (tab (buckets f)) (pm_home f key) (pm_fpt f key) = (ok, tab (buckets f'))"
    "pm_inv f'" "num_buckets f' = num_buckets f" "hasher f' = hasher f"
    using pm_insert_core [OF assms] by blast
  note spec = core_insert_spec [OF pm_home_less [OF assms] pm_fpt_ok(1,2) i(2)]
  show ?thesis
    by (rule that [OF i(1,3-5)]) (use spec i(4) in \<open>simp_all add: contents_def pm_item_def\<close>)
qed

lemma pm_delete_cases:
  assumes "pm_inv f"
  obtains f' where "pmwormholefilter_delete (Some f) key = Inr (pm_item f key \<in># contents f, Some f')"
    "pm_inv f'" "num_buckets f' = num_buckets f" "hasher f' = hasher f"
    "contents f' = contents f - {#pm_item f key#}"
proof -
  obtain ok f' where d: "pmwormholefilter_delete (Some f) key = Inr (ok, Some f')"
    "core_delete (unat (num_buckets f)) (tab (buckets f)) (pm_home f key) (pm_fpt f key) = (ok, tab (buckets f'))"
    "pm_inv f'" "num_buckets f' = num_buckets f" "hasher f' = hasher f"
    using pm_delete_core [OF assms] by blast
  note spec = core_delete_spec [OF pm_home_less [OF assms] pm_fpt_ok(1,2) d(2)]
  show ?thesis
    by (rule that [OF _ d(3-5)]) (use spec d(1,4) in \<open>simp_all add: contents_def pm_item_def\<close>)
qed

lemma pm_lookup_contents:
  assumes "pm_inv f"
  shows "pmwormholefilter_lookup (Some f) key = Inr (pm_item f key \<in># contents f)"
  using pm_lookup_core [OF assms, of key] core_lookup_items [OF pm_home_less [OF assms] pm_fpt_ok(1,2)]
  by (simp add: contents_def pm_item_def)

section \<open>Sequences of operations\<close>

datatype pm_op = Insert u64 | Lookup u64 | Delete u64

definition pm_step :: "pm_root \<Rightarrow> pm_op \<Rightarrow> (pm_error + bool \<times> pm_root) option" where
  "pm_step root oper =
     (case oper of
        Insert k \<Rightarrow> pmwormholefilter_insert root k
      | Lookup k \<Rightarrow> Some (case pmwormholefilter_lookup root k of Inl e \<Rightarrow> Inl e | Inr b \<Rightarrow> Inr (b, root))
      | Delete k \<Rightarrow> Some (pmwormholefilter_delete root k))"

fun pm_exec :: "pm_root \<Rightarrow> pm_op list \<Rightarrow> (bool list \<times> pm_root) option" where
  "pm_exec root [] = Some ([], root)"
| "pm_exec root (oper # opers) =
     (case pm_step root oper of
        Some (Inr (r, root')) \<Rightarrow> map_option (\<lambda>(rs, root''). (r # rs, root'')) (pm_exec root' opers)
      | _ \<Rightarrow> None)"

text \<open>The specification of one operation: a relation on the multiset of contents and the answer.\<close>

fun pm_spec :: "pmwormholefilter \<Rightarrow> pm_op \<Rightarrow> (nat \<times> nat) multiset \<Rightarrow> bool \<Rightarrow> (nat \<times> nat) multiset \<Rightarrow> bool" where
  "pm_spec f (Lookup k) M r M' \<longleftrightarrow> r = (pm_item f k \<in># M) \<and> M' = M"
| "pm_spec f (Delete k) M r M' \<longleftrightarrow> r = (pm_item f k \<in># M) \<and> M' = M - {#pm_item f k#}"
| "pm_spec f (Insert k) M r M' \<longleftrightarrow>
     (if r then M' = M + {#pm_item f k#} else M' = M \<or> (\<exists>x \<in># M. M' = M + {#x#}))"

lemma pm_step_spec:
  assumes "pm_inv f"
  obtains r f' where "pm_step (Some f) oper = Some (Inr (r, Some f'))" "pm_inv f'"
    "num_buckets f' = num_buckets f" "hasher f' = hasher f" "pm_spec f oper (contents f) r (contents f')"
proof (cases oper)
  case (Insert k)
  obtain ok f' where i: "pmwormholefilter_insert (Some f) k = Some (Inr (ok, Some f'))"
    "pm_inv f'" "num_buckets f' = num_buckets f" "hasher f' = hasher f"
    "ok \<Longrightarrow> contents f' = contents f + {#pm_item f k#}"
    "\<not> ok \<Longrightarrow> contents f' = contents f \<or> (\<exists>x \<in># contents f. contents f' = contents f + {#x#})"
    using pm_insert_cases [OF assms, of k] by metis
  show ?thesis by (rule that [OF _ i(2-4)]) (use i(1,5,6) Insert in \<open>auto simp: pm_step_def\<close>)
next
  case (Lookup k)
  then show ?thesis
    using that pm_lookup_contents [OF assms, of k] assms by (auto simp: pm_step_def)
next
  case (Delete k)
  obtain f' where d: "pmwormholefilter_delete (Some f) k = Inr (pm_item f k \<in># contents f, Some f')"
    "pm_inv f'" "num_buckets f' = num_buckets f" "hasher f' = hasher f"
    "contents f' = contents f - {#pm_item f k#}"
    using pm_delete_cases [OF assms, of k] by metis
  show ?thesis by (rule that [OF _ d(2-4)]) (use d(1,5) Delete in \<open>simp_all add: pm_step_def\<close>)
qed

lemma pm_exec_ok:
  assumes "pm_inv f"
  shows "\<exists>rs f'. pm_exec (Some f) opers = Some (rs, Some f') \<and> length rs = length opers \<and> pm_inv f' \<and>
    num_buckets f' = num_buckets f \<and> hasher f' = hasher f"
  using assms
proof (induction opers arbitrary: f)
  case (Cons oper opers)
  obtain r f' where "pm_step (Some f) oper = Some (Inr (r, Some f'))" "pm_inv f'"
    "num_buckets f' = num_buckets f" "hasher f' = hasher f"
    using pm_step_spec [OF Cons.prems] .
  then show ?case using Cons.IH [of f'] by auto
qed simp

lemma pm_exec_keeps:
  assumes "pm_inv f" "pm_exec (Some f) opers = Some (rs, Some f')" "x \<in># contents f"
    "\<forall>k. Delete k \<in> set opers \<longrightarrow> pm_item f k \<noteq> x"
  shows "x \<in># contents f'"
  using assms
proof (induction opers arbitrary: f rs)
  case (Cons oper opers)
  obtain r f1 where s: "pm_step (Some f) oper = Some (Inr (r, Some f1))" "pm_inv f1"
    "num_buckets f1 = num_buckets f" "hasher f1 = hasher f" "pm_spec f oper (contents f) r (contents f1)"
    using pm_step_spec [OF Cons.prems(1)] .
  have "x \<in># contents f1"
    using s(5) Cons.prems(3,4) by (cases oper) (auto split: if_splits simp: in_diff_count)
  moreover have "pm_item f1 = pm_item f" using s(3,4) by (rule pm_item_cong)
  ultimately show ?case using Cons.IH [of f1] Cons.prems(2,4) s(1,2) by (auto split: option.splits)
qed simp

section \<open>Creation\<close>

lemma five_dbl_0_8: "5 * dbl_0_8 = 4 * 2 ^ 53 + 2"
  by (simp add: dbl_0_8_def)

text \<open>Rounding to nearest recovers the exact quotient by 4/5, although 0.8 is not a double.\<close>

lemma round_nearest:
  fixes y D K :: nat
  assumes "y \<le> K * D" "2 * (K * D - y) < D"
  shows "(if D < 2 * (y mod D) \<or> (2 * (y mod D) = D \<and> odd (y div D)) then y div D + 1 else y div D) = K"
proof (cases "y = K * D")
  case True
  then show ?thesis using assms by simp
next
  case False
  then obtain c where c: "K * D = y + c" "0 < c" "2 * c < D"
    using assms by (metis add_diff_inverse_nat diff_add_inverse le_add_diff_inverse less_le neq0_conv add_0_right)
  then obtain K' where K: "K = Suc K'" by (cases K) auto
  define r where "r = D - c"
  have "y = K' * D + r" "r < D" "D < 2 * r" using c K unfolding r_def by simp_all
  then have "y div D = K'" "D < 2 * (y mod D)" by simp_all
  then show ?thesis using c K by simp
qed

lemma int_div_0_8_exact:
  assumes "m < 2 ^ 30"
  shows "int_div_0_8 m = 5 * m div 4"
proof (cases "m = 0")
  case False
  define x e where "x = m * 2 ^ 53" and "e = 53 - bit_length (x div dbl_0_8)"
  have "x div dbl_0_8 < 2 ^ 31" using assms by (simp add: x_def dbl_0_8_def div_less_iff_less_mult)
  then have bl: "bit_length (x div dbl_0_8) \<le> 31" by (rule bit_length_le)
  define l where "l = (2 :: nat) ^ (e - 2)"
  have "e = 2 + (e - 2)" using bl by (simp add: e_def)
  then have e: "2 ^ e = 4 * l" unfolding l_def by (metis power_add power2_eq_square num_double numeral_times_numeral)
  have "x div dbl_0_8 < 2 ^ bit_length (x div dbl_0_8)" by (rule less_bit_length)
  then have "x < 2 ^ bit_length (x div dbl_0_8) * dbl_0_8" by (simp add: div_less_iff_less_mult dbl_0_8_def)
  then have "x * 2 ^ e < 2 ^ bit_length (x div dbl_0_8) * dbl_0_8 * 2 ^ e" by simp
  also have "\<dots> = 2 ^ 53 * dbl_0_8" using bl by (simp add: e_def flip: power_add)
  finally have "m * 2 ^ e < dbl_0_8" by (simp add: x_def)
  moreover have "2 * (5 * m * l * dbl_0_8) = 2 * (x * 2 ^ e) + m * 2 ^ e"
    using five_dbl_0_8 by (simp add: x_def e)
  ultimately have "x * 2 ^ e \<le> 5 * m * l * dbl_0_8" "2 * (5 * m * l * dbl_0_8 - x * 2 ^ e) < dbl_0_8"
    by linarith+
  note q = round_nearest [OF this]
  have "int_div_0_8 m = 5 * m * l div 2 ^ e"
    using False q unfolding int_div_0_8_def x_def [symmetric] e_def [symmetric] Let_def by simp
  then show ?thesis by (simp add: e l_def)
qed (simp add: int_div_0_8_def)

lemma unat_pm_num_buckets: "unat (pm_num_buckets max_num_keys) = 5 * (unat max_num_keys div 4) div 4"
proof -
  have "unat max_num_keys div 4 < 2 ^ 30" using unat_lt2p [of max_num_keys] by simp
  then show ?thesis
    by (simp add: pm_num_buckets_def unat_div int_div_0_8_exact unat_of_nat take_bit_nat_eq_self)
qed

lemma pm_init_inv:
  assumes "zalloc (48 + 8 * (5 * (unat max_num_keys div 4) div 4))" "4 \<le> unat max_num_keys"
  obtains f where "pmwormholefilter_init zalloc random root max_num_keys = Some f" "pm_inv f"
    "contents f = {#}" "unat (num_buckets f) = 5 * (unat max_num_keys div 4) div 4"
    "hasher f = new_hasher random" "events f = []"
proof -
  let ?n = "pm_num_buckets max_num_keys"
  have "1 \<le> unat max_num_keys div 4" using assms(2) by simp
  then have u: "unat ?n \<noteq> 0" "unat ?n < 2 ^ 31"
    using unat_lt2p [of max_num_keys] by (simp_all add: unat_pm_num_buckets div_greater_zero_iff)
  have "?n \<noteq> 0" using u(1) by auto
  moreover note u(2)
  moreover have "tab (replicate k 0) b j = 0" if "b < k" for k b j using that by (simp add: tab_def)
  ultimately show ?thesis
    using assms(1) that
    by (auto simp: pmwormholefilter_init_def Let_def pm_inv_def contents_def items_empty
        simp flip: unat_pm_num_buckets)
qed

section \<open>Properties\<close>

text \<open>A filter with two buckets, for the witnesses.\<close>

definition pm_example :: pmwormholefilter where
  "pm_example = \<lparr>num_buckets = 2, hasher = new_hasher (replicate 10 7), buckets = [0, 0], events = []\<rparr>"

definition pm_example1 :: pmwormholefilter where
  "pm_example1 = pm_example\<lparr>buckets := [0, 16], events := [Store 1 16]\<rparr>"

lemma pm_example_insert: "pmwormholefilter_insert (Some pm_example) 5 = Some (Inr (True, Some pm_example1))"
  by code_simp

lemma pm_inv_example: "pm_inv pm_example"
  by (simp add: pm_inv_def pm_example_def)

text \<open>C1. Every operation of the persistent filter, on a well-formed filter, returns (no null
  dereference, no division by zero, no endless loop), keeps the filter well formed and implements
  its specification on the multiset of stored (home bucket, fingerprint) pairs: a lookup answers
  membership, a deletion removes one occurrence, a successful insertion adds one, and a failed
  insertion at most duplicates an element that was present.\<close>

theorem pm_step_refines:
  assumes "pm_inv f"
  shows "\<exists>r f'. pm_step (Some f) oper = Some (Inr (r, Some f')) \<and> pm_inv f' \<and>
    num_buckets f' = num_buckets f \<and> hasher f' = hasher f \<and>
    pm_spec f oper (contents f) r (contents f')"
  using pm_step_spec [OF assms] by metis

theorem pm_step_refines_witness:
  "\<exists>r f'. pm_step (Some pm_example) (Insert 5) = Some (Inr (r, Some f')) \<and> pm_inv f' \<and>
    pm_spec pm_example (Insert 5) (contents pm_example) r (contents f')"
  using pm_step_refines [OF pm_inv_example, of "Insert 5"] by blast

text \<open>C2. No false negatives: after a successful insertion of a key, whatever insertions, lookups and
  deletions follow, a lookup of the key answers true, unless a key with the same home bucket and
  fingerprint has been deleted.\<close>

theorem pm_no_false_negative:
  assumes "pm_inv f" "pmwormholefilter_insert (Some f) key = Some (Inr (True, Some f1))"
    "pm_exec (Some f1) opers = Some (rs, Some f2)"
    "\<forall>k. Delete k \<in> set opers \<longrightarrow> pm_item f k \<noteq> pm_item f key"
  shows "pmwormholefilter_lookup (Some f2) key = Inr True"
proof -
  have f1: "pm_inv f1" "num_buckets f1 = num_buckets f" "hasher f1 = hasher f"
    "contents f1 = contents f + {#pm_item f key#}"
    using pm_insert_cases [OF assms(1), of key] assms(2) by auto
  have i: "pm_item f1 = pm_item f" using f1(2,3) by (rule pm_item_cong)
  have f2: "pm_inv f2" "num_buckets f2 = num_buckets f1" "hasher f2 = hasher f1"
    using pm_exec_ok [OF f1(1), of opers] assms(3) by auto
  have "pm_item f key \<in># contents f2"
    using pm_exec_keeps [OF f1(1) assms(3)] f1(4) assms(4) i by simp
  moreover have "pm_item f2 = pm_item f1" using f2(2,3) by (rule pm_item_cong)
  ultimately show ?thesis using pm_lookup_contents [OF f2(1)] i by simp
qed

theorem pm_no_false_negative_witness:
  "pm_exec (Some pm_example1) [Insert 6, Delete 6] =
     Some ([True, True], Some (pm_example1\<lparr>events := [Store 1 16, Store 0 16, Store 0 0]\<rparr>)) \<and>
   pmwormholefilter_lookup (Some (pm_example1\<lparr>events := [Store 1 16, Store 0 16, Store 0 0]\<rparr>)) 5 = Inr True"
proof -
  have e: "pm_exec (Some pm_example1) [Insert 6, Delete 6] =
     Some ([True, True], Some (pm_example1\<lparr>events := [Store 1 16, Store 0 16, Store 0 0]\<rparr>))"
    by code_simp
  have "pm_item pm_example 6 \<noteq> pm_item pm_example 5" by code_simp
  then show ?thesis
    using e pm_no_false_negative [OF pm_inv_example pm_example_insert e] by simp
qed

text \<open>C16. A successful insertion followed by a deletion of the same key restores the contents, and the
  deletion reports success.\<close>

theorem pm_insert_delete:
  assumes "pm_inv f" "pmwormholefilter_insert (Some f) key = Some (Inr (True, Some f1))"
  shows "\<exists>f2. pmwormholefilter_delete (Some f1) key = Inr (True, Some f2) \<and> pm_inv f2 \<and> contents f2 = contents f"
proof -
  have f1: "pm_inv f1" "num_buckets f1 = num_buckets f" "hasher f1 = hasher f"
    "contents f1 = contents f + {#pm_item f key#}"
    using pm_insert_cases [OF assms(1), of key] assms(2) by auto
  have i: "pm_item f1 = pm_item f" using f1(2,3) by (rule pm_item_cong)
  obtain f2 where "pmwormholefilter_delete (Some f1) key = Inr (pm_item f1 key \<in># contents f1, Some f2)"
    "pm_inv f2" "contents f2 = contents f1 - {#pm_item f1 key#}"
    using pm_delete_cases [OF f1(1), of key] by metis
  then show ?thesis using f1(4) i by simp
qed

theorem pm_insert_delete_witness:
  "\<exists>f2. pmwormholefilter_delete (Some pm_example1) 5 = Inr (True, Some f2) \<and> contents f2 = contents pm_example"
  using pm_insert_delete [OF pm_inv_example pm_example_insert] by blast

text \<open>C17. A filter created for at least four keys is well formed and empty, and has exactly
  \<open>5 * (max_num_keys / 4) / 4\<close> buckets: the double division by 0.8 is exact after truncation.\<close>

theorem pm_init_wellformed:
  assumes "\<forall>n. zalloc n" "4 \<le> unat max_num_keys"
  shows "\<exists>f. pmwormholefilter_init zalloc random root max_num_keys = Some f \<and> pm_inv f \<and>
    contents f = {#} \<and> unat (num_buckets f) = 5 * (unat max_num_keys div 4) div 4"
  using pm_init_inv [of zalloc max_num_keys] assms by metis

theorem pm_init_wellformed_witness:
  "\<exists>f. pmwormholefilter_init (\<lambda>_. True) [] None 1000 = Some f \<and> pm_inv f \<and> unat (num_buckets f) = 312"
  using pm_init_wellformed [of "\<lambda>_. True" 1000 "[]" None] by auto

text \<open>C19. A filter created for fewer than four keys has no bucket, and every insertion, lookup and
  deletion on it divides by zero.\<close>

theorem pm_init_too_small:
  assumes "\<forall>n. zalloc n" "unat max_num_keys < 4"
  shows "pm_step (pmwormholefilter_init zalloc random root max_num_keys) oper = Some (Inl Division_By_Zero)"
proof -
  have "pm_num_buckets max_num_keys = 0"
    using assms(2) by (simp add: word_unat_eq_iff unat_pm_num_buckets)
  then show ?thesis
    using assms(1) by (cases oper) (simp_all add: pm_step_def pmwormholefilter_init_def Let_def index_hash_def
        pmwormholefilter_insert_def pmwormholefilter_lookup_def pmwormholefilter_delete_def)
qed

theorem pm_init_too_small_witness:
  "pm_step (pmwormholefilter_init (\<lambda>_. True) [] None 3) (Lookup 1) = Some (Inl Division_By_Zero)"
  using pm_init_too_small [of "\<lambda>_. True" 3] by simp

end
