(* ===== verification/Wormhole_Crash.thy ===== *)
theory Wormhole_Crash
  imports Wormhole_PM "HOL-Library.Sublist"
begin

text \<open>
  Power failure during an operation of the persistent filter. A store to a bucket may or may not
  have reached the persistence domain when the power fails, until \<^verbatim>\<open>pmemobj_persist\<close> has returned
  for that bucket; buckets are aligned 8-byte words, which persistent memory writes atomically.
  \<open>pm_values\<close> are the values each bucket may have after a crash, given the stores and persists
  executed so far. The theorem says that an insertion interrupted at any point loses none of the
  elements that were durable before.
\<close>

unbundle bit_operations_syntax

fun pm_mem_step :: "u64 list \<times> u64 list list \<Rightarrow> pm_event \<Rightarrow> u64 list \<times> u64 list list" where
  "pm_mem_step (cur, vals) (Store i w) = (cur[i := w], vals[i := w # vals ! i])"
| "pm_mem_step (cur, vals) (Persist i) = (cur, vals[i := [cur ! i]])"

definition pm_values :: "u64 list \<Rightarrow> pm_event list \<Rightarrow> u64 list list" where
  "pm_values D es = snd (foldl pm_mem_step (D, map (\<lambda>w. [w]) D) es)"

definition crash_image :: "u64 list \<Rightarrow> pm_event list \<Rightarrow> u64 list \<Rightarrow> bool" where
  "crash_image D es D' \<longleftrightarrow> list_all2 (\<lambda>w vs. w \<in> set vs) D' (pm_values D es)"

lemma crash_image_Nil: "crash_image D [] D' \<longleftrightarrow> D' = D"
  by (auto simp: crash_image_def pm_values_def list_all2_conv_all_nth intro: nth_equalityI)

lemma crash_image_Store:
  assumes "i < length D"
  shows "crash_image D [Store i w] D' \<longleftrightarrow> D' = D \<or> D' = D[i := w]"
proof
  assume "crash_image D [Store i w] D'"
  then have l: "length D' = length D" and
    n: "\<And>k. k < length D \<Longrightarrow> D' ! k \<in> set ((map (\<lambda>w. [w]) D)[i := [w, D ! i]] ! k)"
    using assms by (auto simp: crash_image_def pm_values_def list_all2_conv_all_nth)
  have "D' ! k = D ! k" if "k < length D" "k \<noteq> i" for k using n [OF that(1)] that by simp
  then have "D' = D[i := D' ! i]" using l assms by (intro nth_equalityI) (auto simp: nth_list_update)
  moreover have "D' ! i = w \<or> D' ! i = D ! i" using n [OF assms] assms by simp
  ultimately show "D' = D \<or> D' = D[i := w]" by (metis list_update_id)
next
  assume "D' = D \<or> D' = D[i := w]"
  then show "crash_image D [Store i w] D'"
    using assms by (auto simp: crash_image_def pm_values_def list_all2_conv_all_nth nth_list_update)
qed

lemma crash_image_persisted:
  assumes "i < length D"
  shows "crash_image D (Store i w # Persist i # es) = crash_image (D[i := w]) es"
  using assms by (simp add: crash_image_def pm_values_def fun_eq_iff map_update)

section \<open>The displacement loop\<close>

text \<open>Everything durable before is in every crash image of every prefix of the events.\<close>

definition keeps :: "nat \<Rightarrow> (nat \<times> nat) set \<Rightarrow> u64 list \<Rightarrow> pm_event list \<Rightarrow> bool" where
  "keeps n S D es \<longleftrightarrow> (\<forall>es' D'. prefix es' es \<longrightarrow> crash_image D es' D' \<longrightarrow> S \<subseteq> set_mset (items n (tab D')))"

lemma keeps_move:
  assumes "i < length D" "S \<subseteq> set_mset (items n (tab D))" "keeps n S (D[i := w]) es"
  shows "keeps n S D (Store i w # Persist i # es)"
proof -
  have "S \<subseteq> set_mset (items n (tab (D[i := w])))"
    using assms(3) unfolding keeps_def by (metis Nil_prefix crash_image_Nil)
  then show ?thesis
    using assms unfolding keeps_def
    by (auto simp: prefix_Cons crash_image_Nil crash_image_Store crash_image_persisted) blast
qed

lemma keeps_store:
  assumes "i < length D" "S \<subseteq> set_mset (items n (tab D))" "S \<subseteq> set_mset (items n (tab (D[i := w])))"
  shows "keeps n S D [Store i w]"
  using assms unfolding keeps_def by (auto simp: prefix_Cons crash_image_Nil crash_image_Store)

lemma without_subset: "h < n \<Longrightarrow> j < 4 \<Longrightarrow> set_mset (without n T h d j) \<subseteq> set_mset (items n T)"
  unfolding without_def using items_upd_clear [of "(h + d) mod n" n j T] by (auto dest: in_diffD)

lemma without_upd: "h < n \<Longrightarrow> j < 4 \<Longrightarrow>
  set_mset (without n T h d j) \<subseteq> set_mset (items n (upd T ((h + d) mod n) j t))"
  unfolding without_def using items_upd_empty [of "(h + d) mod n" n j "upd T ((h + d) mod n) j 0" t] by auto

definition hole_at :: "pmwormholefilter \<Rightarrow> nat \<Rightarrow> nat \<Rightarrow> u32 \<Rightarrow> u32 \<Rightarrow> (nat \<times> nat) set \<Rightarrow> bool" where
  "hole_at f h d cur j S \<longleftrightarrow> pm.pos f h d cur j \<and>
     hole_ok (unat (num_buckets f)) (tab (buckets f)) h d (unat j) \<and>
     S \<subseteq> set_mset (without (unat (num_buckets f)) (tab (buckets f)) h d (unat j))"

lemma hole_at_subset:
  "hole_at f h d cur j S \<Longrightarrow> S \<subseteq> set_mset (items (unat (num_buckets f)) (tab (buckets f)))"
  using without_subset [of h "unat (num_buckets f)" "unat j"] by (fastforce simp: hole_at_def pm.pos_def)

lemma PMWriteTag_events:
  "\<exists>i w. i = unat (cur mod num_buckets f) \<and> buckets (PMWriteTag f cur j t) = (buckets f)[i := w] \<and>
     events (PMWriteTag f cur j t) = events f @ [Store i w, Persist i]"
  by (simp add: PMWriteTag_def WriteTag_def Let_def)

lemma bucket_in_range: "pm_inv f \<Longrightarrow> unat (cur mod num_buckets f) < length (buckets f)"
  using pm_inv_pos [of f] by (simp add: pm_inv_def unat_mod)

lemma pm_displace_keeps:
  assumes "hole_at f h d cur j S" "displace_loop ReadTag PMWriteTag (of_nat h) f cur j = Some (ok, f', cur', j')"
  shows "num_buckets f' = num_buckets f \<and> (\<exists>d'. hole_at f' h d' cur' j' S) \<and>
    (\<exists>es. events f' = events f @ es \<and>
      (\<forall>es'. keeps (unat (num_buckets f)) S (buckets f') es' \<longrightarrow> keeps (unat (num_buckets f)) S (buckets f) (es @ es')))"
  using assms
proof (induction d arbitrary: f cur j rule: less_induct)
  case (less d)
  have pos: "pm.pos f h d cur j" using less.prems(1) by (simp add: hole_at_def)
  show ?case
  proof (cases "16 \<le> d \<and> find_cadi (ReadTag f) cur probes_down \<noteq> None")
    case False
    then have "displace_loop ReadTag PMWriteTag (of_nat h) f cur j = Some (\<not> 16 \<le> d, f, cur, j)"
      using pm.displace_stop [OF pos] pm.displace_none [OF pos] by (cases "16 \<le> d") (simp_all del: not_None_eq)
    then show ?thesis using less.prems by auto
  next
    case True
    then obtain prob cj where c: "find_cadi (ReadTag f) cur probes_down = Some (prob, cj)" by auto
    define f1 where "f1 = PMWriteTag f cur j (cadi_moved (ReadTag f) cur prob cj)"
    note m = pm.displace_move [OF pos conjunct1 [OF True] c, folded f1_def]
    obtain i w where e: "i = unat (cur mod num_buckets f)" "buckets f1 = (buckets f)[i := w]"
      "events f1 = events f @ [Store i w, Persist i]"
      unfolding f1_def using PMWriteTag_events by blast
    have n: "num_buckets f1 = num_buckets f" by (simp add: f1_def)
    have "hole_at f1 h (d - unat prob) (cur - prob) cj S"
      using less.prems(1) m(2,7) n displace_step(1,2) [OF _ conjunct1 [OF True] m(6)] by (simp add: hole_at_def)
    then have IH: "num_buckets f' = num_buckets f1 \<and> (\<exists>d'. hole_at f' h d' cur' j' S) \<and>
      (\<exists>es. events f' = events f1 @ es \<and>
        (\<forall>es'. keeps (unat (num_buckets f1)) S (buckets f') es' \<longrightarrow> keeps (unat (num_buckets f1)) S (buckets f1) (es @ es')))"
      using less.IH [of "d - unat prob" f1 "cur - prob" cj] less.prems(2) m(1,3,4) by simp
    have i: "i < length (buckets f)" using e(1) bucket_in_range pos by (simp add: pm.pos_def)
    note mv = keeps_move [OF i hole_at_subset [OF less.prems(1)], of w, folded e(2)]
    obtain es where es: "events f' = events f1 @ es"
      "\<And>es'. keeps (unat (num_buckets f)) S (buckets f') es' \<Longrightarrow> keeps (unat (num_buckets f)) S (buckets f1) (es @ es')"
      using IH n by metis
    have "events f' = events f @ (Store i w # Persist i # es)" using es(1) e(3) by simp
    moreover have "keeps (unat (num_buckets f)) S (buckets f) ((Store i w # Persist i # es) @ es')"
      if "keeps (unat (num_buckets f)) S (buckets f') es'" for es'
      using mv [OF es(2) [OF that]] by simp
    ultimately show ?thesis using IH n by metis
  qed
qed

lemma keeps_final:
  assumes "hole_at f h d cur j S"
  shows "\<exists>i w. events (WriteTag f cur j t) = events f @ [Store i w] \<and>
    keeps (unat (num_buckets f)) S (buckets f) [Store i w]"
proof -
  let ?n = "unat (num_buckets f)" and ?i = "unat (cur mod num_buckets f)"
  let ?w = "set_lane (buckets f ! ?i) (unat j) (ucast t)"
  have p: "pm_inv f" "h < ?n" "unat j < 4" "unat cur = h + d"
    "S \<subseteq> set_mset (without ?n (tab (buckets f)) h d (unat j))"
    using assms by (auto simp: hole_at_def pm.pos_def)
  have i: "?i < length (buckets f)" using p(1) by (rule bucket_in_range)
  then have "tab ((buckets f)[?i := ?w]) = upd (tab (buckets f)) ((h + d) mod ?n) (unat j) (unat t mod 65536)"
    using p(3,4) by (simp add: tab_update unat_u32_u16 unat_mod)
  then have "S \<subseteq> set_mset (items ?n (tab ((buckets f)[?i := ?w])))"
    using order_trans [OF p(5) without_upd [OF p(2,3)]] by simp
  then have "keeps ?n S (buckets f) [Store ?i ?w]"
    by (rule keeps_store [OF i hole_at_subset [OF assms]])
  then show ?thesis by (auto simp: WriteTag_def Let_def)
qed

lemma place_keeps:
  assumes "hole_at f h d cur j S" "pm.place h tag f cur j = Some (r, f')"
  shows "\<exists>es. events f' = events f @ es \<and> keeps (unat (num_buckets f)) S (buckets f) es"
proof -
  let ?n = "unat (num_buckets f)"
  obtain ok f1 cur1 j1 where d: "displace_loop ReadTag PMWriteTag (of_nat h) f cur j = Some (ok, f1, cur1, j1)"
    "f' = (if ok then WriteTag f1 cur1 j1 (ucast (tag OR (ucast cur1 - of_nat h))) else f1)"
    using assms(2) by (auto simp: pm.place_def split: option.splits if_splits)
  obtain d1 es where e: "num_buckets f1 = num_buckets f" "hole_at f1 h d1 cur1 j1 S"
    "events f1 = events f @ es" "\<And>es'. keeps ?n S (buckets f1) es' \<Longrightarrow> keeps ?n S (buckets f) (es @ es')"
    using pm_displace_keeps [OF assms(1) d(1)] by blast
  show ?thesis
  proof (cases ok)
    case False
    have "keeps ?n S (buckets f1) []" using hole_at_subset [OF e(2)] e(1) by (simp add: keeps_def crash_image_Nil)
    then show ?thesis using e(3,4) False d(2) by fastforce
  next
    case True
    then show ?thesis using keeps_final [OF e(2)] e d(2) by (metis append.assoc)
  qed
qed

lemma pm_insert_keeps:
  assumes "pm_inv f" "pmwormholefilter_insert (Some f) key = Some (Inr (r, Some f'))"
  shows "\<exists>es. events f' = events f @ es \<and>
    keeps (unat (num_buckets f)) (set_mset (contents f)) (buckets f) es"
proof -
  let ?n = "unat (num_buckets f)" and ?S = "set_mset (contents f)" and ?h = "pm_home f key"
  have l: "insert_loop ReadTag PMWriteTag WriteTag (ucast (num_buckets f)) (ucast (pm_index f key))
       (pm_tag64 f key) f (pm_index f key) = Some (r, f')"
    using assms(2) pm_insert_unfold [OF assms(1), of key] by auto
  have search: "case find_empty ?n (tab (buckets f)) ?h of None \<Rightarrow> Some (r, f') = Some (False, f)
    | Some (d, j') \<Rightarrow> \<exists>cur j. pm.pos f ?h d cur j \<and> unat j = j' \<and>
        Some (r, f') = pm.place ?h (pm_tag64 f key) f cur j"
    using pm.insert_loop_place [OF assms(1), of "ucast (num_buckets f)" "pm_index f key" "pm_tag64 f key"]
      pm_home_less [OF assms(1), of key] unfolding l unat_pm_key by simp
  show ?thesis
  proof (cases "find_empty ?n (tab (buckets f)) ?h")
    case None
    then have "f' = f" using search by simp
    then show ?thesis by (auto simp: keeps_def crash_image_Nil contents_def)
  next
    case (Some dj)
    obtain d cur j where p: "pm.pos f ?h d cur j" "find_empty ?n (tab (buckets f)) ?h = Some (d, unat j)"
      "Some (r, f') = pm.place ?h (pm_tag64 f key) f cur j"
      using search Some by (cases dj) auto
    have "hole_at f ?h d cur j ?S"
      using p(1) find_empty_hole [OF p(2) pm_home_less [OF assms(1)]] by (simp add: hole_at_def contents_def)
    then show ?thesis by (rule place_keeps) (rule p(3) [symmetric])
  qed
qed

lemma length_pm_values: "length (pm_values D es) = length D"
proof -
  have "length (snd (pm_mem_step s e)) = length (snd s)" for s e
    by (cases s; cases e) simp_all
  then have "length (snd (foldl pm_mem_step s es)) = length (snd s)" for s
    by (induction es arbitrary: s) simp_all
  then show ?thesis by (simp add: pm_values_def)
qed

section \<open>Properties\<close>

text \<open>C3. Crash safety of the insertion: if the power fails at any point of an insertion (after any
  prefix of its stores and persists, with any subset of the unpersisted stores lost) into a
  filter that was durable, every key the filter answered true for is still found in what
  survives. This is what the order of the displacement (copy, persist, then overwrite) is for.\<close>

theorem pm_insert_crash_safe:
  assumes "pm_inv f" "events f = []" "pmwormholefilter_insert (Some f) key = Some (Inr (r, Some f'))"
    and "prefix es (events f')" "crash_image (buckets f) es D"
    and "pmwormholefilter_lookup (Some f) k = Inr True"
  shows "pmwormholefilter_lookup (Some (f\<lparr>buckets := D\<rparr>)) k = Inr True"
proof -
  have sub: "set_mset (contents f) \<subseteq> set_mset (items (unat (num_buckets f)) (tab D))"
    using pm_insert_keeps [OF assms(1,3)] assms(2,4,5) by (auto simp: keeps_def)
  have "length D = length (buckets f)"
    using assms(5) by (metis crash_image_def list_all2_lengthD length_pm_values)
  then have inv: "pm_inv (f\<lparr>buckets := D\<rparr>)" using assms(1) by (simp add: pm_inv_def)
  moreover have "pm_item (f\<lparr>buckets := D\<rparr>) = pm_item f" by (rule pm_item_cong) simp_all
  ultimately show ?thesis
    using sub pm_lookup_contents [OF assms(1), of k] pm_lookup_contents [OF inv, of k] assms(6)
    by (auto simp: contents_def)
qed

definition pm_example2 :: pmwormholefilter where
  "pm_example2 = pm_example\<lparr>buckets := [0, 16]\<rparr>"

theorem pm_insert_crash_safe_witness:
  "crash_image (buckets pm_example2) [Store 1 0x100010] [0, 16] \<and>
   pmwormholefilter_lookup (Some (pm_example2\<lparr>buckets := [0, 16]\<rparr>)) 5 = Inr True"
proof -
  let ?f = "pm_example2\<lparr>buckets := [0, 0x100010], events := [Store 1 0x100010]\<rparr>"
  have "pmwormholefilter_insert (Some pm_example2) 7 = Some (Inr (True, Some ?f))" by code_simp
  moreover have c: "crash_image (buckets pm_example2) [Store 1 0x100010] [0, 16]" by code_simp
  moreover have "pmwormholefilter_lookup (Some pm_example2) 5 = Inr True" by code_simp
  moreover have "pm_inv pm_example2" "events pm_example2 = []"
    by (simp_all add: pm_inv_def pm_example2_def pm_example_def)
  ultimately show ?thesis
    using pm_insert_crash_safe [of pm_example2 7 True ?f "[Store 1 0x100010]" "[0, 16]" 5] by simp
qed

text \<open>C21. An insertion that has returned true is not yet durable: the final tag is written without a
  persist, so there is a crash image after the completed call in which the inserted key is not
  found.\<close>

theorem pm_insert_not_durable:
  "\<exists>f key f' D. pm_inv f \<and> events f = [] \<and>
     pmwormholefilter_insert (Some f) key = Some (Inr (True, Some f')) \<and>
     crash_image (buckets f) (events f') D \<and>
     pmwormholefilter_lookup (Some (f'\<lparr>buckets := D\<rparr>)) key = Inr False"
proof (intro exI conjI)
  show "pmwormholefilter_insert (Some pm_example) 5 = Some (Inr (True, Some pm_example1))"
    by (rule pm_example_insert)
  show "pm_inv pm_example" by (rule pm_inv_example)
  show "events pm_example = []" by (simp add: pm_example_def)
  show "crash_image (buckets pm_example) (events pm_example1) [0, 0]" by code_simp
  show "pmwormholefilter_lookup (Some (pm_example1\<lparr>buckets := [0, 0]\<rparr>)) 5 = Inr False" by code_simp
qed

end
