(* ===== verification/Coding.thy ===== *)
theory Coding
  imports LDB_Prelude
begin

text \<open>
  \<^verbatim>\<open>util/coding.h\<close> and \<^verbatim>\<open>util/coding.cc\<close>: fixed-width little-endian integers, varints and
  length-prefixed strings. The \<^verbatim>\<open>Put...\<close> routines append to a string; the \<^verbatim>\<open>Get...\<close>
  routines consume a prefix of a slice. The locale \<open>prefix_codec\<close> states the contract of an
  encoder with its parser; every codec of the file format is an interpretation of it.
\<close>

unbundle bit_operations_syntax

section \<open>Fixed-width integers\<close>

definition EncodeFixed32 :: "u32 \<Rightarrow> slice" where
  "EncodeFixed32 value =
     [ucast value, ucast (drop_bit 8 value), ucast (drop_bit 16 value), ucast (drop_bit 24 value)]"

definition EncodeFixed64 :: "u64 \<Rightarrow> slice" where
  "EncodeFixed64 value =
     [ucast value, ucast (drop_bit 8 value), ucast (drop_bit 16 value), ucast (drop_bit 24 value),
      ucast (drop_bit 32 value), ucast (drop_bit 40 value), ucast (drop_bit 48 value),
      ucast (drop_bit 56 value)]"

definition DecodeFixed32 :: "slice \<Rightarrow> u32" where
  "DecodeFixed32 buffer =
     ucast (buffer ! 0) OR push_bit 8 (ucast (buffer ! 1)) OR
     push_bit 16 (ucast (buffer ! 2)) OR push_bit 24 (ucast (buffer ! 3))"

definition DecodeFixed64 :: "slice \<Rightarrow> u64" where
  "DecodeFixed64 buffer =
     ucast (buffer ! 0) OR push_bit 8 (ucast (buffer ! 1)) OR
     push_bit 16 (ucast (buffer ! 2)) OR push_bit 24 (ucast (buffer ! 3)) OR
     push_bit 32 (ucast (buffer ! 4)) OR push_bit 40 (ucast (buffer ! 5)) OR
     push_bit 48 (ucast (buffer ! 6)) OR push_bit 56 (ucast (buffer ! 7))"

definition PutFixed32 :: "slice \<Rightarrow> u32 \<Rightarrow> slice" where
  "PutFixed32 dst value = dst @ EncodeFixed32 value"

definition PutFixed64 :: "slice \<Rightarrow> u64 \<Rightarrow> slice" where
  "PutFixed64 dst value = dst @ EncodeFixed64 value"

section \<open>Varints\<close>

definition EncodeVarint32 :: "u32 \<Rightarrow> slice" where
  "EncodeVarint32 v =
     (if v < 2 ^ 7 then [ucast v]
      else if v < 2 ^ 14 then [ucast (v OR 128), ucast (drop_bit 7 v)]
      else if v < 2 ^ 21 then
        [ucast (v OR 128), ucast (drop_bit 7 v OR 128), ucast (drop_bit 14 v)]
      else if v < 2 ^ 28 then
        [ucast (v OR 128), ucast (drop_bit 7 v OR 128), ucast (drop_bit 14 v OR 128),
         ucast (drop_bit 21 v)]
      else
        [ucast (v OR 128), ucast (drop_bit 7 v OR 128), ucast (drop_bit 14 v OR 128),
         ucast (drop_bit 21 v OR 128), ucast (drop_bit 28 v)])"

definition PutVarint32 :: "slice \<Rightarrow> u32 \<Rightarrow> slice" where
  "PutVarint32 dst v = dst @ EncodeVarint32 v"

function EncodeVarint64 :: "u64 \<Rightarrow> slice" where
  "EncodeVarint64 v =
     (if 128 \<le> v then ucast (v OR 128) # EncodeVarint64 (drop_bit 7 v) else [ucast v])"
  by pat_completeness auto
termination
  by (relation "measure unat") (auto simp: unat_drop_bit word_le_nat_alt)

declare EncodeVarint64.simps [simp del]

definition PutVarint64 :: "slice \<Rightarrow> u64 \<Rightarrow> slice" where
  "PutVarint64 dst v = dst @ EncodeVarint64 v"

definition PutLengthPrefixedSlice :: "slice \<Rightarrow> slice \<Rightarrow> slice" where
  "PutLengthPrefixedSlice dst value = PutVarint32 dst (of_nat (length value)) @ value"

function VarintLength_loop :: "u64 \<Rightarrow> nat \<Rightarrow> nat" where
  "VarintLength_loop v len =
     (if 128 \<le> v then VarintLength_loop (drop_bit 7 v) (len + 1) else len)"
  by pat_completeness auto
termination
  by (relation "measure (\<lambda>(v, len). unat v)") (auto simp: unat_drop_bit word_le_nat_alt)

declare VarintLength_loop.simps [simp del]

definition VarintLength :: "u64 \<Rightarrow> nat" where
  "VarintLength v = VarintLength_loop v 1"

fun GetVarint32PtrFallback_loop :: "nat \<Rightarrow> u32 \<Rightarrow> u32 parser" where
  "GetVarint32PtrFallback_loop shift result [] = None"
| "GetVarint32PtrFallback_loop shift result (b # p) =
     (if shift \<le> 28 then
        let byte = ucast b :: u32 in
        if byte AND 128 \<noteq> 0
        then GetVarint32PtrFallback_loop (shift + 7) (result OR push_bit shift (byte AND 127)) p
        else Some (result OR push_bit shift byte, p)
      else None)"

definition GetVarint32PtrFallback :: "u32 parser" where
  "GetVarint32PtrFallback p = GetVarint32PtrFallback_loop 0 0 p"

definition GetVarint32Ptr :: "u32 parser" where
  "GetVarint32Ptr p =
     (case p of
        b # q \<Rightarrow> if (ucast b :: u32) AND 128 = 0 then Some (ucast b, q)
                 else GetVarint32PtrFallback p
      | [] \<Rightarrow> GetVarint32PtrFallback p)"

definition GetVarint32 :: "u32 parser" where
  "GetVarint32 input = GetVarint32Ptr input"

fun GetVarint64Ptr_loop :: "nat \<Rightarrow> u64 \<Rightarrow> u64 parser" where
  "GetVarint64Ptr_loop shift result [] = None"
| "GetVarint64Ptr_loop shift result (b # p) =
     (if shift \<le> 63 then
        let byte = ucast b :: u64 in
        if byte AND 128 \<noteq> 0
        then GetVarint64Ptr_loop (shift + 7) (result OR push_bit shift (byte AND 127)) p
        else Some (result OR push_bit shift byte, p)
      else None)"

definition GetVarint64Ptr :: "u64 parser" where
  "GetVarint64Ptr p = GetVarint64Ptr_loop 0 0 p"

definition GetVarint64 :: "u64 parser" where
  "GetVarint64 input = GetVarint64Ptr input"

text \<open>When it fails, the source may have moved its input past the length; no caller looks at the input again then.\<close>

definition GetLengthPrefixedSlice :: "slice parser" where
  "GetLengthPrefixedSlice input =
     (case GetVarint32 input of
        None \<Rightarrow> None
      | Some (len, input') \<Rightarrow>
          if unat len \<le> length input'
          then Some (take (unat len) input', drop (unat len) input')
          else None)"


section \<open>Bytes with and without the continuation bit\<close>

lemma bit_128_nat: "bit (128 :: nat) i \<longleftrightarrow> i = 7"
  using bit_exp_iff [where 'a=nat, of 7 i] by simp

lemma nat_or_128: "(n OR 128) mod 256 = n mod 128 + (128 :: nat)"
proof -
  have "take_bit 8 (n OR 128) = take_bit 7 n OR (128 :: nat)"
    by (rule bit_eqI) (auto simp: bit_simps bit_128_nat)
  also have "\<dots> = take_bit 7 n + 128"
    by (rule disjunctive_add_eq_or [symmetric])
       (rule bit_eqI, auto simp: bit_simps bit_128_nat)
  finally show ?thesis by (simp add: take_bit_eq_mod)
qed

lemma unat_128: "8 \<le> LENGTH('a) \<Longrightarrow> unat (128 :: 'a::len word) = 128"
proof -
  assume "8 \<le> LENGTH('a)"
  then have "(2::nat) ^ 8 \<le> 2 ^ LENGTH('a)" by (rule power_increasing) simp
  then show ?thesis by (simp add: unsigned_numeral take_bit_eq_mod)
qed

lemma unat_ucast_byte: "unat (ucast (w :: 'a::len word) :: byte) = unat w mod 256"
  by (simp add: unsigned_ucast_eq take_bit_eq_mod)

lemma ucast_or_128:
  assumes "8 \<le> LENGTH('a::len)"
  shows "(ucast ((v :: 'a word) OR 128) :: byte) = of_nat (unat v mod 128 + 128)"
proof -
  have "unat (v OR 128) = unat v OR 128"
    using assms by (simp only: unsigned_or_eq unat_128)
  then have "unat (ucast (v OR 128) :: byte) = unat v mod 128 + 128"
    by (simp only: unat_ucast_byte nat_or_128)
  moreover have "unat (of_nat (unat v mod 128 + 128) :: byte) = unat v mod 128 + 128"
  proof -
    have "unat v mod 128 < 128" by simp
    then have "unat v mod 128 + 128 < 256" by linarith
    then show ?thesis by (simp only: unat_of_nat ) simp
  qed
  ultimately show ?thesis by (simp add: word_unat_eq_iff)
qed

lemma of_nat_digits:
  "(of_nat n :: 'a::len word) = of_nat (n mod 128) OR push_bit 7 (of_nat (n div 128))"
proof (rule bit_word_eqI)
  fix i assume "i < LENGTH('a)"
  have "n mod 128 = take_bit 7 n" "n div 128 = drop_bit 7 n"
    by (simp_all add: take_bit_eq_mod drop_bit_eq_div)
  then show "bit (of_nat n :: 'a word) i
      = bit (of_nat (n mod 128) OR push_bit 7 (of_nat (n div 128)) :: 'a word) i"
    using \<open>i < LENGTH('a)\<close> by (auto simp: bit_simps)
qed

lemma ucast_of_nat_byte:
  assumes "k < 256"
  shows "(ucast (of_nat k :: byte) :: 'a::len word) = of_nat k"
proof -
  have "unat (of_nat k :: byte) = k" using assms by (simp add: unat_of_nat)
  then show ?thesis by (metis of_nat_unat)
qed

lemma and_128_bit: "(w :: 'a::len word) AND 128 = 0 \<longleftrightarrow> \<not> bit w 7"
  using and_exp_eq_0_iff_not_bit [of w 7] by simp

lemma and_127_take_bit: "(w :: 'a::len word) AND 127 = take_bit 7 w"
  by (simp add: take_bit_eq_mask mask_eq_exp_minus_1)

lemma continuation_byte:
  assumes "8 \<le> LENGTH('a)" "d < 128"
  shows "(ucast (of_nat (d + 128) :: byte) :: 'a::len word) AND 128 \<noteq> 0"
    and "(ucast (of_nat (d + 128) :: byte) :: 'a word) AND 127 = of_nat d"
proof -
  have u: "(ucast (of_nat (d + 128) :: byte) :: 'a word) = of_nat (d + 128)"
    using assms by (intro ucast_of_nat_byte) simp
  have "(d + 128) div 128 = 1" using assms by simp
  then have "bit (d + 128) 7" by (simp add: bit_iff_odd)
  then show "(ucast (of_nat (d + 128) :: byte) :: 'a::len word) AND 128 \<noteq> 0"
    using assms unfolding u and_128_bit by (simp add: bit_simps del: of_nat_add)
  have "take_bit 7 (d + 128) = d" using assms by (simp add: take_bit_eq_mod)
  then show "(ucast (of_nat (d + 128) :: byte) :: 'a word) AND 127 = of_nat d"
    unfolding u and_127_take_bit by (metis take_bit_of_nat)
qed

lemma final_byte:
  assumes "d < 128"
  shows "(ucast (of_nat d :: byte) :: 'a::len word) AND 128 = 0"
    and "(ucast (of_nat d :: byte) :: 'a word) = of_nat d"
proof -
  show u: "(ucast (of_nat d :: byte) :: 'a word) = of_nat d"
    using assms by (intro ucast_of_nat_byte) simp
  have "\<not> bit d 7" using assms by (simp add: bit_iff_odd)
  then show "(ucast (of_nat d :: byte) :: 'a::len word) AND 128 = 0"
    unfolding u and_128_bit by (simp add: bit_simps)
qed

section \<open>The reference varint encoding\<close>

text \<open>
  Base-128 little-endian digits of a number, all but the last with the high bit set. Both C++
  encoders (the unrolled 32-bit one and the 64-bit loop) compute it.
\<close>

fun varint_nat :: "nat \<Rightarrow> slice" where
  "varint_nat n = (if n < 128 then [of_nat n] else of_nat (n mod 128 + 128) # varint_nat (n div 128))"

declare varint_nat.simps [simp del]

lemma varint_nat_step:
  "128 \<le> n \<Longrightarrow> varint_nat n = of_nat (n mod 128 + 128) # varint_nat (n div 128)"
  "n < 128 \<Longrightarrow> varint_nat n = [of_nat n]"
  by (subst varint_nat.simps, simp)+

lemma push_bit_digits:
  "push_bit s (of_nat (n mod 128)) OR push_bit (s + 7) (of_nat (n div 128)) = (push_bit s (of_nat n) :: 'a::len word)"
proof -
  have "push_bit s (of_nat (n mod 128) OR push_bit 7 (of_nat (n div 128))) = (push_bit s (of_nat n) :: 'a::len word)"
    by (simp add: of_nat_digits [symmetric])
  then show ?thesis by (simp add: push_bit_or add.commute)
qed

lemma varint_shift_bound:
  assumes "n * 2 ^ s < (2::nat) ^ w" "128 \<le> n"
  shows "(n div 128) * 2 ^ (s + 7) < (2::nat) ^ w" and "s + 7 < w"
proof -
  have "(n div 128) * 2 ^ (s + 7) = (n div 128 * 128) * 2 ^ s" by (simp add: power_add)
  also have "\<dots> \<le> n * 2 ^ s" by (rule mult_right_mono) auto
  finally show b: "(n div 128) * 2 ^ (s + 7) < (2::nat) ^ w" using assms by simp
  have "1 \<le> n div 128" using assms by simp
  then have "1 * 2 ^ (s + 7) \<le> (n div 128) * (2::nat) ^ (s + 7)" by (rule mult_right_mono) simp
  with b have "(2::nat) ^ (s + 7) < 2 ^ w" by linarith
  then show "s + 7 < w" by (simp only: power_strict_increasing_iff)
qed

lemma GetVarint64Ptr_loop_more:
  assumes "s \<le> 63" "d < 128"
  shows "GetVarint64Ptr_loop s r (of_nat (d + 128) # p)
       = GetVarint64Ptr_loop (s + 7) (r OR push_bit s (of_nat d)) p"
  using assms continuation_byte [where 'a=64, of d] by (simp add: Let_def del: of_nat_add)

lemma GetVarint64Ptr_loop_last:
  assumes "s \<le> 63" "d < 128"
  shows "GetVarint64Ptr_loop s r (of_nat d # p) = Some (r OR push_bit s (of_nat d), p)"
  using assms final_byte [where 'a=64, of d] by (simp add: Let_def)

lemma GetVarint64Ptr_loop_varint:
  assumes "n * 2 ^ s < 2 ^ 64" "s \<le> 63"
  shows "GetVarint64Ptr_loop s r (varint_nat n @ rest) = Some (r OR push_bit s (of_nat n), rest)"
  using assms
proof (induction n arbitrary: s r rule: varint_nat.induct)
  case (1 n)
  show ?case
  proof (cases "n < 128")
    case True
    then show ?thesis by (simp only: varint_nat_step GetVarint64Ptr_loop_last [OF 1(3)] append.simps)
  next
    case False
    then have n: "128 \<le> n" by simp
    note b = varint_shift_bound [OF 1(2) n]
    have "s + 7 \<le> 63" using b(2) by simp
    note IH = 1(1) [OF False b(1) this]
    have "n mod 128 < 128" by simp
    note step = GetVarint64Ptr_loop_more [OF 1(3) this]
    show ?thesis
      by (simp only: varint_nat_step(1) [OF n] append.simps step IH or.assoc push_bit_digits)
  qed
qed

lemma GetVarint32PtrFallback_loop_more:
  assumes "s \<le> 28" "d < 128"
  shows "GetVarint32PtrFallback_loop s r (of_nat (d + 128) # p)
       = GetVarint32PtrFallback_loop (s + 7) (r OR push_bit s (of_nat d)) p"
  using assms continuation_byte [where 'a=32, of d] by (simp add: Let_def del: of_nat_add)

lemma GetVarint32PtrFallback_loop_last:
  assumes "s \<le> 28" "d < 128"
  shows "GetVarint32PtrFallback_loop s r (of_nat d # p) = Some (r OR push_bit s (of_nat d), p)"
  using assms final_byte [where 'a=32, of d] by (simp add: Let_def)

lemma GetVarint32PtrFallback_loop_varint:
  assumes "n * 2 ^ s < 2 ^ 32" "s \<le> 28" "7 dvd s"
  shows "GetVarint32PtrFallback_loop s r (varint_nat n @ rest) = Some (r OR push_bit s (of_nat n), rest)"
  using assms
proof (induction n arbitrary: s r rule: varint_nat.induct)
  case (1 n)
  show ?case
  proof (cases "n < 128")
    case True
    then show ?thesis by (simp only: varint_nat_step GetVarint32PtrFallback_loop_last [OF 1(3)] append.simps)
  next
    case False
    then have n: "128 \<le> n" by simp
    note b = varint_shift_bound [OF 1(2) n]
    have "s + 7 \<le> 28" using b(2) 1(4) by presburger
    moreover have "7 dvd s + 7" using 1(4) by simp
    ultimately have IH: "\<And>r. GetVarint32PtrFallback_loop (s + 7) r (varint_nat (n div 128) @ rest)
        = Some (r OR push_bit (s + 7) (of_nat (n div 128)), rest)"
      using 1(1) [OF False b(1)] by blast
    have "n mod 128 < 128" by simp
    note step = GetVarint32PtrFallback_loop_more [OF 1(3) this]
    show ?thesis
      by (simp only: varint_nat_step(1) [OF n] append.simps step IH or.assoc push_bit_digits)
  qed
qed



section \<open>The encoders compute the reference encoding\<close>

lemma EncodeVarint64_varint: "EncodeVarint64 v = varint_nat (unat v)"
proof (induction v rule: EncodeVarint64.induct)
  case (1 v)
  show ?case
  proof (cases "128 \<le> v")
    case True
    then have "128 \<le> unat v" by (simp add: word_le_nat_alt)
    moreover have "EncodeVarint64 (drop_bit 7 v) = varint_nat (unat v div 128)"
      using 1 [OF True] by (simp add: unat_drop_bit)
    ultimately show ?thesis
      using True ucast_or_128 [where 'a=64, of v] varint_nat_step(1) [of "unat v"]
      by (simp add: EncodeVarint64.simps [of v] del: of_nat_add)
  next
    case False
    then have "unat v < 128" by (simp add: word_le_nat_alt)
    then show ?thesis
      using False varint_nat_step(2) [of "unat v"]
      by (simp add: EncodeVarint64.simps [of v])
  qed
qed

lemma drop_bit_byte:
  "8 \<le> LENGTH('a) \<Longrightarrow>
   (ucast (drop_bit k (v :: 'a::len word) OR 128) :: byte) = of_nat (unat v div 2 ^ k mod 128 + 128)"
  "(ucast (drop_bit k v) :: byte) = of_nat (unat v div 2 ^ k)"
  using ucast_or_128 [where 'a='a, of "drop_bit k v"] of_nat_unat [of "drop_bit k v", symmetric]
  unfolding unat_drop_bit by blast+

lemma varint_nat_unroll:
  "n < 2 ^ 7 \<Longrightarrow> varint_nat n = [of_nat n]"
  "2 ^ 7 \<le> n \<Longrightarrow> varint_nat n = of_nat (n mod 128 + 128) # varint_nat (n div 2 ^ 7)"
  "2 ^ 7 \<le> n div 2 ^ k \<Longrightarrow> varint_nat (n div 2 ^ k)
     = of_nat (n div 2 ^ k mod 128 + 128) # varint_nat (n div 2 ^ (k + 7))"
  "n div 2 ^ k < 2 ^ 7 \<Longrightarrow> varint_nat (n div 2 ^ k) = [of_nat (n div 2 ^ k)]"
proof -
  have "n div 2 ^ k div 2 ^ 7 = n div 2 ^ (k + 7)" by (simp only: power_add div_mult2_eq)
  then have d: "n div 2 ^ k div 128 = n div 2 ^ (k + 7)" by simp
  show "n < 2 ^ 7 \<Longrightarrow> varint_nat n = [of_nat n]"
    and "2 ^ 7 \<le> n \<Longrightarrow> varint_nat n = of_nat (n mod 128 + 128) # varint_nat (n div 2 ^ 7)"
    using varint_nat_step [of n] by (simp_all del: of_nat_add)
  show "2 ^ 7 \<le> n div 2 ^ k \<Longrightarrow> varint_nat (n div 2 ^ k)
     = of_nat (n div 2 ^ k mod 128 + 128) # varint_nat (n div 2 ^ (k + 7))"
    using varint_nat_step(1) [of "n div 2 ^ k"] unfolding d by (simp del: of_nat_add)
  show "n div 2 ^ k < 2 ^ 7 \<Longrightarrow> varint_nat (n div 2 ^ k) = [of_nat (n div 2 ^ k)]"
    using varint_nat_step(2) [of "n div 2 ^ k"] by simp
qed

lemma EncodeVarint32_varint: "EncodeVarint32 v = varint_nat (unat v)"
proof -
  define n where "n = unat v"
  have n: "n < 2 ^ 32" unfolding n_def using unsigned_less [of v] by simp
  have lt: "v < 2 ^ 7 \<longleftrightarrow> n < 2 ^ 7" "v < 2 ^ 14 \<longleftrightarrow> n < 2 ^ 14" "v < 2 ^ 21 \<longleftrightarrow> n < 2 ^ 21"
    "v < 2 ^ 28 \<longleftrightarrow> n < 2 ^ 28"
    by (simp_all add: word_less_nat_alt n_def)
  have "8 \<le> LENGTH(32)" by simp
  note or = ucast_or_128 [OF this, of v, folded n_def] drop_bit_byte(1) [OF this, of _ v, folded n_def]
  note lst = of_nat_unat [of v, symmetric, folded n_def] drop_bit_byte(2) [of _ v, folded n_def]
  consider "n < 2 ^ 7" | "2 ^ 7 \<le> n" "n < 2 ^ 14" | "2 ^ 14 \<le> n" "n < 2 ^ 21"
    | "2 ^ 21 \<le> n" "n < 2 ^ 28" | "2 ^ 28 \<le> n" "n < 2 ^ 32"
    using n by linarith
  then have "EncodeVarint32 v = varint_nat n"
  proof cases
    case 1
    then show ?thesis
      unfolding EncodeVarint32_def lt by (simp add: lst varint_nat_unroll(1))
  next
    case 2
    then have c: "2 ^ 7 \<le> n" "n div 2 ^ 7 < 2 ^ 7" "\<not> n < 2 ^ 7" by simp_all
    show ?thesis
      unfolding EncodeVarint32_def lt using 2 c(2)
      by (simp only: c varint_nat_unroll or lst if_True if_False)
  next
    case 3
    then have c: "2 ^ 7 \<le> n" "2 ^ 7 \<le> n div 2 ^ 7" "n div 2 ^ 14 < 2 ^ 7" "\<not> n < 2 ^ 7" "\<not> n < 2 ^ 14"
      by simp_all
    have "varint_nat n = [of_nat (n mod 128 + 128), of_nat (n div 2 ^ 7 mod 128 + 128), of_nat (n div 2 ^ 14)]"
      using varint_nat_unroll(2) [OF c(1)] varint_nat_unroll(3) [OF c(2)] varint_nat_unroll(4) [OF c(3)]
      by (simp del: of_nat_add)
    then show ?thesis
      unfolding EncodeVarint32_def lt using 3 c by (simp only: or if_True if_False) (simp add: lst)
  next
    case 4
    then have c: "2 ^ 7 \<le> n" "2 ^ 7 \<le> n div 2 ^ 7" "2 ^ 7 \<le> n div 2 ^ 14" "n div 2 ^ 21 < 2 ^ 7"
      "\<not> n < 2 ^ 7" "\<not> n < 2 ^ 14" "\<not> n < 2 ^ 21"
      by simp_all
    have "varint_nat n = [of_nat (n mod 128 + 128), of_nat (n div 2 ^ 7 mod 128 + 128),
        of_nat (n div 2 ^ 14 mod 128 + 128), of_nat (n div 2 ^ 21)]"
      using varint_nat_unroll(2) [OF c(1)] varint_nat_unroll(3) [OF c(2)] varint_nat_unroll(3) [OF c(3)]
        varint_nat_unroll(4) [OF c(4)]
      by (simp del: of_nat_add)
    then show ?thesis
      unfolding EncodeVarint32_def lt using 4 c by (simp only: or if_True if_False) (simp add: lst)
  next
    case 5
    then have c: "2 ^ 7 \<le> n" "2 ^ 7 \<le> n div 2 ^ 7" "2 ^ 7 \<le> n div 2 ^ 14" "2 ^ 7 \<le> n div 2 ^ 21"
      "n div 2 ^ 28 < 2 ^ 7" "\<not> n < 2 ^ 7" "\<not> n < 2 ^ 14" "\<not> n < 2 ^ 21" "\<not> n < 2 ^ 28"
      by simp_all
    have "varint_nat n = [of_nat (n mod 128 + 128), of_nat (n div 2 ^ 7 mod 128 + 128),
        of_nat (n div 2 ^ 14 mod 128 + 128), of_nat (n div 2 ^ 21 mod 128 + 128), of_nat (n div 2 ^ 28)]"
      using varint_nat_unroll(2) [OF c(1)] varint_nat_unroll(3) [OF c(2)] varint_nat_unroll(3) [OF c(3)]
        varint_nat_unroll(3) [OF c(4)] varint_nat_unroll(4) [OF c(5)]
      by (simp del: of_nat_add)
    then show ?thesis
      unfolding EncodeVarint32_def lt using 5 c by (simp only: or if_True if_False) (simp add: lst)
  qed
  then show ?thesis by (simp add: n_def)
qed


lemma varint_nat_not_Nil [simp]: "varint_nat n \<noteq> []"
  by (subst varint_nat.simps) simp

lemma length_varint_nat: "n < 2 ^ (7 * k) \<Longrightarrow> 0 < k \<Longrightarrow> length (varint_nat n) \<le> k"
proof (induction k arbitrary: n)
  case 0
  then show ?case by simp
next
  case (Suc k)
  show ?case
  proof (cases "n < 128")
    case True
    then show ?thesis by (simp add: varint_nat_step(2))
  next
    case False
    then have n: "128 \<le> n" by simp
    have "k \<noteq> 0" using Suc.prems n by (cases k) simp_all
    moreover have "n div 128 < 2 ^ (7 * k)"
      using Suc.prems(1) by (simp add: less_mult_imp_div_less power_add mult.commute)
    ultimately have "length (varint_nat (n div 128)) \<le> k" using Suc.IH by simp
    then show ?thesis using varint_nat_step(1) [OF n] by (simp del: of_nat_add)
  qed
qed

section \<open>Round trips\<close>

lemma bit_byte_field:
  "bit (push_bit k (ucast (ucast (drop_bit k v) :: byte) :: 'a word)) i \<longleftrightarrow> k \<le> i \<and> i < k + 8 \<and> bit (v :: 'a::len word) i"
  "bit (ucast (ucast v :: byte) :: 'a word) i \<longleftrightarrow> i < 8 \<and> bit v i"
  by (auto simp: bit_simps dest: bit_imp_le_length)

lemma DecodeFixed32_EncodeFixed32 [codec_simps]: "DecodeFixed32 (EncodeFixed32 v @ rest) = v"
proof (rule bit_word_eqI)
  fix i assume "i < LENGTH(32)"
  then have "i < 8 \<or> 8 \<le> i \<and> i < 16 \<or> 16 \<le> i \<and> i < 24 \<or> 24 \<le> i \<and> i < 32" by auto
  then show "bit (DecodeFixed32 (EncodeFixed32 v @ rest)) i = bit v i"
    by (auto simp add: DecodeFixed32_def EncodeFixed32_def bit_or_iff bit_byte_field)
qed

lemma DecodeFixed64_EncodeFixed64 [codec_simps]: "DecodeFixed64 (EncodeFixed64 v @ rest) = v"
proof (rule bit_word_eqI)
  fix i assume "i < LENGTH(64)"
  then have "i < 8 \<or> 8 \<le> i \<and> i < 16 \<or> 16 \<le> i \<and> i < 24 \<or> 24 \<le> i \<and> i < 32 \<or>
    32 \<le> i \<and> i < 40 \<or> 40 \<le> i \<and> i < 48 \<or> 48 \<le> i \<and> i < 56 \<or> 56 \<le> i \<and> i < 64" by auto
  then show "bit (DecodeFixed64 (EncodeFixed64 v @ rest)) i = bit v i"
    by (auto simp add: DecodeFixed64_def EncodeFixed64_def bit_or_iff bit_byte_field)
qed

lemma length_EncodeFixed [simp]:
  "length (EncodeFixed32 v) = 4" "length (EncodeFixed64 w) = 8"
  by (simp_all add: EncodeFixed32_def EncodeFixed64_def)

lemma DecodeFixed32_Encode [codec_simps]: "DecodeFixed32 (EncodeFixed32 v) = v"
  using DecodeFixed32_EncodeFixed32 [of v "[]"] by simp

lemma DecodeFixed64_Encode [codec_simps]: "DecodeFixed64 (EncodeFixed64 v) = v"
  using DecodeFixed64_EncodeFixed64 [of v "[]"] by simp

lemma GetVarint32Ptr_fallback: "GetVarint32Ptr p = GetVarint32PtrFallback p"
  by (cases p) (auto simp: GetVarint32Ptr_def GetVarint32PtrFallback_def Let_def)

lemma GetVarint32_Encode [codec_simps]: "GetVarint32 (EncodeVarint32 v @ rest) = Some (v, rest)"
proof -
  have "unat v * 2 ^ 0 < 2 ^ 32" using unsigned_less [of v] by simp
  then have "GetVarint32PtrFallback_loop 0 0 (varint_nat (unat v) @ rest)
      = Some (0 OR push_bit 0 (of_nat (unat v)), rest)"
    by (rule GetVarint32PtrFallback_loop_varint) simp_all
  then show ?thesis
    by (simp add: GetVarint32_def GetVarint32Ptr_fallback GetVarint32PtrFallback_def
                  EncodeVarint32_varint)
qed

lemma GetVarint64_Encode [codec_simps]: "GetVarint64 (EncodeVarint64 v @ rest) = Some (v, rest)"
proof -
  have "unat v * 2 ^ 0 < 2 ^ 64" using unsigned_less [of v] by simp
  then have "GetVarint64Ptr_loop 0 0 (varint_nat (unat v) @ rest)
      = Some (0 OR push_bit 0 (of_nat (unat v)), rest)"
    by (rule GetVarint64Ptr_loop_varint) simp_all
  then show ?thesis
    by (simp add: GetVarint64_def GetVarint64Ptr_def EncodeVarint64_varint)
qed

lemma concat_EncodeFixed32_drop:
  "i < length xs \<Longrightarrow> drop (4 * i) (concat (map EncodeFixed32 xs) @ r) =
     EncodeFixed32 (xs ! i) @ concat (map EncodeFixed32 (drop (Suc i) xs)) @ r"
proof (induction xs arbitrary: i)
  case (Cons x xs)
  then show ?case by (cases i) (auto simp: algebra_simps)
qed simp

lemma length_concat_EncodeFixed32 [simp]: "length (concat (map EncodeFixed32 xs)) = 4 * length xs"
  by (induction xs) auto

lemma GetLengthPrefixedSlice_Put [codec_simps]:
  "length v < 2 ^ 32 \<Longrightarrow> GetLengthPrefixedSlice (PutLengthPrefixedSlice [] v @ rest) = Some (v, rest)"
  by (simp add: GetLengthPrefixedSlice_def PutLengthPrefixedSlice_def PutVarint32_def
                GetVarint32_Encode unat_of_nat)

section \<open>What the parsers consume\<close>

lemma GetVarint32PtrFallback_loop_consumes:
  "GetVarint32PtrFallback_loop s r p = Some (v, rest) \<Longrightarrow>
   \<exists>used. p = used @ rest \<and> used \<noteq> [] \<and> s + 7 * (length used - 1) \<le> 28"
proof (induction s r p rule: GetVarint32PtrFallback_loop.induct)
  case (2 s r b p)
  show ?case
  proof (cases "(ucast b :: u32) AND 128 = 0")
    case True
    then have "b # p = [b] @ rest" "s \<le> 28" using 2 by (auto simp: Let_def split: if_splits)
    then show ?thesis by (intro exI [of _ "[b]"]) simp
  next
    case False
    then obtain used where "p = used @ rest" "used \<noteq> []" "s + 7 + 7 * (length used - 1) \<le> 28" "s \<le> 28"
      using 2 by (auto simp: Let_def split: if_splits)
    then show ?thesis by (intro exI [of _ "b # used"]) (cases used, auto)
  qed
qed simp

lemma GetVarint64Ptr_loop_consumes:
  "GetVarint64Ptr_loop s r p = Some (v, rest) \<Longrightarrow>
   \<exists>used. p = used @ rest \<and> used \<noteq> [] \<and> s + 7 * (length used - 1) \<le> 63"
proof (induction s r p rule: GetVarint64Ptr_loop.induct)
  case (2 s r b p)
  show ?case
  proof (cases "(ucast b :: u64) AND 128 = 0")
    case True
    then have "b # p = [b] @ rest" "s \<le> 63" using 2 by (auto simp: Let_def split: if_splits)
    then show ?thesis by (intro exI [of _ "[b]"]) simp
  next
    case False
    then obtain used where "p = used @ rest" "used \<noteq> []" "s + 7 + 7 * (length used - 1) \<le> 63" "s \<le> 63"
      using 2 by (auto simp: Let_def split: if_splits)
    then show ?thesis by (intro exI [of _ "b # used"]) (cases used, auto)
  qed
qed simp

lemma GetVarint32_shorter: "GetVarint32 p = Some (v, rest) \<Longrightarrow> length rest < length p"
  by (auto simp: GetVarint32_def GetVarint32Ptr_def GetVarint32PtrFallback_def split: list.splits if_splits
      dest!: GetVarint32PtrFallback_loop_consumes)

lemma GetVarint64_shorter: "GetVarint64 p = Some (v, rest) \<Longrightarrow> length rest < length p"
  by (auto simp: GetVarint64_def GetVarint64Ptr_def dest!: GetVarint64Ptr_loop_consumes)

lemma GetLengthPrefixedSlice_shorter: "GetLengthPrefixedSlice p = Some (v, rest) \<Longrightarrow> length rest < length p"
  by (auto simp: GetLengthPrefixedSlice_def split: option.splits if_splits dest!: GetVarint32_shorter)

lemma VarintLength_loop_add: "VarintLength_loop v (len + k) = VarintLength_loop v len + k"
proof (induction v len rule: VarintLength_loop.induct)
  case (1 v len)
  then show ?case
    by (simp add: VarintLength_loop.simps [of v "len + k"] VarintLength_loop.simps [of v len])
qed

lemma VarintLength_length: "VarintLength v = length (EncodeVarint64 v)"
  unfolding VarintLength_def
proof (induction v rule: EncodeVarint64.induct)
  case (1 v)
  then show ?case
    using VarintLength_loop_add [of "drop_bit 7 v" 1 1]
    by (simp add: VarintLength_loop.simps [of v] EncodeVarint64.simps [of v])
qed

lemma EncodeVarint32_ucast: "EncodeVarint32 v = EncodeVarint64 (ucast v)"
proof -
  have "unat v < 2 ^ 64" using unat_lt2p [of v] by simp
  then have "unat (ucast v :: u64) = unat v"
    by (simp add: unsigned_ucast_eq take_bit_nat_eq_self)
  then show ?thesis by (simp only: EncodeVarint32_varint EncodeVarint64_varint)
qed

lemma length_EncodeVarint [simp]:
  shows "length (EncodeVarint32 v) \<le> 5" and "length (EncodeVarint64 w) \<le> 10"
proof -
  have "unat v < 2 ^ (7 * 5)" "unat w < 2 ^ (7 * 10)"
    using unat_lt2p [of v] unat_lt2p [of w] by simp_all
  then show "length (EncodeVarint32 v) \<le> 5" "length (EncodeVarint64 w) \<le> 10"
    using length_varint_nat [of "unat v" 5] length_varint_nat [of "unat w" 10]
    by (simp_all add: EncodeVarint32_varint EncodeVarint64_varint)
qed

section \<open>The codec contract\<close>

text \<open>
  An encoder and a parser that consumes exactly what the encoder wrote, whatever follows. The
  parsers of the log, the write batch, the version edit and the table format call each other
  only through this contract.
\<close>

locale prefix_codec =
  fixes enc :: "'a \<Rightarrow> slice" and dec :: "'a parser" and ok :: "'a \<Rightarrow> bool"
  assumes dec_enc: "ok v \<Longrightarrow> dec (enc v @ rest) = Some (v, rest)"
begin

lemma dec_enc_Nil: "ok v \<Longrightarrow> dec (enc v) = Some (v, [])"
  using dec_enc [of v "[]"] by simp

lemma enc_prefix_free:
  assumes "ok v" "ok w" "enc v @ xs = enc w @ ys"
  shows "v = w \<and> xs = ys"
  using dec_enc [OF assms(1), of xs] dec_enc [OF assms(2), of ys] unfolding assms(3) by simp

lemma enc_inj: "ok v \<Longrightarrow> ok w \<Longrightarrow> enc v = enc w \<Longrightarrow> v = w"
  using enc_prefix_free [of v w "[]" "[]"] by simp

end

definition pair_enc :: "('a \<Rightarrow> slice) \<Rightarrow> ('b \<Rightarrow> slice) \<Rightarrow> 'a \<times> 'b \<Rightarrow> slice" where
  "pair_enc e f = (\<lambda>(a, b). e a @ f b)"

definition pair_dec :: "'a parser \<Rightarrow> 'b parser \<Rightarrow> ('a \<times> 'b) parser" where
  "pair_dec d g input =
     (case d input of
        None \<Rightarrow> None
      | Some (a, input') \<Rightarrow>
          (case g input' of None \<Rightarrow> None | Some (b, rest) \<Rightarrow> Some ((a, b), rest)))"

locale pair_codec = A: prefix_codec encA decA okA + B: prefix_codec encB decB okB
  for encA :: "'a \<Rightarrow> slice" and decA okA and encB :: "'b \<Rightarrow> slice" and decB okB
begin

sublocale prefix_codec "pair_enc encA encB" "pair_dec decA decB" "\<lambda>(a, b). okA a \<and> okB b"
  by unfold_locales (auto simp: pair_enc_def pair_dec_def A.dec_enc B.dec_enc)

end

interpretation varint32: prefix_codec EncodeVarint32 GetVarint32 "\<lambda>_. True"
  by unfold_locales (simp add: GetVarint32_Encode)

interpretation varint64: prefix_codec EncodeVarint64 GetVarint64 "\<lambda>_. True"
  by unfold_locales (simp add: GetVarint64_Encode)

interpretation lp_slice: prefix_codec "PutLengthPrefixedSlice []" GetLengthPrefixedSlice
    "\<lambda>v. length v < 2 ^ 32"
  by unfold_locales (rule GetLengthPrefixedSlice_Put)

interpretation handle_pair: pair_codec EncodeVarint64 GetVarint64 "\<lambda>_. True"
    EncodeVarint64 GetVarint64 "\<lambda>_. True"
  by unfold_locales

section \<open>Properties\<close>

text \<open>C14. Varint round trip: what \<^verbatim>\<open>PutVarint32\<close> and \<^verbatim>\<open>PutVarint64\<close> append for any 32- or
  64-bit value, \<^verbatim>\<open>GetVarint32\<close> and \<^verbatim>\<open>GetVarint64\<close> parse back, leaving exactly the bytes
  that follow.\<close>

theorem varint_roundtrip:
  "PutVarint32 dst v = dst @ PutVarint32 [] v \<and>
   GetVarint32 (PutVarint32 [] v @ rest) = Some (v, rest) \<and>
   PutVarint64 dst w = dst @ PutVarint64 [] w \<and>
   GetVarint64 (PutVarint64 [] w @ rest) = Some (w, rest)"
  by (simp add: PutVarint32_def PutVarint64_def varint32.dec_enc varint64.dec_enc)

text \<open>C15. The unrolled 32-bit encoder agrees with the 64-bit loop, \<^verbatim>\<open>VarintLength\<close> is the length
  of what is written, and the buffers of 5 and 10 bytes suffice.\<close>

theorem EncodeVarint32_equiv:
  "EncodeVarint32 v = EncodeVarint64 (ucast v) \<and> VarintLength w = length (EncodeVarint64 w) \<and>
   length (EncodeVarint32 v) \<le> 5 \<and> length (EncodeVarint64 w) \<le> 10"
  using length_EncodeVarint(1) [of v] length_EncodeVarint(2) [of w] by (simp add: VarintLength_length EncodeVarint32_ucast)

end
