(* ===== verification/Hash.thy ===== *)
theory Hash
  imports Coding
begin

text \<open>
  \<^verbatim>\<open>util/hash.cc\<close>: the 32-bit hash of the Bloom filter and the caches, and the 64-bit hash of the
  wormhole filter. \<^verbatim>\<open>char\<close> is signed: the tail of \<^verbatim>\<open>Hash64\<close> sign-extends its bytes, the tail of
  \<^verbatim>\<open>Hash\<close> casts them to \<^verbatim>\<open>uint8_t\<close> first.
\<close>

unbundle bit_operations_syntax

section \<open>Hash\<close>

abbreviation hash_m :: u32 where "hash_m \<equiv> 0xc6a4a793"

fun Hash_words :: "slice \<Rightarrow> u32 \<Rightarrow> slice \<times> u32" where
  "Hash_words (a # b # c # d # rest) h =
     (let w = DecodeFixed32 [a, b, c, d];
          h = h + w;
          h = h * hash_m;
          h = h XOR drop_bit 16 h
      in Hash_words rest h)"
| "Hash_words rest h = (rest, h)"

fun Hash_tail :: "slice \<Rightarrow> u32 \<Rightarrow> u32" where
  "Hash_tail [] h = h"
| "Hash_tail [a] h = (let h = (h + ucast a) * hash_m in h XOR drop_bit 24 h)"
| "Hash_tail [a, b] h = (let h = (h + push_bit 8 (ucast b) + ucast a) * hash_m in h XOR drop_bit 24 h)"
| "Hash_tail (a # b # c # rest) h =
     (let h = (h + push_bit 16 (ucast c) + push_bit 8 (ucast b) + ucast a) * hash_m in h XOR drop_bit 24 h)"

definition Hash :: "slice \<Rightarrow> u32 \<Rightarrow> u32" where
  "Hash data seed =
     (let h = ucast (ucast seed XOR (of_nat (length data) * ucast hash_m) :: u64);
          (rest, h) = Hash_words data h
      in Hash_tail rest h)"

section \<open>Hash64\<close>

abbreviation hash64_m :: u64 where "hash64_m \<equiv> 0xc6a4a7935bd1e995"

fun Hash64_words :: "slice \<Rightarrow> u64 \<Rightarrow> slice \<times> u64" where
  "Hash64_words (a # b # c # d # e # f # g # i # rest) h =
     (let k = DecodeFixed64 [a, b, c, d, e, f, g, i];
          k = k * hash64_m;
          k = k XOR drop_bit 47 k;
          k = k * hash64_m;
          h = h XOR k;
          h = h * hash64_m
      in Hash64_words rest h)"
| "Hash64_words rest h = (rest, h)"

text \<open>The fall-through \<^verbatim>\<open>switch\<close>: bytes \<open>n - 1\<close> down to 0 are folded in, then one multiplication.\<close>

definition Hash64_tail :: "slice \<Rightarrow> u64 \<Rightarrow> u64" where
  "Hash64_tail rest h =
     (if rest = [] then h
      else foldl (\<lambda>h i. h XOR push_bit (8 * i) (scast (rest ! i))) h (rev [0..<length rest]) * hash64_m)"

definition Hash64 :: "slice \<Rightarrow> u64 \<Rightarrow> u64" where
  "Hash64 data seed =
     (let h = seed XOR (of_nat (length data) * hash64_m);
          (rest, h) = Hash64_words data h;
          h = Hash64_tail rest h;
          h = h XOR drop_bit 47 h;
          h = h * hash64_m
      in h XOR drop_bit 47 h)"

lemma Hash_words_short: "length (fst (Hash_words data h)) < 4"
  by (induction data h rule: Hash_words.induct) (auto simp: Let_def)

lemma Hash64_words_short: "length (fst (Hash64_words data h)) < 8"
  by (induction data h rule: Hash64_words.induct) (auto simp: Let_def)

end
