(* ===== verification/Filter_Policy.thy ===== *)
theory Filter_Policy
  imports LDB_Prelude
begin

text \<open>
  \<^verbatim>\<open>include/leveldb/filter_policy.h\<close>: the interface of a filter policy as a record of its virtual
  methods, and its documented contract as a locale. \<open>admissible\<close> are the key lists for which the
  contract holds: \<^verbatim>\<open>KeyMayMatch\<close> must return true if the key was in the list passed to
  \<^verbatim>\<open>CreateFilter\<close>, and \<^verbatim>\<open>CreateFilter\<close> only appends to its destination.
\<close>

record FilterPolicy =
  Name :: string
  CreateFilter :: "slice list \<Rightarrow> slice \<Rightarrow> slice"
  KeyMayMatch :: "slice \<Rightarrow> slice \<Rightarrow> bool"

locale filter_policy =
  fixes policy :: FilterPolicy and admissible :: "slice list \<Rightarrow> bool"
  assumes appends: "CreateFilter policy ks dst = dst @ CreateFilter policy ks []"
    and no_false_negative: "admissible ks \<Longrightarrow> k \<in> set ks \<Longrightarrow> KeyMayMatch policy k (CreateFilter policy ks [])"
begin

lemma match_appended:
  assumes "admissible ks" "k \<in> set ks"
  shows "KeyMayMatch policy k (drop (length dst) (CreateFilter policy ks dst))"
  using no_false_negative [OF assms] by (subst appends) simp

end

end
