(* ===== verification/Wormhole_Policy.thy ===== *)
theory Wormhole_Policy
  imports Tag_Lanes Wormhole_Loops Hash Filter_Policy
begin

text \<open>
  \<^verbatim>\<open>util/wormhole.cc\<close>: the wormhole filter policy of the modified LevelDB. The filter is a byte
  array of \<open>8 * num_buckets\<close> bytes followed by \<open>num_buckets\<close>, a power of two, in 8 bytes. Reading
  outside the filter is an error value. \<^verbatim>\<open>CreateFilter\<close> ignores whether an insertion succeeded, so
  the contract of a filter policy holds for the key lists whose insertions all succeed; it is
  proved to hold for every list of at most 51 keys and to fail for some longer list.
\<close>

unbundle bit_operations_syntax

definition WormholeHash :: "slice \<Rightarrow> u64" where
  "WormholeHash key = Hash64 key 0xbc9f1d34bc9f1d34"

definition IndexHash :: "u32 \<Rightarrow> u64 \<Rightarrow> u32" where
  "IndexHash hv num = ucast (ucast hv AND (num - 1))"

definition TagHash :: "u32 \<Rightarrow> u32" where
  "TagHash hv =
     (let tag = ucast ((ucast hv :: u64) AND (push_bit 12 1 - 1)) :: u32
      in tag + (if tag = 0 then 1 else 0))"

definition upperpower2 :: "u64 \<Rightarrow> u64" where
  "upperpower2 x =
     (let x = x - 1;
          x = x OR drop_bit 1 x;
          x = x OR drop_bit 2 x;
          x = x OR drop_bit 4 x;
          x = x OR drop_bit 8 x;
          x = x OR drop_bit 16 x;
          x = x OR drop_bit 32 x
      in x + 1)"

definition read16 :: "slice \<Rightarrow> nat \<Rightarrow> u16" where
  "read16 a p = ucast (a ! p) OR push_bit 8 (ucast (a ! (p + 1)))"

definition write16 :: "slice \<Rightarrow> nat \<Rightarrow> u16 \<Rightarrow> slice" where
  "write16 a p t = a[p := ucast t, p + 1 := ucast (drop_bit 8 t)]"

definition wp_ReadTag :: "u32 \<Rightarrow> u32 \<Rightarrow> slice \<Rightarrow> u64 \<Rightarrow> u32 \<Rightarrow> u32" where
  "wp_ReadTag i j array num kTagMask =
     (let i_m = ucast (ucast i AND (num - 1)) :: u32;
          p = unat (i_m * 8) + unat (push_bit 1 j);
          tag = ucast (read16 array p) :: u32
      in tag AND kTagMask)"

definition wp_WriteTag :: "u32 \<Rightarrow> u32 \<Rightarrow> u32 \<Rightarrow> slice \<Rightarrow> u64 \<Rightarrow> u32 \<Rightarrow> slice" where
  "wp_WriteTag i j t array num kTagMask =
     (let i_m = ucast (ucast i AND (num - 1)) :: u32;
          p = unat (i_m * 8);
          tag = t AND kTagMask
      in write16 array (p + 2 * unat j) (ucast tag))"

definition InsertItem :: "u64 \<Rightarrow> slice \<Rightarrow> u64 \<Rightarrow> u32 \<Rightarrow> (bool \<times> slice) option" where
  "InsertItem hashcode array num kTagMask =
     (let i = IndexHash (ucast hashcode) num;
          init_buck_idx = ucast i :: u64;
          tag = ucast (TagHash (ucast (drop_bit 32 hashcode))) :: u64
      in insert_loop (\<lambda>a i j. wp_ReadTag i j a num kTagMask) (\<lambda>a i j t. wp_WriteTag i j t a num kTagMask)
           (\<lambda>a i j t. wp_WriteTag i j t a num kTagMask) num init_buck_idx (push_bit 4 tag) array i)"

text \<open>The loop of \<^verbatim>\<open>CreateFilter\<close> over the keys; the results of the insertions are collected here
  although the source discards them.\<close>

fun insert_keys :: "slice list \<Rightarrow> slice \<Rightarrow> u64 \<Rightarrow> u32 \<Rightarrow> (bool list \<times> slice) option" where
  "insert_keys [] array num kTagMask = Some ([], array)"
| "insert_keys (key # keys) array num kTagMask =
     (case InsertItem (WormholeHash key) array num kTagMask of
        None \<Rightarrow> None
      | Some (ok, array') \<Rightarrow>
          map_option (\<lambda>(oks, a). (ok # oks, a)) (insert_keys keys array' num kTagMask))"

text \<open>
  \<^verbatim>\<open>frac > 0.8\<close>: \<open>n\<close> and the division by powers of two are exact in double precision, and 0.8 is the
  double \<open>7205759403792794 / 2 ^ 53\<close>, so the comparison is one of integers.
\<close>

definition wormhole_num_buckets :: "nat \<Rightarrow> u64" where
  "wormhole_num_buckets n =
     (let num = upperpower2 (max 1 (of_nat (n div 4)))
      in if n * 2 ^ 53 > 7205759403792794 * (4 * unat num) then push_bit 1 num else num)"

definition wormhole_CreateFilter :: "slice list \<Rightarrow> slice \<Rightarrow> slice option" where
  "wormhole_CreateFilter keys dst =
     (let num = wormhole_num_buckets (length keys);
          bytes = 8 * num
      in case insert_keys keys (replicate (unat bytes) 0) num 0xFFFF of
           None \<Rightarrow> None
         | Some (oks, array) \<Rightarrow> Some (dst @ array @ EncodeFixed64 num))"

datatype wp_error = Out_Of_Bounds

text \<open>Eight bytes at a position, a \<^verbatim>\<open>size_t\<close>, which must lie in the array.\<close>

definition read64 :: "slice \<Rightarrow> u64 \<Rightarrow> wp_error + u64" where
  "read64 array p =
     (if unat p + 8 \<le> length array then Inr (DecodeFixed64 (drop (unat p) array)) else Inl Out_Of_Bounds)"

primrec probe_loop :: "u64 \<Rightarrow> u64 \<Rightarrow> slice \<Rightarrow> u64 \<Rightarrow> u32 list \<Rightarrow> wp_error + bool" where
  "probe_loop init_buck_idx tag array num [] = Inr False"
| "probe_loop init_buck_idx tag array num (prob # ps) =
     (let m = ucast ((init_buck_idx + ucast prob) AND (num - 1)) :: u32
      in case read64 array (ucast (m * 8)) of
           Inl e \<Rightarrow> Inl e
         | Inr x \<Rightarrow> if hasvalue16 x (push_bit 4 tag OR ucast prob) \<noteq> 0 then Inr True
                    else probe_loop init_buck_idx tag array num ps)"

definition wormhole_KeyMayMatch :: "slice \<Rightarrow> slice \<Rightarrow> wp_error + bool" where
  "wormhole_KeyMayMatch key Wormhole_filter =
     (let len = length Wormhole_filter
      in if len < 2 then Inr False
         else case read64 Wormhole_filter (of_nat len - 8) of
                Inl e \<Rightarrow> Inl e
              | Inr num \<Rightarrow>
                  let hashcode = WormholeHash key;
                      init_buck_idx = ucast (IndexHash (ucast hashcode) num) :: u64;
                      tag = ucast (TagHash (ucast (drop_bit 32 hashcode))) :: u64
                  in probe_loop init_buck_idx tag Wormhole_filter num (map of_nat [0..<16]))"

section \<open>The byte array as a table of tags\<close>

definition wp_inv :: "u64 \<Rightarrow> slice \<Rightarrow> bool" where
  "wp_inv num a \<longleftrightarrow> (\<exists>k \<le> 29. num = 2 ^ k) \<and> length a = 8 * unat num"

definition wp_tab :: "slice \<Rightarrow> tag_table" where
  "wp_tab a b j = (if 8 * b + 8 \<le> length a \<and> j < 4 then unat (read16 a (8 * b + 2 * j)) else 0)"

lemma unat_exp2: "k < 64 \<Longrightarrow> unat (2 ^ k :: u64) = 2 ^ k"
proof -
  assume "k < 64"
  then have "(2 :: nat) ^ k < 2 ^ 64" by (rule power_strict_increasing) simp
  moreover have "(2 ^ k :: u64) = of_nat (2 ^ k)" by simp
  ultimately show ?thesis by (simp only: unat_of_nat) (simp add: take_bit_nat_eq_self)
qed

lemma wp_inv_num:
  assumes "wp_inv num a"
  shows "0 < unat num" "unat num \<le> 2 ^ 29" "ucast (ucast (i :: u32) AND (num - 1)) = (of_nat (unat i mod unat num) :: u32)"
proof -
  obtain k where k: "k \<le> 29" "num = 2 ^ k" using assms by (auto simp: wp_inv_def)
  have u: "unat num = 2 ^ k" using k by (simp add: unat_exp2)
  show "0 < unat num" "unat num \<le> 2 ^ 29" using u k power_increasing [of k 29 "2 :: nat"] by simp_all
  have "ucast i AND (num - 1) = take_bit k (ucast i :: u64)"
    using k by (simp add: take_bit_eq_mask mask_eq_exp_minus_1)
  then have "unat (ucast i AND (num - 1) :: u64) = unat i mod unat num"
    using k by (simp add: u take_bit_eq_mod unat_mod unat_exp2)
  moreover have "unat i mod unat num < 2 ^ 32"
    using unat_lt2p [of i] le_less_trans [OF mod_less_eq_dividend [of "unat i" "unat num"]] by simp
  ultimately show "ucast (ucast i AND (num - 1)) = (of_nat (unat i mod unat num) :: u32)"
    by (simp add: word_unat_eq_iff unat_u64_u32 unat_of_nat take_bit_nat_eq_self)
qed

lemma wp_position:
  assumes "wp_inv num a"
  shows "unat (ucast (ucast (i :: u32) AND (num - 1)) * 8 :: u32) = 8 * (unat i mod unat num)"
proof -
  have "unat i mod unat num < 2 ^ 29" using wp_inv_num(1,2) [OF assms] by (meson mod_less_divisor order_less_le_trans)
  then show ?thesis
    unfolding wp_inv_num(3) [OF assms] by (simp add: unat_word_ariths unat_of_nat take_bit_nat_eq_self)
qed

lemma mask16: "(t :: u32) AND 0xFFFF = take_bit 16 t"
proof -
  have "(0xFFFF :: u32) = mask 16" by (simp add: mask_eq_exp_minus_1)
  then show ?thesis by (simp only: take_bit_eq_mask)
qed

lemma unat_mask16: "unat ((t :: u32) AND 0xFFFF) = unat t mod 65536"
  unfolding mask16 by (simp add: take_bit_eq_mod unat_mod)

lemma read16_less: "unat (read16 a p) < 65536"
  using unat_lt2p [of "read16 a p"] by simp

lemma read_write16_same:
  assumes "p + 1 < length a"
  shows "read16 (write16 a p t) p = t"
proof (rule bit_word_eqI)
  fix n assume "n < LENGTH(16)"
  then have "n < 8 \<or> (8 \<le> n \<and> n - 8 < 8)" by auto
  then show "bit (read16 (write16 a p t) p) n = bit t n"
    using assms by (auto simp: read16_def write16_def bit_simps dest: bit_imp_le_length)
qed

lemma read_write16_other:
  "p' \<noteq> p \<Longrightarrow> p' \<noteq> p + 1 \<Longrightarrow> p' + 1 \<noteq> p \<Longrightarrow> read16 (write16 a p t) p' = read16 a p'"
  by (simp add: read16_def write16_def)

lemma length_write16 [simp]: "length (write16 a p t) = length a"
  by (simp add: write16_def)

lemma wp_bucket:
  assumes "wp_inv num a"
  shows "8 * (b mod unat num) + 8 \<le> length a"
proof -
  have "b mod unat num < unat num" using wp_inv_num(1) [OF assms] by simp
  then show ?thesis using assms by (simp add: wp_inv_def)
qed

lemma unat_wp_ReadTag:
  assumes "wp_inv num a" "unat j < 4"
  shows "unat (wp_ReadTag i j a num 0xFFFF) = wp_tab a (unat i mod unat num) (unat j)"
proof -
  have j: "unat (j * 2) = 2 * unat j" using assms(2) by (simp add: unat_word_ariths)
  show ?thesis
    using wp_position [OF assms(1), of i] wp_bucket [OF assms(1)] assms(2) read16_less
    by (simp add: wp_ReadTag_def Let_def wp_tab_def unat_mask16 unat_u16_u32 j)
qed

lemma slot_positions:
  assumes "(j :: nat) < 4" "j' < 4"
  shows "8 * b' + 2 * j' = 8 * b + 2 * j \<Longrightarrow> b' = b \<and> j' = j"
    and "8 * b' + 2 * j' \<noteq> 8 * b + 2 * j + 1" "8 * b' + 2 * j' + 1 \<noteq> 8 * b + 2 * j"
proof -
  assume e: "8 * b' + 2 * j' = 8 * b + 2 * j"
  have "(8 * x + 2 * y) div 8 = x" if "y < 4" for x y :: nat using that by simp
  from this [OF assms(1), of b] this [OF assms(2), of b'] e show "b' = b \<and> j' = j" by simp
next
  have "even (8 * x + 2 * y)" "odd (8 * x + 2 * y + 1)" for x y :: nat by simp_all
  then show "8 * b' + 2 * j' \<noteq> 8 * b + 2 * j + 1" "8 * b' + 2 * j' + 1 \<noteq> 8 * b + 2 * j" by metis+
qed

lemma wp_tab_WriteTag:
  assumes "wp_inv num a" "unat j < 4"
  shows "wp_tab (wp_WriteTag i j t a num 0xFFFF) = upd (wp_tab a) (unat i mod unat num) (unat j) (unat t mod 65536)"
proof (intro ext)
  fix b' j'
  let ?b = "unat i mod unat num"
  have w: "wp_WriteTag i j t a num 0xFFFF = write16 a (8 * ?b + 2 * unat j) (ucast (t AND 0xFFFF))"
    by (simp add: wp_WriteTag_def Let_def wp_position [OF assms(1)])
  have u: "unat (ucast (t AND 0xFFFF) :: u16) = unat t mod 65536"
    by (simp add: unat_u32_u16 unat_mask16)
  have b: "8 * ?b + 8 \<le> length a" using wp_bucket [OF assms(1)] .
  show "wp_tab (wp_WriteTag i j t a num 0xFFFF) b' j' = upd (wp_tab a) ?b (unat j) (unat t mod 65536) b' j'"
  proof (cases "b' = ?b \<and> j' = unat j")
    case True
    then show ?thesis using b assms(2) by (simp add: w wp_tab_def upd_apply read_write16_same u)
  next
    case False
    have "read16 (write16 a (8 * ?b + 2 * unat j) x) (8 * b' + 2 * j') = read16 a (8 * b' + 2 * j')" if "j' < 4" for x
      by (rule read_write16_other) (use slot_positions [OF assms(2) that] False in blast)+
    then show ?thesis using False by (auto simp: w wp_tab_def upd_apply)
  qed
qed

interpretation wp: tag_store "\<lambda>a i j. wp_ReadTag i j a num 0xFFFF" "\<lambda>a i j t. wp_WriteTag i j t a num 0xFFFF"
  "\<lambda>a i j t. wp_WriteTag i j t a num 0xFFFF" "wp_inv num" "\<lambda>_. unat num" wp_tab for num
proof
  fix s :: slice assume inv: "wp_inv num s"
  then show "0 < unat num" "unat num < 2 ^ 31" using wp_inv_num(1,2) [OF inv] by simp_all
  fix i j t :: u32 and b k :: nat
  show "k < 4 \<Longrightarrow> wp_tab s (b mod unat num) k < 65536" by (simp add: wp_tab_def read16_less)
  assume j: "unat j < 4"
  show "unat (wp_ReadTag i j s num 0xFFFF) = wp_tab s (unat i mod unat num) (unat j)"
    by (rule unat_wp_ReadTag [OF inv j])
  show "wp_tab (wp_WriteTag i j t s num 0xFFFF) = upd (wp_tab s) (unat i mod unat num) (unat j) (unat t mod 65536)"
    by (rule wp_tab_WriteTag [OF inv j])
  show "wp_inv num (wp_WriteTag i j t s num 0xFFFF)"
    using inv by (simp add: wp_inv_def wp_WriteTag_def Let_def)
qed simp_all

section \<open>Insertion and lookup\<close>

definition wp_home :: "u64 \<Rightarrow> u64 \<Rightarrow> nat" where
  "wp_home num hashcode = unat (IndexHash (ucast hashcode) num)"

definition wp_fpt :: "u64 \<Rightarrow> nat" where
  "wp_fpt hashcode = 16 * unat (TagHash (ucast (drop_bit 32 hashcode)))"

definition wp_item :: "u64 \<Rightarrow> slice \<Rightarrow> nat \<times> nat" where
  "wp_item num key = (wp_home num (WormholeHash key), wp_fpt (WormholeHash key))"

lemma unat_TagHash: "unat (TagHash hv) = (if unat hv mod 4096 = 0 then 1 else unat hv mod 4096)"
proof -
  define t where "t = (ucast ((ucast hv :: u64) AND (push_bit 12 1 - 1)) :: u32)"
  have m: "push_bit 12 1 - 1 = (mask 12 :: u64)" by (simp add: mask_eq_exp_minus_1)
  have t: "unat t = unat hv mod 4096"
    unfolding t_def m take_bit_eq_mask [symmetric]
    by (simp add: unat_u64_u32 take_bit_eq_mod unat_mod)
  have "unat (t + (if t = 0 then 1 else 0)) = (if unat hv mod 4096 = 0 then 1 else unat hv mod 4096)"
    by (cases "t = 0") (simp_all add: unat_eq_0 flip: t)
  then show ?thesis by (simp add: TagHash_def Let_def t_def)
qed

lemma TagHash_bounds: "0 < unat (TagHash hv)" "unat (TagHash hv) < 4096"
  by (simp_all add: unat_TagHash)

lemma wp_fpt_ok: "wp_fpt h mod 16 = 0" "0 < wp_fpt h" "wp_fpt h < 65536"
  using TagHash_bounds [of "ucast (drop_bit 32 h)"] by (simp_all add: wp_fpt_def)

lemma unat_shift_tag: "unat (push_bit 4 (ucast (TagHash hv)) :: u64) = 16 * unat (TagHash hv)"
  using TagHash_bounds [of hv] by (simp add: push_bit_eq_mult unat_word_ariths)

lemma wp_home_mod:
  assumes "wp_inv num a"
  shows "wp_home num h = unat (ucast h :: u32) mod unat num"
proof -
  have "unat (ucast h :: u32) mod unat num < 2 ^ 32"
    using unat_lt2p [of "ucast h :: u32"] le_less_trans [OF mod_less_eq_dividend] by fastforce
  then show ?thesis
    unfolding wp_home_def IndexHash_def wp_inv_num(3) [OF assms] by (simp add: unat_of_nat take_bit_nat_eq_self)
qed

lemma wp_home_less: "wp_inv num a \<Longrightarrow> wp_home num h < unat num"
  using wp_inv_num(1) [of num a] by (simp add: wp_home_mod)

lemma InsertItem_core:
  assumes "wp_inv num a"
  shows "\<exists>ok a'. InsertItem h a num 0xFFFF = Some (ok, a') \<and>
    core_insert (unat num) (wp_tab a) (wp_home num h) (wp_fpt h) = (ok, wp_tab a') \<and> wp_inv num a'"
  using wp.insert_loop_core [OF assms refl, of "IndexHash (ucast h) num"
      "push_bit 4 (ucast (TagHash (ucast (drop_bit 32 h))))"]
    wp_home_less [OF assms, of h] wp_fpt_ok [of h]
  unfolding InsertItem_def Let_def unat_shift_tag wp_home_def wp_fpt_def by auto

lemma lane_DecodeFixed64:
  assumes "j < 4"
  shows "lane (DecodeFixed64 xs) j = read16 xs (2 * j)"
proof (rule bit_word_eqI)
  fix n assume "n < LENGTH(16)"
  then have n: "n < 8 \<or> (8 \<le> n \<and> n < 16)" by auto
  show "bit (lane (DecodeFixed64 xs) j) n = bit (read16 xs (2 * j)) n"
    using less_4_cases [OF assms] n
    by (elim disjE) (auto simp: bit_lane DecodeFixed64_def read16_def bit_simps numeral_2_eq_2 [symmetric] dest: bit_imp_le_length)
qed

lemma probe_loop_core:
  assumes inv: "wp_inv num a" and i: "unat (i :: u32) < unat num" and tag: "unat (tag :: u64) < 4096"
  shows "list_all (\<lambda>p. p < 16) ps \<Longrightarrow> probe_loop (ucast i) tag (a @ t) num (map of_nat ps) =
    Inr (\<exists>p \<in> set ps. \<exists>j \<in> set [0..<4]. wp_tab a ((unat i + p) mod unat num) j = 16 * unat tag + p)"
proof (induction ps)
  case (Cons p ps)
  let ?b = "(unat i + p) mod unat num" and ?n = "of_nat (16 * unat tag + p) :: u16"
  have p: "p < 16" "unat (of_nat p :: u32) = p" using Cons.prems by (simp_all add: unat_of_nat take_bit_nat_eq_self)
  have ip: "unat (i + of_nat p) = unat i + p"
    using i p wp_inv_num(2) [OF inv] by (simp add: unat_word_ariths)
  then have "(ucast i + ucast (of_nat p :: u32) :: u64) = ucast (i + of_nat p)"
    using i p wp_inv_num(2) [OF inv] by (simp add: word_unat_eq_iff unat_word_ariths)
  then have pos: "unat (ucast ((ucast i + ucast (of_nat p :: u32)) AND (num - 1)) * 8 :: u32) = 8 * ?b"
    using wp_position [OF inv, of "i + of_nat p"] ip by simp
  have b: "8 * ?b + 8 \<le> length a" by (rule wp_bucket [OF inv])
  have s: "unat (push_bit 4 tag) = 16 * unat tag" using tag by (simp add: push_bit_eq_mult unat_word_ariths)
  have "unat (push_bit 4 tag OR ucast (of_nat p :: u32)) = 16 * unat tag + p"
    using low_or_add(2) [of "push_bit 4 tag" "ucast (of_nat p :: u32)"] s p by simp
  moreover have nb: "16 * unat tag + p < 65536" using tag p by simp
  ultimately have e: "push_bit 4 tag OR ucast (of_nat p :: u32) = ucast ?n"
    by (simp add: word_unat_eq_iff unsigned_ucast_eq unat_of_nat take_bit_nat_eq_self del: of_nat_add)
  have "read16 (drop (8 * ?b) (a @ t)) (2 * j) = read16 a (8 * ?b + 2 * j)" if "j < 4" for j
    using b that by (simp add: read16_def nth_append add.assoc)
  then have "hasvalue16 (DecodeFixed64 (drop (8 * ?b) (a @ t))) (ucast ?n) \<noteq> 0 \<longleftrightarrow>
      (\<exists>j \<in> set [0..<4]. wp_tab a ?b j = 16 * unat tag + p)"
    unfolding hasvalue16_iff using b nb
    by (auto simp: lane_DecodeFixed64 wp_tab_def word_unat_eq_iff unat_of_nat take_bit_nat_eq_self
        simp del: of_nat_add)
  then show ?case using Cons b by (simp add: Let_def read64_def pos e del: of_nat_add)
qed simp

text \<open>The position of the bucket count: it is in the filter unless the filter is shorter than eight bytes.\<close>

lemma read_count:
  assumes "length f < 2 ^ 64"
  shows "read64 f (of_nat (length f) - 8) =
    (if 8 \<le> length f then Inr (DecodeFixed64 (drop (length f - 8) f)) else Inl Out_Of_Bounds)"
proof -
  have u: "unat (of_nat (length f) :: u64) = length f" using assms by (simp add: unat_of_nat_small)
  show ?thesis
  proof (cases "8 \<le> length f")
    case True
    then have "unat (of_nat (length f) - 8 :: u64) = length f - 8" using u by (simp add: unat_sub word_le_nat_alt)
    then show ?thesis using True by (simp add: read64_def)
  next
    case False
    then have "unat (of_nat (length f) - 8 :: u64) = 2 ^ 64 + length f - 8" using u by (simp add: unat_sub_if')
    then show ?thesis using False by (simp add: read64_def)
  qed
qed

lemma probe_loop_in_bounds:
  assumes "0 < unat num" "8 * unat num \<le> length array"
  shows "\<exists>b. probe_loop i tag array num ps = Inr b"
proof (induction ps)
  case (Cons p ps)
  let ?m = "ucast ((i + ucast p) AND (num - 1)) :: u32"
  have "unat ((i + ucast p) AND (num - 1)) \<le> unat (num - 1)"
    by (rule word_and_le1 [THEN word_le_nat_alt [THEN iffD1]])
  moreover have "unat (num - 1) = unat num - 1" using assms(1) by (simp add: unat_sub word_le_nat_alt)
  moreover have "unat (?m * 8) \<le> 8 * unat ((i + ucast p) AND (num - 1))"
    using mod_less_eq_dividend [of "unat ?m * 8" "2 ^ 32"] mod_less_eq_dividend [of "unat ((i + ucast p) AND (num - 1))" "2 ^ 32"]
    by (simp add: unat_word_ariths unat_u64_u32)
  ultimately have "unat (?m * 8) + 8 \<le> length array" using assms by linarith
  then show ?case using Cons by (auto simp: Let_def read64_def)
qed auto

lemma KeyMayMatch_items:
  assumes "wp_inv num a"
  shows "wormhole_KeyMayMatch key (a @ EncodeFixed64 num) =
    Inr (wp_item num key \<in># items (unat num) (wp_tab a))"
proof -
  let ?h = "WormholeHash key"
  let ?i = "IndexHash (ucast ?h) num" and ?t = "TagHash (ucast (drop_bit 32 ?h))"
  have l: "length (EncodeFixed64 num) = 8" by (simp add: EncodeFixed64_def)
  have len: "length (a @ EncodeFixed64 num) < 2 ^ 64" using assms wp_inv_num(2) [OF assms] by (simp add: wp_inv_def l)
  have "list_all (\<lambda>p. p < 16) [0..<16]" by (simp add: list_all_iff)
  note probe = probe_loop_core [OF assms wp_home_less [OF assms, of ?h, unfolded wp_home_def] _ this,
      of "ucast ?t" "EncodeFixed64 num"]
  have "wormhole_KeyMayMatch key (a @ EncodeFixed64 num) =
      probe_loop (ucast ?i) (ucast ?t) (a @ EncodeFixed64 num) num (map of_nat [0..<16])"
    using DecodeFixed64_EncodeFixed64 [of num "[]"] read_count [OF len]
    by (simp add: wormhole_KeyMayMatch_def Let_def l del: upt.simps)
  also have "\<dots> = Inr (core_lookup (unat num) (wp_tab a) (wp_home num ?h) (wp_fpt ?h))"
    using probe TagHash_bounds(2) by (simp add: core_lookup_def wp_home_def wp_fpt_def del: upt.simps)
  also have "core_lookup (unat num) (wp_tab a) (wp_home num ?h) (wp_fpt ?h) =
      (wp_item num key \<in># items (unat num) (wp_tab a))"
    using core_lookup_items [OF wp_home_less [OF assms] wp_fpt_ok(1,2)] by (simp add: wp_item_def)
  finally show ?thesis .
qed

lemma insert_keys_spec:
  assumes "wp_inv num a"
  shows "\<exists>oks a'. insert_keys ks a num 0xFFFF = Some (oks, a') \<and> wp_inv num a' \<and> length oks = length ks \<and>
    set_mset (items (unat num) (wp_tab a)) \<subseteq> set_mset (items (unat num) (wp_tab a')) \<and>
    (\<forall>(k, ok) \<in> set (zip ks oks). ok \<longrightarrow> wp_item num k \<in># items (unat num) (wp_tab a'))"
  using assms
proof (induction ks arbitrary: a)
  case (Cons k ks)
  obtain ok a1 where i: "InsertItem (WormholeHash k) a num 0xFFFF = Some (ok, a1)"
    "core_insert (unat num) (wp_tab a) (wp_home num (WormholeHash k)) (wp_fpt (WormholeHash k)) = (ok, wp_tab a1)"
    "wp_inv num a1"
    using InsertItem_core [OF Cons.prems] by blast
  have s: "set_mset (items (unat num) (wp_tab a1)) =
      (if ok then insert (wp_item num k) (set_mset (items (unat num) (wp_tab a))) else set_mset (items (unat num) (wp_tab a)))"
    using core_insert_set [OF wp_home_less [OF Cons.prems] wp_fpt_ok(1,2) i(2)] by (simp add: wp_item_def)
  show ?case using Cons.IH [OF i(3)] i(1) s by (auto split: if_splits)
qed auto

section \<open>The number of buckets\<close>

lemma bit_length_pred: "0 < n \<Longrightarrow> 2 ^ (bit_length n - 1) \<le> n"
proof (induction n rule: bit_length.induct)
  case (1 n)
  then show ?case
  proof (cases "n div 2 = 0")
    case False
    then have "0 < bit_length (n div 2)" by (simp add: bit_length.simps [of "n div 2"])
    then obtain k where k: "bit_length (n div 2) = Suc k" by (cases "bit_length (n div 2)") auto
    have "2 ^ k \<le> n div 2" using 1 False k by auto
    then show ?thesis using 1(2) k by (simp add: bit_length.simps [of n])
  qed (auto simp: bit_length.simps [of n] bit_length.simps [of 0])
qed

lemma less_bit_length_iff: "n < bit_length m \<longleftrightarrow> 2 ^ n \<le> m"
proof
  assume "n < bit_length m"
  moreover from this have "0 < m" by (cases "m = 0") (auto simp: bit_length.simps)
  moreover have "(2 :: nat) ^ n \<le> 2 ^ (bit_length m - 1)"
    using \<open>n < bit_length m\<close> by (intro power_increasing) auto
  ultimately show "2 ^ n \<le> m" using bit_length_pred [of m] order_trans by blast
next
  assume "2 ^ n \<le> m"
  then have "(2 :: nat) ^ n < 2 ^ bit_length m" using less_bit_length [of m] by (rule le_less_trans)
  then show "n < bit_length m" by simp
qed

definition smeared :: "nat \<Rightarrow> u64 \<Rightarrow> u64 \<Rightarrow> bool" where
  "smeared m x y \<longleftrightarrow> (\<forall>n. bit y n \<longleftrightarrow> (\<exists>i < m. bit x (n + i)))"

lemma smear_step:
  assumes "smeared m x y" "m2 = 2 * m"
  shows "smeared m2 x (y OR drop_bit m y)"
  unfolding smeared_def assms(2)
proof
  fix n
  have "(\<exists>i < 2 * m. bit x (n + i)) \<longleftrightarrow> (\<exists>i < m. bit x (n + i)) \<or> (\<exists>i < m. bit x (n + m + i))"
  proof
    assume "\<exists>i < 2 * m. bit x (n + i)"
    then obtain i where i: "i < 2 * m" "bit x (n + i)" by blast
    show "(\<exists>i < m. bit x (n + i)) \<or> (\<exists>i < m. bit x (n + m + i))"
    proof (cases "i < m")
      case False
      then have "i - m < m" "n + m + (i - m) = n + i" using i(1) by auto
      then show ?thesis using i(2) by metis
    qed (use i in blast)
  next
    assume "(\<exists>i < m. bit x (n + i)) \<or> (\<exists>i < m. bit x (n + m + i))"
    then obtain i where "i < m \<and> bit x (n + i) \<or> i < m \<and> bit x (n + (m + i))" by (auto simp: add.assoc)
    then show "\<exists>i < 2 * m. bit x (n + i)"
      by (elim disjE) (rule exI [of _ i], simp, rule exI [of _ "m + i"], simp)
  qed
  then show "bit (y OR drop_bit m y) n \<longleftrightarrow> (\<exists>i < 2 * m. bit x (n + i))"
    using assms by (auto simp: smeared_def bit_simps ac_simps)
qed

lemma bits_above: "(\<exists>i < 64. bit x (n + i)) \<longleftrightarrow> 2 ^ n \<le> unat (x :: u64)"
proof -
  have "i < 64" if "bit x (n + i)" for i using bit_imp_le_length [OF that] by simp
  then have "(\<exists>i < 64. bit x (n + i)) \<longleftrightarrow> (\<exists>i. bit (drop_bit n x) i)"
    by (auto simp: bit_drop_bit_eq)
  also have "\<dots> \<longleftrightarrow> drop_bit n x \<noteq> 0"
    using bit_imp_le_length [of "drop_bit n x"] by (auto simp: bit_eq_iff)
  also have "\<dots> \<longleftrightarrow> unat x div 2 ^ n \<noteq> 0" by (simp add: unat_eq_0 flip: unat_drop_bit)
  finally show ?thesis by (simp add: div_eq_0_iff not_less)
qed

lemma upperpower2_bit_length:
  assumes "0 < unat x" "bit_length (unat x - 1) < 64"
  shows "upperpower2 x = 2 ^ bit_length (unat x - 1)"
proof -
  let ?x = "x - 1" and ?k = "bit_length (unat x - 1)"
  define y where "y = upperpower2 x - 1"
  have "smeared 1 ?x ?x" by (auto simp: smeared_def)
  then have "smeared 64 ?x y"
    unfolding y_def upperpower2_def Let_def add_diff_cancel_right'
    by (intro smear_step [of 32] smear_step [of 16] smear_step [of 8] smear_step [of 4] smear_step [of 2] smear_step [of 1]) auto
  moreover have "(\<exists>i < 64. bit ?x (n + i)) \<longleftrightarrow> 2 ^ n \<le> unat ?x" for n
    by (rule bits_above)
  moreover have "unat ?x = unat x - 1" using assms(1) by (simp add: unat_minus_one unat_gt_0)
  ultimately have "bit y n \<longleftrightarrow> n < ?k" for n by (simp add: smeared_def less_bit_length_iff)
  then have "y = mask ?k" using assms(2) by (intro bit_word_eqI) (simp add: bit_mask_iff)
  then show ?thesis by (simp add: y_def mask_eq_exp_minus_1)
qed

lemma wormhole_num_cases:
  assumes "n \<le> 2 ^ 30"
  obtains k where "k \<le> 29" "wormhole_num_buckets n = 2 ^ k" "n \<le> 4 * 2 ^ k" "n \<le> 51 \<Longrightarrow> k \<le> 4"
proof -
  define m where "m = max 1 (n div 4)"
  define k where "k = bit_length (m - 1)"
  have "m - 1 < 2 ^ 28" using assms by (auto simp: m_def)
  then have k: "k \<le> 28" unfolding k_def by (rule bit_length_le)
  have u: "unat (max 1 (of_nat (n div 4)) :: u64) = m"
  proof -
    have "unat (of_nat (n div 4) :: u64) = n div 4" using assms by (simp add: unat_of_nat take_bit_nat_eq_self)
    then show ?thesis by (simp add: m_def max_def word_le_nat_alt)
  qed
  have num: "upperpower2 (max 1 (of_nat (n div 4))) = 2 ^ k"
    using upperpower2_bit_length [of "max 1 (of_nat (n div 4))"] k unfolding u k_def by (simp add: m_def)
  have "1 \<le> m" by (simp add: m_def)
  then have km: "m \<le> 2 ^ k" using less_bit_length [of "m - 1"] unfolding k_def by linarith
  have "n div 4 \<le> m" by (simp add: m_def)
  then have n4: "n < 4 * m + 4" using mult_div_mod_eq [of 4 n] mod_less_divisor [of 4 n] by linarith
  have k1: "1 \<le> (2 :: nat) ^ k" by simp
  show ?thesis
  proof (cases "n * 2 ^ 53 > 7205759403792794 * (4 * 2 ^ k)")
    case True
    have "n \<le> 51 \<Longrightarrow> Suc k \<le> 4"
    proof -
      assume n: "n \<le> 51"
      then have "m - 1 < 2 ^ 4" by (simp add: m_def)
      then have "k \<le> 4" unfolding k_def by (rule bit_length_le)
      moreover have "k \<noteq> 4" using True n by auto
      ultimately show "Suc k \<le> 4" by simp
    qed
    moreover have "wormhole_num_buckets n = 2 ^ Suc k"
      using True num k by (simp add: wormhole_num_buckets_def Let_def unat_exp2 push_bit_eq_mult)
    moreover have "n \<le> 8 * x" if "m \<le> x" "1 \<le> x" for x using that n4 by linarith
    then have "n \<le> 4 * 2 ^ Suc k" using km k1 by simp
    ultimately show ?thesis using that [of "Suc k"] k by simp
  next
    case False
    moreover have "n \<le> 51 \<Longrightarrow> k \<le> 4" unfolding k_def by (rule bit_length_le) (simp add: m_def)
    moreover have "wormhole_num_buckets n = 2 ^ k"
      using False num k by (simp add: wormhole_num_buckets_def Let_def unat_exp2)
    ultimately show ?thesis using that [of k] k by simp
  qed
qed

lemma wp_inv_fresh: "n \<le> 2 ^ 30 \<Longrightarrow> wp_inv (wormhole_num_buckets n) (replicate (unat (8 * wormhole_num_buckets n)) 0)"
proof -
  assume "n \<le> 2 ^ 30"
  then obtain k where k: "k \<le> 29" "wormhole_num_buckets n = 2 ^ k" by (rule wormhole_num_cases)
  have "(2 :: nat) ^ k \<le> 2 ^ 29" using k(1) by (intro power_increasing) auto
  then show ?thesis using k by (auto simp: wp_inv_def unat_word_ariths unat_exp2)
qed

section \<open>The filter policy\<close>

definition all_inserted :: "slice list \<Rightarrow> bool" where
  "all_inserted keys =
     (let num = wormhole_num_buckets (length keys)
      in case insert_keys keys (replicate (unat (8 * num)) 0) num 0xFFFF of
           None \<Rightarrow> False | Some (oks, array) \<Rightarrow> list_all id oks)"

text \<open>As a \<^verbatim>\<open>FilterPolicy\<close>: \<^verbatim>\<open>CreateFilter\<close> returns for up to 2^30 keys, and \<^verbatim>\<open>KeyMayMatch\<close> reads within
  the filters it creates; outside of that the methods have no defined result and the record has a
  default one.\<close>

definition wormhole_policy :: FilterPolicy where
  "wormhole_policy =
     \<lparr>Name = ''leveldb.BuiltinWormholeFilter2'',
      CreateFilter = (\<lambda>keys dst. case wormhole_CreateFilter keys dst of Some d \<Rightarrow> d | None \<Rightarrow> dst),
      KeyMayMatch = (\<lambda>key f. case wormhole_KeyMayMatch key f of Inr b \<Rightarrow> b | Inl _ \<Rightarrow> False)\<rparr>"

lemma CreateFilter_spec:
  assumes "length keys \<le> 2 ^ 30"
  obtains oks a where
    "insert_keys keys (replicate (unat (8 * wormhole_num_buckets (length keys))) 0)
       (wormhole_num_buckets (length keys)) 0xFFFF = Some (oks, a)"
    "\<And>dst. wormhole_CreateFilter keys dst = Some (dst @ a @ EncodeFixed64 (wormhole_num_buckets (length keys)))"
    "wp_inv (wormhole_num_buckets (length keys)) a" "length oks = length keys"
    "\<And>k. (k, True) \<in> set (zip keys oks) \<Longrightarrow>
       wormhole_KeyMayMatch k (a @ EncodeFixed64 (wormhole_num_buckets (length keys))) = Inr True"
proof -
  let ?num = "wormhole_num_buckets (length keys)"
  obtain oks a where i: "insert_keys keys (replicate (unat (8 * ?num)) 0) ?num 0xFFFF = Some (oks, a)"
    "wp_inv ?num a" "length oks = length keys"
    "\<forall>(k, ok) \<in> set (zip keys oks). ok \<longrightarrow> wp_item ?num k \<in># items (unat ?num) (wp_tab a)"
    using insert_keys_spec [OF wp_inv_fresh [OF assms], of keys] by blast
  show ?thesis
    by (rule that [OF i(1) _ i(2,3)])
      (use i(1,4) KeyMayMatch_items [OF i(2)] in \<open>auto simp: wormhole_CreateFilter_def Let_def\<close>)
qed

lemma all_inserted_match:
  assumes "length keys \<le> 2 ^ 30" "all_inserted keys" "key \<in> set keys"
  shows "\<exists>f. (\<forall>dst. wormhole_CreateFilter keys dst = Some (dst @ f)) \<and> wormhole_KeyMayMatch key f = Inr True"
proof -
  obtain oks a where c: "insert_keys keys (replicate (unat (8 * wormhole_num_buckets (length keys))) 0)
       (wormhole_num_buckets (length keys)) 0xFFFF = Some (oks, a)"
    "\<And>dst. wormhole_CreateFilter keys dst = Some (dst @ a @ EncodeFixed64 (wormhole_num_buckets (length keys)))"
    "length oks = length keys"
    "\<And>k. (k, True) \<in> set (zip keys oks) \<Longrightarrow>
       wormhole_KeyMayMatch k (a @ EncodeFixed64 (wormhole_num_buckets (length keys))) = Inr True"
    using CreateFilter_spec [OF assms(1)] by metis
  have "list_all id oks" using assms(2) c(1) by (simp add: all_inserted_def Let_def)
  moreover obtain i where "i < length keys" "keys ! i = key" using assms(3) by (auto simp: in_set_conv_nth)
  ultimately have "(key, True) \<in> set (zip keys oks)" using c(3) by (auto simp: set_zip list_all_length)
  then show ?thesis using c(2,4) by blast
qed

interpretation wormhole: filter_policy wormhole_policy "\<lambda>ks. length ks \<le> 2 ^ 30 \<and> all_inserted ks"
proof
  show "CreateFilter wormhole_policy ks dst = dst @ CreateFilter wormhole_policy ks []" for ks dst
    by (simp add: wormhole_policy_def wormhole_CreateFilter_def Let_def split: option.splits)
  show "KeyMayMatch wormhole_policy k (CreateFilter wormhole_policy ks [])"
    if a: "length ks \<le> 2 ^ 30 \<and> all_inserted ks" and k: "k \<in> set ks" for ks k
  proof -
    obtain f where "wormhole_CreateFilter ks [] = Some ([] @ f)" "wormhole_KeyMayMatch k f = Inr True"
      using all_inserted_match [of ks k] a k by blast
    then show ?thesis by (simp add: wormhole_policy_def)
  qed
qed

lemma insert_keys_room:
  assumes "wp_inv num a" "unat num \<le> 16" "size (items (unat num) (wp_tab a)) + length ks \<le> 4 * unat num"
  shows "\<exists>oks a'. insert_keys ks a num 0xFFFF = Some (oks, a') \<and> list_all id oks"
  using assms(1,3)
proof (induction ks arbitrary: a)
  case (Cons k ks)
  let ?h = "wp_home num (WormholeHash k)" and ?fp = "wp_fpt (WormholeHash k)"
  obtain ok a1 where i: "InsertItem (WormholeHash k) a num 0xFFFF = Some (ok, a1)"
    "core_insert (unat num) (wp_tab a) ?h ?fp = (ok, wp_tab a1)" "wp_inv num a1"
    using InsertItem_core [OF Cons.prems(1)] by blast
  have h: "?h < unat num" using wp_home_less [OF Cons.prems(1)] .
  have "ok" using core_insert_room [OF h assms(2), of "wp_tab a" ?fp] Cons.prems(2) i(2) by simp
  then have "items (unat num) (wp_tab a1) = items (unat num) (wp_tab a) + {#(?h, ?fp)#}"
    using core_insert_spec(1) [OF h wp_fpt_ok(1,2) i(2)] by simp
  then show ?case using Cons.IH [OF i(3)] Cons.prems(2) i(1) \<open>ok\<close> by auto
qed simp

lemma all_inserted_small:
  assumes "length keys \<le> 51"
  shows "all_inserted keys"
proof -
  have "length keys \<le> 2 ^ 30" using assms by simp
  then obtain k where k: "wormhole_num_buckets (length keys) = 2 ^ k" "length keys \<le> 4 * 2 ^ k" "k \<le> 4"
    using assms wormhole_num_cases by metis
  let ?num = "wormhole_num_buckets (length keys)" and ?a = "replicate (unat (8 * wormhole_num_buckets (length keys))) 0"
  have u: "unat ?num = 2 ^ k" using k by (simp add: unat_exp2)
  have "(2 :: nat) ^ k \<le> 2 ^ 4" using k(3) by (intro power_increasing) auto
  moreover have "wp_tab (replicate n 0) b j = 0" for n b j
    by (simp add: wp_tab_def read16_def)
  then have "items (unat ?num) (wp_tab ?a) = {#}" by (intro items_empty)
  ultimately show ?thesis
    using insert_keys_room [OF wp_inv_fresh, of "length keys" keys] assms k(2) u
    by (auto simp: all_inserted_def Let_def)
qed

section \<open>Properties\<close>

lemma wormhole_filter_length:
  assumes "length keys \<le> 51"
  shows "length (CreateFilter wormhole_policy keys []) \<le> 136"
proof -
  have n: "length keys \<le> 2 ^ 30" using assms by simp
  then obtain k where k: "wormhole_num_buckets (length keys) = 2 ^ k" "k \<le> 4"
    using wormhole_num_cases [OF n] assms by metis
  obtain a where a: "wormhole_CreateFilter keys [] = Some (a @ EncodeFixed64 (wormhole_num_buckets (length keys)))"
    "wp_inv (wormhole_num_buckets (length keys)) a"
    using CreateFilter_spec [OF n] by (metis append_Nil)
  have "(2 :: nat) ^ k \<le> 2 ^ 4" using k(2) by (intro power_increasing) simp_all
  moreover have "unat (2 ^ k :: u64) = 2 ^ k" using k(2) by (simp add: unat_exp2)
  ultimately show ?thesis using a k(1) by (simp add: wormhole_policy_def wp_inv_def)
qed

text \<open>C6. The wormhole filter policy has no false negatives for up to 51 keys: every insertion of
  \<^verbatim>\<open>CreateFilter\<close> succeeds, it appends a filter to the destination, and \<^verbatim>\<open>KeyMayMatch\<close> reads
  within that filter and accepts every key of the list.\<close>

theorem wormhole_no_false_negative_small:
  assumes "length keys \<le> 51" "key \<in> set keys"
  shows "\<exists>f. wormhole_CreateFilter keys dst = Some (dst @ f) \<and> wormhole_KeyMayMatch key f = Inr True"
  using all_inserted_match [of keys key] all_inserted_small [OF assms(1)] assms by auto

theorem wormhole_no_false_negative_small_witness:
  "\<exists>f. wormhole_CreateFilter [[1, 2], [3]] [] = Some f \<and> wormhole_KeyMayMatch [3] f = Inr True"
  using wormhole_no_false_negative_small [of "[[1, 2], [3]]" "[3]" "[]"] by simp

text \<open>C7. For any list of at most 2^30 keys \<^verbatim>\<open>CreateFilter\<close> returns (all its loops end), appends to
  the destination, and a key is accepted by \<^verbatim>\<open>KeyMayMatch\<close> if its own insertion succeeded, whatever
  the later insertions displaced.\<close>

theorem wormhole_inserted_match:
  assumes "length keys \<le> 2 ^ 30"
  shows "\<exists>oks a f. insert_keys keys (replicate (unat (8 * wormhole_num_buckets (length keys))) 0)
       (wormhole_num_buckets (length keys)) 0xFFFF = Some (oks, a) \<and>
     wormhole_CreateFilter keys dst = Some (dst @ f) \<and>
     (\<forall>i < length keys. oks ! i \<longrightarrow> wormhole_KeyMayMatch (keys ! i) f = Inr True)"
proof -
  obtain oks a where c: "insert_keys keys (replicate (unat (8 * wormhole_num_buckets (length keys))) 0)
       (wormhole_num_buckets (length keys)) 0xFFFF = Some (oks, a)"
    "wormhole_CreateFilter keys dst = Some (dst @ a @ EncodeFixed64 (wormhole_num_buckets (length keys)))"
    "length oks = length keys"
    "\<And>k. (k, True) \<in> set (zip keys oks) \<Longrightarrow>
       wormhole_KeyMayMatch k (a @ EncodeFixed64 (wormhole_num_buckets (length keys))) = Inr True"
    using CreateFilter_spec [OF assms] by metis
  moreover have "(keys ! i, True) \<in> set (zip keys oks)" if "i < length keys" "oks ! i" for i
    using that c(3) by (auto simp: set_zip)
  ultimately show ?thesis by blast
qed

theorem wormhole_inserted_match_witness:
  "\<exists>oks a f. insert_keys [[7]] (replicate (unat (8 * wormhole_num_buckets 1)) 0)
       (wormhole_num_buckets 1) 0xFFFF = Some (oks, a) \<and>
     wormhole_CreateFilter [[7]] [] = Some f \<and> (oks ! 0 \<longrightarrow> wormhole_KeyMayMatch [7] f = Inr True)"
  using wormhole_inserted_match [of "[[7]]" "[]"] by auto

text \<open>C22. \<^verbatim>\<open>KeyMayMatch\<close> on arbitrary bytes: fewer than two are no match for every key; two to seven bytes pass the length
  check although the bucket count would start in front of them; eight bytes or more whose count is not zero and whose
  buckets fit are never left, whatever the count, the bytes and the key.\<close>

theorem wormhole_match_bounds:
  assumes "length f < 2 ^ 64"
  defines "num \<equiv> DecodeFixed64 (drop (length f - 8) f)"
  shows "(length f < 2 \<longrightarrow> wormhole_KeyMayMatch key f = Inr False) \<and>
    (2 \<le> length f \<and> length f < 8 \<longrightarrow> wormhole_KeyMayMatch key f = Inl Out_Of_Bounds) \<and>
    (8 \<le> length f \<and> 0 < unat num \<and> 8 * unat num \<le> length f \<longrightarrow> (\<exists>b. wormhole_KeyMayMatch key f = Inr b))"
  using probe_loop_in_bounds [of num f]
  by (simp add: wormhole_KeyMayMatch_def Let_def read_count [OF assms(1)] num_def del: upt.simps)

theorem wormhole_match_bounds_witness:
  "wormhole_KeyMayMatch [1] [0, 0, 0] = Inl Out_Of_Bounds \<and>
   (\<exists>b. wormhole_KeyMayMatch [1] (replicate 8 7 @ EncodeFixed64 2) = Inr b)"
proof -
  have "DecodeFixed64 (drop 8 (replicate 8 7 @ EncodeFixed64 2)) = 2" by (simp add: codec_simps)
  then show ?thesis
    using wormhole_match_bounds [of "[0, 0, 0]"] wormhole_match_bounds [of "replicate 8 7 @ EncodeFixed64 2"]
    by (simp add: codec_simps)
qed

end
