(* ===== verification/Wormhole_Crowded.thy ===== *)
theory Wormhole_Crowded
  imports Wormhole_Policy
begin

text \<open>
  A list of keys for which the wormhole filter policy breaks the documented contract of a filter
  policy: more keys with one home bucket than fit within reach of it.
\<close>

text \<open>Sixty-five keys of two bytes with the same home bucket (of 32) and pairwise different
  fingerprints.\<close>

definition crowded_keys :: "slice list" where
  "crowded_keys = [[0, 12], [0, 75], [0, 157], [0, 178], [0, 197], [1, 4], [1, 52], [1, 69], [1, 82], [1,
     218], [2, 40], [2, 62], [2, 104], [2, 114], [2, 145], [2, 150], [2, 159], [2, 189], [2,
     206], [2, 207], [2, 214], [2, 245], [2, 255], [3, 26], [3, 79], [3, 157], [4, 13], [4,
     39], [4, 41], [4, 113], [4, 217], [4, 250], [5, 28], [5, 38], [5, 173], [5, 214], [5,
     218], [5, 230], [5, 240], [6, 7], [6, 21], [6, 22], [6, 30], [6, 142], [6, 160], [6, 162],
     [6, 164], [6, 174], [6, 217], [7, 62], [7, 131], [7, 140], [7, 147], [7, 165], [7, 174],
     [7, 241], [8, 29], [8, 55], [8, 60], [8, 92], [8, 113], [8, 142], [8, 165], [8, 204], [8,
     241]]"

definition crowded_hashes :: "u64 list" where
  "crowded_hashes =
    [6574074263038340512, 14076531992635740192, 5067718015115739488, 3022145882095465632,
     16170437783466344480, 14540967383622629536, 9218426553551622656, 10289410071934510048,
     1496892771577793536, 17644846300682850080, 6955820966629025856, 14923931773022552480,
     9387051412688171072, 6899089807930012640, 592371931143120032, 7659435490163051424,
     14797390042219187520, 4838592581054566240, 16497627011222970976, 14357701267934786176,
     7040651880379072512, 16320582410287475680, 4583085488473085408, 4630351088282980224,
     2362509552593866432, 12921473097390027296, 14644845495289011072, 1296130991759247168,
     13014248436594399072, 12891269730051936192, 2761614406758252928, 7501573763870839200,
     15704751672803616, 16672160350381784256, 6342498442498049632, 15742237790696678400,
     12787400439172817728, 5796213661734013152, 4573336690237379904, 4813291351084865920,
     16326720482985651296, 12437813167825040512, 12911059653699084704, 1618406606441209280,
     2894026224876818112, 16399546844990336672, 336546606538654848, 18394874506157057088,
     3128478759444902816, 14734801379002327488, 3872079953446948480, 8624269735663998848,
     3956794797667149056, 3195148860589618592, 9397920704661199488, 13145465561513228896,
     10183632651510045632, 12603667229970523328, 16961177585812729568, 6468692054555035776,
     399706108415720992, 9678617572863905440, 13619612601531234688, 13031693986621463520,
     9638729913081554432]"

definition crowded_fpts :: "nat list" where
  "crowded_fpts =
    [56160, 13376, 27376, 6816, 63440, 19632, 57776, 16144, 32944, 25488, 42240, 19968, 6240, 55808,
     29216, 32752, 15728, 9488, 34224, 54192, 47440, 46000, 16256, 64640, 7856, 46368, 5664, 33872,
     24576, 55360, 39600, 6512, 46640, 38928, 19360, 40400, 36640, 39376, 6096, 61360, 40032, 53968,
     50576, 50096, 22592, 20336, 30128, 36464, 28080, 31888, 17200, 64016, 48752, 12112, 61792,
     13424, 32512, 35088, 21088, 37472, 43360, 46704, 22528, 2592, 23696]"

lemma crowded_keys_hashes: "map WormholeHash crowded_keys = crowded_hashes"
  by code_simp

lemma crowded_keys_items:
  "map (\<lambda>k. (wp_home 32 (WormholeHash k), wp_fpt (WormholeHash k))) crowded_keys = map (Pair 0) crowded_fpts"
proof -
  have "map (\<lambda>h. (wp_home 32 h, wp_fpt h)) crowded_hashes = map (Pair 0) crowded_fpts"
    by (simp add: crowded_hashes_def crowded_fpts_def wp_home_def IndexHash_def wp_fpt_def unat_TagHash)
  then show ?thesis using crowded_keys_hashes by (metis (no_types, lifting) map_map comp_def map_eq_conv)
qed

lemma crowded_keys_facts:
  "length crowded_keys = 65" "wormhole_num_buckets 65 = 32"
  "list_all (\<lambda>k. wp_home 32 (WormholeHash k) = 0) crowded_keys"
  "distinct (map (wp_fpt \<circ> WormholeHash) crowded_keys)"
proof -
  show "length crowded_keys = 65" by (simp add: crowded_keys_def)
  show "wormhole_num_buckets 65 = 32" by (simp add: wormhole_num_buckets_def upperpower2_def Let_def)
  have "map (\<lambda>k. wp_home 32 (WormholeHash k)) crowded_keys = map (\<lambda>_. 0) crowded_fpts"
    using arg_cong [OF crowded_keys_items, of "map fst"] by (simp add: comp_def)
  then show "list_all (\<lambda>k. wp_home 32 (WormholeHash k) = 0) crowded_keys"
    by (auto simp: list_all_iff dest!: arg_cong [of _ _ set])
  have "map (wp_fpt \<circ> WormholeHash) crowded_keys = crowded_fpts"
    using arg_cong [OF crowded_keys_items, of "map snd"] by (simp add: comp_def)
  then show "distinct (map (wp_fpt \<circ> WormholeHash) crowded_keys)" by (simp add: crowded_fpts_def)
qed

text \<open>C20. The documented contract of a filter policy (\<^verbatim>\<open>KeyMayMatch\<close> must return true for every key
  passed to \<^verbatim>\<open>CreateFilter\<close>) is broken by the wormhole policy: \<^verbatim>\<open>CreateFilter\<close> ignores failed
  insertions, at most 64 fingerprints fit with one home bucket, and so one of 65 such keys is
  rejected by the filter made of them.\<close>

theorem wormhole_false_negative:
  "\<exists>f key. wormhole_CreateFilter crowded_keys [] = Some f \<and> key \<in> set crowded_keys \<and>
     wormhole_KeyMayMatch key f = Inr False"
proof -
  have "length crowded_keys \<le> 2 ^ 30" by (simp add: crowded_keys_facts)
  then obtain a where a: "wormhole_CreateFilter crowded_keys [] = Some (a @ EncodeFixed64 32)" "wp_inv 32 a"
    using CreateFilter_spec [of crowded_keys] by (metis append_Nil crowded_keys_facts(1,2))
  let ?I = "items (unat (32 :: u64)) (wp_tab a)"
  let ?S = "{fp. fp mod 16 = 0 \<and> 0 < fp \<and> (0, fp) \<in># ?I}"
  have "\<exists>key \<in> set crowded_keys. wp_item 32 key \<notin># ?I"
  proof (rule ccontr)
    assume "\<not> ?thesis"
    then have "(wp_fpt \<circ> WormholeHash) ` set crowded_keys \<subseteq> ?S"
      using crowded_keys_facts(3) wp_fpt_ok by (auto simp: wp_item_def list_all_iff)
    moreover have "finite ?S"
    proof -
      have "?S \<subseteq> snd ` set_mset ?I" by force
      then show ?thesis by (rule finite_subset) simp
    qed
    ultimately have "card ((wp_fpt \<circ> WormholeHash) ` set crowded_keys) \<le> card ?S" by (intro card_mono)
    moreover have "card ((wp_fpt \<circ> WormholeHash) ` set crowded_keys) = 65"
      using crowded_keys_facts(1,4) distinct_card [of "map (wp_fpt \<circ> WormholeHash) crowded_keys"] by simp
    moreover have "card ?S \<le> 64" by (rule home_capacity) simp
    ultimately show False by simp
  qed
  then show ?thesis using a KeyMayMatch_items [OF a(2)] by auto
qed

end
