(* ===== verification/LDB_Status.thy ===== *)
theory LDB_Status
  imports Coding
begin

text \<open>
  \<^verbatim>\<open>include/leveldb/status.h\<close> and \<^verbatim>\<open>util/status.cc\<close>: a status is a null pointer (success) or an
  allocated array that holds the length of the message, the code and the message. The array is
  kept as bytes, so that the accessors read what the constructor stored. On this platform the
  in-memory representation of a \<^verbatim>\<open>uint32_t\<close> is little endian, as for the codec of
  \<open>Coding\<close>.
\<close>

datatype Code = kOk | kNotFound | kCorruption | kNotSupported | kInvalidArgument | kIOError

fun code_byte :: "Code \<Rightarrow> byte" where
  "code_byte kOk = 0"
| "code_byte kNotFound = 1"
| "code_byte kCorruption = 2"
| "code_byte kNotSupported = 3"
| "code_byte kInvalidArgument = 4"
| "code_byte kIOError = 5"

type_synonym Status = "slice option"

definition Status_OK :: Status where
  "Status_OK = None"

definition mk_Status :: "Code \<Rightarrow> slice \<Rightarrow> slice \<Rightarrow> Status" where
  "mk_Status code msg msg2 =
     (let len1 = of_nat (length msg) :: u32;
          len2 = of_nat (length msg2) :: u32;
          size = len1 + (if len2 \<noteq> 0 then 2 + len2 else 0)
      in Some (EncodeFixed32 size @ [code_byte code] @ take (unat len1) msg @
               (if len2 \<noteq> 0 then bytes_of_string '': '' @ take (unat len2) msg2 else [])))"

definition NotFound :: "slice \<Rightarrow> slice \<Rightarrow> Status" where
  "NotFound msg msg2 = mk_Status kNotFound msg msg2"

definition Corruption :: "slice \<Rightarrow> slice \<Rightarrow> Status" where
  "Corruption msg msg2 = mk_Status kCorruption msg msg2"

definition NotSupported :: "slice \<Rightarrow> slice \<Rightarrow> Status" where
  "NotSupported msg msg2 = mk_Status kNotSupported msg msg2"

definition InvalidArgument :: "slice \<Rightarrow> slice \<Rightarrow> Status" where
  "InvalidArgument msg msg2 = mk_Status kInvalidArgument msg msg2"

definition IOError :: "slice \<Rightarrow> slice \<Rightarrow> Status" where
  "IOError msg msg2 = mk_Status kIOError msg msg2"

definition status_ok :: "Status \<Rightarrow> bool" where
  "status_ok s = (s = None)"

definition status_code :: "Status \<Rightarrow> byte" where
  "status_code s = (case s of None \<Rightarrow> code_byte kOk | Some state \<Rightarrow> state ! 4)"

definition IsNotFound :: "Status \<Rightarrow> bool" where
  "IsNotFound s = (status_code s = code_byte kNotFound)"

definition IsCorruption :: "Status \<Rightarrow> bool" where
  "IsCorruption s = (status_code s = code_byte kCorruption)"

definition IsIOError :: "Status \<Rightarrow> bool" where
  "IsIOError s = (status_code s = code_byte kIOError)"

definition IsNotSupportedError :: "Status \<Rightarrow> bool" where
  "IsNotSupportedError s = (status_code s = code_byte kNotSupported)"

definition IsInvalidArgument :: "Status \<Rightarrow> bool" where
  "IsInvalidArgument s = (status_code s = code_byte kInvalidArgument)"

definition CopyState :: "slice \<Rightarrow> slice" where
  "CopyState state = take (unat (DecodeFixed32 state + 5)) state"

definition copy_Status :: "Status \<Rightarrow> Status" where
  "copy_Status rhs = (case rhs of None \<Rightarrow> None | Some state \<Rightarrow> Some (CopyState state))"

text \<open>The decimal digits of \<^verbatim>\<open>"%d"\<close> for a non-negative number.\<close>

fun decimal :: "nat \<Rightarrow> string" where
  "decimal n = (if n < 10 then [char_of (48 + n)] else decimal (n div 10) @ [char_of (48 + n mod 10)])"

declare decimal.simps [simp del]

definition status_type :: "byte \<Rightarrow> string" where
  "status_type c =
     (if c = code_byte kOk then ''OK''
      else if c = code_byte kNotFound then ''NotFound: ''
      else if c = code_byte kCorruption then ''Corruption: ''
      else if c = code_byte kNotSupported then ''Not implemented: ''
      else if c = code_byte kInvalidArgument then ''Invalid argument: ''
      else if c = code_byte kIOError then ''IO error: ''
      else ''Unknown code('' @ decimal (unat c) @ ''): '')"

definition Status_ToString :: "Status \<Rightarrow> slice" where
  "Status_ToString s =
     (case s of
        None \<Rightarrow> bytes_of_string ''OK''
      | Some state \<Rightarrow>
          bytes_of_string (status_type (status_code s)) @
          take (unat (DecodeFixed32 state)) (drop 5 state))"

section \<open>Codes and messages\<close>

lemma code_byte_inj [simp]: "code_byte c = code_byte d \<longleftrightarrow> c = d"
  by (cases c; cases d) simp_all

lemma mk_Status_ok [simp]: "\<not> status_ok (mk_Status c m m2)" "status_ok Status_OK"
  by (simp_all add: mk_Status_def status_ok_def Status_OK_def Let_def)

lemma mk_Status_code [simp]: "status_code (mk_Status c m m2) = code_byte c"
  by (simp add: mk_Status_def status_code_def Let_def nth_append)

lemma status_code_OK [simp]: "status_code Status_OK = code_byte kOk"
  by (simp add: Status_OK_def status_code_def)

lemmas status_defs = NotFound_def Corruption_def NotSupported_def InvalidArgument_def IOError_def

lemmas status_tests = IsNotFound_def IsCorruption_def IsIOError_def IsNotSupportedError_def
  IsInvalidArgument_def

lemma status_class:
  "IsNotFound (mk_Status c m m2) = (c = kNotFound)"
  "IsCorruption (mk_Status c m m2) = (c = kCorruption)"
  "IsNotSupportedError (mk_Status c m m2) = (c = kNotSupported)"
  "IsInvalidArgument (mk_Status c m m2) = (c = kInvalidArgument)"
  "IsIOError (mk_Status c m m2) = (c = kIOError)"
  unfolding status_tests by (cases c, simp_all)+

text \<open>The message a status prints: both parts, separated when the second is not empty.\<close>

definition status_message :: "slice \<Rightarrow> slice \<Rightarrow> slice" where
  "status_message msg msg2 = (if msg2 = [] then msg else msg @ bytes_of_string '': '' @ msg2)"

lemma length_bytes_of_string [simp]: "length (bytes_of_string s) = length s"
  by (simp add: bytes_of_string_def)

lemma mk_Status_small:
  assumes "length msg + length msg2 + 7 < 2 ^ 32"
  shows "mk_Status c msg msg2 =
    Some (EncodeFixed32 (of_nat (length (status_message msg msg2))) @ [code_byte c] @ status_message msg msg2)"
proof -
  have l: "unat (of_nat (length msg) :: u32) = length msg" "unat (of_nat (length msg2) :: u32) = length msg2"
    using assms by (simp_all add: unat_of_nat)
  have z: "(of_nat (length msg2) :: u32) = 0 \<longleftrightarrow> msg2 = []"
    using l(2) by (cases msg2) (auto simp: unat_eq_0 simp del: of_nat_Suc)
  show ?thesis
    by (simp add: mk_Status_def Let_def l z status_message_def ac_simps)
qed

text \<open>A status made of a code and messages reports that code and no other, prints the name of the
  code followed by the messages joined with a colon, and a copy of it is the same status.\<close>
theorem status_reports:
  assumes "length msg + length msg2 + 7 < 2 ^ 32" and "c \<noteq> kOk"
  shows "\<not> status_ok (mk_Status c msg msg2) \<and>
    status_code (mk_Status c msg msg2) = code_byte c \<and>
    Status_ToString (mk_Status c msg msg2) =
      bytes_of_string (status_type (code_byte c)) @ status_message msg msg2 \<and>
    copy_Status (mk_Status c msg msg2) = mk_Status c msg msg2"
proof -
  have n: "length (status_message msg msg2) + 5 < 2 ^ 32"
    using assms by (simp add: status_message_def)
  then have u: "unat (of_nat (length (status_message msg msg2)) :: u32) = length (status_message msg msg2)"
    "unat (of_nat (length (status_message msg msg2)) + 5 :: u32) = length (status_message msg msg2) + 5"
    using unat_of_nat_small [of "length (status_message msg msg2)", where 'a=32]
      unat_of_nat_small [of "length (status_message msg msg2) + 5", where 'a=32]
    by simp_all
  have eq: "mk_Status c msg msg2 = Some (EncodeFixed32 (of_nat (length (status_message msg msg2))) @
      code_byte c # status_message msg msg2)" (is "_ = Some ?st")
    using mk_Status_small [OF assms(1)] by simp
  have d: "DecodeFixed32 ?st = of_nat (length (status_message msg msg2))" by (rule DecodeFixed32_EncodeFixed32)
  have "Status_ToString (Some ?st) = bytes_of_string (status_type (code_byte c)) @ status_message msg msg2"
    using mk_Status_code [of c msg msg2] unfolding eq by (simp add: Status_ToString_def d u(1))
  moreover have "copy_Status (Some ?st) = Some ?st"
    by (simp add: copy_Status_def CopyState_def d u(2))
  ultimately show ?thesis using mk_Status_code [of c msg msg2] mk_Status_ok(1) [of c msg msg2] unfolding eq by blast
qed

theorem status_reports_witness:
  "Status_ToString (mk_Status kIOError (bytes_of_string ''f'') (bytes_of_string ''eof''))
   = bytes_of_string ''IO error: f: eof''"
proof -
  have "length (bytes_of_string ''f'') + length (bytes_of_string ''eof'') + 7 < 2 ^ 32" by simp
  from status_reports [OF this, of kIOError] show ?thesis
    by (simp add: status_type_def status_message_def bytes_of_string_def del: of_char_of)
qed

end
