(* ===== verification/Comparator.thy ===== *)
theory Comparator
  imports LDB_Prelude
begin

text \<open>
  \<^verbatim>\<open>include/leveldb/slice.h\<close> (comparison), \<^verbatim>\<open>include/leveldb/comparator.h\<close> (the interface, as a
  record of its virtual methods and a locale with its contract) and \<^verbatim>\<open>util/comparator.cc\<close> (the
  byte-wise comparator). \<^verbatim>\<open>memcmp\<close> is only specified up to its sign; the model returns the sign.
\<close>

section \<open>Comparison of slices\<close>

fun memcmp :: "slice \<Rightarrow> slice \<Rightarrow> nat \<Rightarrow> int" where
  "memcmp (x # xs) (y # ys) (Suc n) =
     (if x < y then - 1 else if y < x then 1 else memcmp xs ys n)"
| "memcmp _ _ _ = 0"

definition Slice_compare :: "slice \<Rightarrow> slice \<Rightarrow> int" where
  "Slice_compare a b =
     (let min_len = (if length a < length b then length a else length b);
          r = memcmp a b min_len
      in if r = 0 then
           if length a < length b then - 1 else if length a > length b then 1 else r
         else r)"

definition starts_with :: "slice \<Rightarrow> slice \<Rightarrow> bool" where
  "starts_with s x = (length s \<ge> length x \<and> memcmp s x (length x) = 0)"

definition slice_eq :: "slice \<Rightarrow> slice \<Rightarrow> bool" where
  "slice_eq x y = (length x = length y \<and> memcmp x y (length x) = 0)"

section \<open>The byte-wise comparator\<close>

record Comparator =
  cmp_Name :: string
  Compare :: "slice \<Rightarrow> slice \<Rightarrow> int"
  FindShortestSeparator :: "slice \<Rightarrow> slice \<Rightarrow> slice"
  FindShortSuccessor :: "slice \<Rightarrow> slice"

text \<open>The loop that advances an index while both strings agree.\<close>

fun shared_prefix :: "slice \<Rightarrow> slice \<Rightarrow> nat" where
  "shared_prefix (x # xs) (y # ys) = (if x = y then Suc (shared_prefix xs ys) else 0)"
| "shared_prefix _ _ = 0"

definition bytewise_FindShortestSeparator :: "slice \<Rightarrow> slice \<Rightarrow> slice" where
  "bytewise_FindShortestSeparator start limit =
     (let min_length = min (length start) (length limit);
          diff_index = shared_prefix start limit
      in if diff_index \<ge> min_length then start
         else let diff_byte = start ! diff_index in
           if diff_byte < 0xff \<and> unat diff_byte + 1 < unat (limit ! diff_index)
           then take (diff_index + 1) (start[diff_index := start ! diff_index + 1])
           else start)"

function short_successor_loop :: "slice \<Rightarrow> nat \<Rightarrow> slice" where
  "short_successor_loop key i =
     (if i < length key then
        let b = key ! i in
        if b \<noteq> 0xff then take (i + 1) (key[i := b + 1])
        else short_successor_loop key (i + 1)
      else key)"
  by pat_completeness auto
termination by (relation "measure (\<lambda>(key, i). length key - i)") auto

declare short_successor_loop.simps [simp del]

definition bytewise_FindShortSuccessor :: "slice \<Rightarrow> slice" where
  "bytewise_FindShortSuccessor key = short_successor_loop key 0"

definition BytewiseComparator :: Comparator where
  "BytewiseComparator =
     \<lparr> cmp_Name = ''leveldb.BytewiseComparator'',
       Compare = Slice_compare,
       FindShortestSeparator = bytewise_FindShortestSeparator,
       FindShortSuccessor = bytewise_FindShortSuccessor \<rparr>"

section \<open>The contract of a comparator\<close>

text \<open>
  \<open>ok\<close> delimits the keys the comparator is used on. The laws are those of \<^verbatim>\<open>comparator.h\<close>: a total
  preorder given by the sign of \<open>Compare\<close>, separators between their bounds and successors not below
  their argument. The last law is what the internal comparator relies on when start and limit have
  the same user key, which the documentation leaves open.
\<close>

locale comparator_law =
  fixes cmp :: Comparator and ok :: "slice \<Rightarrow> bool"
  assumes refl: "ok a \<Longrightarrow> Compare cmp a a = 0"
    and antisym: "ok a \<Longrightarrow> ok b \<Longrightarrow> Compare cmp a b < 0 \<longleftrightarrow> Compare cmp b a > 0"
    and trans: "ok a \<Longrightarrow> ok b \<Longrightarrow> ok c \<Longrightarrow> Compare cmp a b \<le> 0 \<Longrightarrow> Compare cmp b c \<le> 0 \<Longrightarrow>
                Compare cmp a c \<le> 0"
    and separator_ok: "ok s \<Longrightarrow> ok l \<Longrightarrow> ok (FindShortestSeparator cmp s l)"
    and separator_ge: "ok s \<Longrightarrow> ok l \<Longrightarrow> Compare cmp s l < 0 \<Longrightarrow>
                Compare cmp s (FindShortestSeparator cmp s l) \<le> 0"
    and separator_less: "ok s \<Longrightarrow> ok l \<Longrightarrow> Compare cmp s l < 0 \<Longrightarrow>
                Compare cmp (FindShortestSeparator cmp s l) l < 0"
    and successor_ok: "ok s \<Longrightarrow> ok (FindShortSuccessor cmp s)"
    and successor_ge: "ok s \<Longrightarrow> Compare cmp s (FindShortSuccessor cmp s) \<le> 0"
    and separator_eq: "ok s \<Longrightarrow> ok l \<Longrightarrow> Compare cmp s l = 0 \<Longrightarrow>
                \<not> Compare cmp s (FindShortestSeparator cmp s l) < 0"
begin

lemma le_iff: "ok a \<Longrightarrow> ok b \<Longrightarrow> Compare cmp a b \<le> 0 \<longleftrightarrow> Compare cmp b a \<ge> 0"
  using antisym [of a b] antisym [of b a] by linarith

lemma eq_sym: "ok a \<Longrightarrow> ok b \<Longrightarrow> Compare cmp a b = 0 \<longleftrightarrow> Compare cmp b a = 0"
  using antisym [of a b] antisym [of b a] by linarith

lemma less_le_trans:
  assumes "ok a" "ok b" "ok c" "Compare cmp a b < 0" "Compare cmp b c \<le> 0"
  shows "Compare cmp a c < 0"
proof (rule ccontr)
  assume "\<not> Compare cmp a c < 0"
  then have "Compare cmp c a \<le> 0" using le_iff [of c a] assms by simp
  then have "Compare cmp b a \<le> 0" using trans [of b c a] assms by simp
  then show False using antisym [of a b] assms by simp
qed

lemma le_less_trans:
  assumes "ok a" "ok b" "ok c" "Compare cmp a b \<le> 0" "Compare cmp b c < 0"
  shows "Compare cmp a c < 0"
proof (rule ccontr)
  assume "\<not> Compare cmp a c < 0"
  then have "Compare cmp c a \<le> 0" using le_iff [of c a] assms by simp
  then have "Compare cmp c b \<le> 0" using trans [of c a b] assms by simp
  then show False using antisym [of b c] assms by simp
qed

lemma less_trans:
  "ok a \<Longrightarrow> ok b \<Longrightarrow> ok c \<Longrightarrow> Compare cmp a b < 0 \<Longrightarrow> Compare cmp b c < 0 \<Longrightarrow> Compare cmp a c < 0"
  using less_le_trans [of a b c] by simp

lemma less_irrefl: "ok a \<Longrightarrow> \<not> Compare cmp a a < 0"
  by (simp add: refl)

lemma eq_cong_left:
  assumes "ok a" "ok b" "ok c" "Compare cmp a b = 0"
  shows "Compare cmp a c < 0 \<longleftrightarrow> Compare cmp b c < 0"
  using le_less_trans [of a b c] le_less_trans [of b a c] eq_sym [of a b] assms by auto

lemma eq_cong_right:
  assumes "ok a" "ok b" "ok c" "Compare cmp a b = 0"
  shows "Compare cmp c a < 0 \<longleftrightarrow> Compare cmp c b < 0"
  using less_le_trans [of c a b] less_le_trans [of c b a] eq_sym [of a b] assms by auto

lemma sorted_wrt_compare:
  assumes "sorted_wrt (\<lambda>a b. Compare cmp a b < 0) ks" "i < j" "j < length ks"
  shows "Compare cmp (ks ! i) (ks ! j) < 0"
  using assms by (simp add: sorted_wrt_iff_nth_less)

end

section \<open>The byte-wise order\<close>

text \<open>The lexicographic order as a recursive three-way comparison.\<close>

fun lex3 :: "slice \<Rightarrow> slice \<Rightarrow> int" where
  "lex3 [] [] = 0"
| "lex3 [] (_ # _) = - 1"
| "lex3 (_ # _) [] = 1"
| "lex3 (x # xs) (y # ys) = (if x < y then - 1 else if y < x then 1 else lex3 xs ys)"

lemma Slice_compare_lex3: "Slice_compare a b = lex3 a b"
  by (induction a b rule: lex3.induct) (auto simp: Slice_compare_def Let_def)

lemma lex3_refl [simp]: "lex3 a a = 0"
  by (induction a) auto

lemma lex3_eq: "lex3 a b = 0 \<longleftrightarrow> a = b"
  by (induction a b rule: lex3.induct) auto

lemma lex3_antisym: "lex3 a b = - lex3 b a"
  by (induction a b rule: lex3.induct) auto

lemma lex3_trans: "lex3 a b \<le> 0 \<Longrightarrow> lex3 b c \<le> 0 \<Longrightarrow> lex3 a c \<le> 0"
proof (induction a c arbitrary: b rule: lex3.induct)
  case (4 x xs y ys)
  then show ?case by (cases b) (auto split: if_splits)
next
  case (3 x xs)
  then show ?case by (cases b) (auto split: if_splits)
qed auto

lemma lex3_same_prefix [simp]: "lex3 (p @ a) (p @ b) = lex3 a b"
  by (induction p) auto

lemma shared_prefix_le: "shared_prefix a b \<le> length a" "shared_prefix a b \<le> length b"
  by (induction a b rule: shared_prefix.induct) auto

lemma shared_prefix_take: "take (shared_prefix a b) a = take (shared_prefix a b) b"
  by (induction a b rule: shared_prefix.induct) auto

lemma shared_prefix_differ:
  "shared_prefix a b < length a \<Longrightarrow> shared_prefix a b < length b \<Longrightarrow>
   a ! shared_prefix a b \<noteq> b ! shared_prefix a b"
  by (induction a b rule: shared_prefix.induct) auto

lemma unat_numeral_ff: "unat (0xff :: byte) = 255"
  by simp

lemma byte_succ:
  assumes "(b :: byte) \<noteq> 0xff"
  shows "unat (b + 1) = unat b + 1"
proof -
  have "unat b \<noteq> 255" using assms by (metis unat_numeral_ff word_unat_eq_iff)
  moreover have "unat b < 256" using unat_lt2p [of b] by simp
  ultimately show ?thesis by (simp add: unat_word_ariths)
qed

text \<open>A key cut after a byte that was incremented.\<close>

lemma bumped_split:
  assumes "i < length s"
  shows "take (Suc i) (s[i := c]) = take i s @ [c]" and "s = take i s @ s ! i # drop (i + 1) s"
  using assms by (auto simp: take_Suc_conv_app_nth id_take_nth_drop)

lemma bumped_greater:
  assumes "i < length s" "s ! i \<noteq> 0xff"
  shows "lex3 s (take (Suc i) (s[i := s ! i + 1])) = - 1"
proof -
  have "s ! i < s ! i + 1" using byte_succ [OF assms(2)] by (simp add: word_less_unat)
  moreover have "lex3 s (take (Suc i) (s[i := s ! i + 1])) =
      lex3 (take i s @ s ! i # drop (i + 1) s) (take i s @ [s ! i + 1])"
    using bumped_split [OF assms(1)] by metis
  ultimately show ?thesis by simp
qed

lemma separator_between:
  assumes "lex3 s l < 0"
  shows "lex3 s (bytewise_FindShortestSeparator s l) \<le> 0"
    and "lex3 (bytewise_FindShortestSeparator s l) l < 0"
proof -
  define i where "i = shared_prefix s l"
  show "lex3 s (bytewise_FindShortestSeparator s l) \<le> 0"
    unfolding bytewise_FindShortestSeparator_def Let_def
    by (auto simp: bumped_greater simp del: word_not_simps)
  show "lex3 (bytewise_FindShortestSeparator s l) l < 0"
  proof (cases "i < min (length s) (length l) \<and> s ! i < 0xff \<and> unat (s ! i) + 1 < unat (l ! i)")
    case True
    then have b: "s ! i + 1 < l ! i" using byte_succ [of "s ! i"] by (cases "s ! i = 0xff") (auto simp: word_less_unat)
    have "bytewise_FindShortestSeparator s l = take i l @ [s ! i + 1]"
      using True shared_prefix_take [of s l]
      by (auto simp: bytewise_FindShortestSeparator_def i_def [symmetric] bumped_split(1) Let_def)
    moreover have "l = take i l @ l ! i # drop (i + 1) l" using True by (intro bumped_split(2)) simp
    ultimately show ?thesis using b by (metis lex3.simps(4) lex3_same_prefix neg_less_0_iff_less zero_less_one)
  next
    case False
    then have "bytewise_FindShortestSeparator s l = s"
      by (auto simp: bytewise_FindShortestSeparator_def i_def [symmetric] Let_def)
    then show ?thesis using assms by simp
  qed
qed

lemma short_successor_loop_ge: "lex3 key (short_successor_loop key i) \<le> 0"
proof (induction key i rule: short_successor_loop.induct)
  case (1 key i)
  then show ?case
    by (subst short_successor_loop.simps) (auto simp: Let_def bumped_greater)
qed

interpretation bytewise: comparator_law BytewiseComparator "\<lambda>_. True"
proof
  fix a b c s l :: slice
  show "Compare BytewiseComparator a b < 0 \<longleftrightarrow> Compare BytewiseComparator b a > 0"
    using lex3_antisym [of a b] by (simp add: BytewiseComparator_def Slice_compare_lex3)
  show "Compare BytewiseComparator a b \<le> 0 \<Longrightarrow> Compare BytewiseComparator b c \<le> 0 \<Longrightarrow>
      Compare BytewiseComparator a c \<le> 0"
    by (simp add: BytewiseComparator_def Slice_compare_lex3 lex3_trans)
  show "Compare BytewiseComparator s l < 0 \<Longrightarrow>
      Compare BytewiseComparator s (FindShortestSeparator BytewiseComparator s l) \<le> 0"
    "Compare BytewiseComparator s l < 0 \<Longrightarrow>
      Compare BytewiseComparator (FindShortestSeparator BytewiseComparator s l) l < 0"
    by (simp_all add: BytewiseComparator_def Slice_compare_lex3 separator_between)
  show "Compare BytewiseComparator s (FindShortSuccessor BytewiseComparator s) \<le> 0"
    by (simp add: BytewiseComparator_def Slice_compare_lex3 bytewise_FindShortSuccessor_def
        short_successor_loop_ge)
  assume "Compare BytewiseComparator s l = 0"
  then have "s = l" by (simp add: BytewiseComparator_def Slice_compare_lex3 lex3_eq)
  moreover have "shared_prefix l l = length l" by (induction l) auto
  ultimately show "\<not> Compare BytewiseComparator s (FindShortestSeparator BytewiseComparator s l) < 0"
    by (simp add: BytewiseComparator_def Slice_compare_lex3 bytewise_FindShortestSeparator_def)
qed (simp_all add: BytewiseComparator_def Slice_compare_lex3)

lemma bytewise_compare_eq: "Compare BytewiseComparator a b = 0 \<longleftrightarrow> a = b"
  by (simp add: BytewiseComparator_def Slice_compare_lex3 lex3_eq)

text \<open>A total preorder on the keys, all that searching needs.\<close>

locale key_order =
  fixes cmp :: "'k \<Rightarrow> 'k \<Rightarrow> int" and ok :: "'k \<Rightarrow> bool"
  assumes ko_refl: "ok a \<Longrightarrow> cmp a a = 0"
    and ko_antisym: "ok a \<Longrightarrow> ok b \<Longrightarrow> cmp a b < 0 \<longleftrightarrow> cmp b a > 0"
    and ko_trans: "ok a \<Longrightarrow> ok b \<Longrightarrow> ok c \<Longrightarrow> cmp a b \<le> 0 \<Longrightarrow> cmp b c \<le> 0 \<Longrightarrow> cmp a c \<le> 0"
begin

lemma ko_le_iff: "ok a \<Longrightarrow> ok b \<Longrightarrow> cmp a b \<le> 0 \<longleftrightarrow> 0 \<le> cmp b a"
  using ko_antisym [of b a] by linarith

lemma ko_le_less:
  assumes "ok a" "ok b" "ok c" "cmp a b \<le> 0" "cmp b c < 0" shows "cmp a c < 0"
proof (rule ccontr)
  assume "\<not> cmp a c < 0"
  then have "cmp c b \<le> 0" using ko_trans [of c a b] ko_le_iff [of c a] assms by simp
  then show False using ko_le_iff [of c b] assms by simp
qed

lemma ko_less_le:
  assumes "ok a" "ok b" "ok c" "cmp a b < 0" "cmp b c \<le> 0" shows "cmp a c < 0"
proof (rule ccontr)
  assume "\<not> cmp a c < 0"
  then have "cmp b a \<le> 0" using ko_trans [of b c a] ko_le_iff [of c a] assms by simp
  then show False using ko_le_iff [of b a] assms by simp
qed

lemma ko_less_trans: "ok a \<Longrightarrow> ok b \<Longrightarrow> ok c \<Longrightarrow> cmp a b < 0 \<Longrightarrow> cmp b c < 0 \<Longrightarrow> cmp a c < 0"
  using ko_le_less [of a b c] by simp

end

sublocale comparator_law \<subseteq> ord: key_order "Compare cmp" ok
  by unfold_locales (auto intro: refl antisym trans simp: antisym)

end
