(* ===== verification/Bloom.thy ===== *)
theory Bloom
  imports Hash Filter_Policy
begin

text \<open>
  \<^verbatim>\<open>util/bloom.cc\<close>: the Bloom filter policy. Sizes are 64-bit words (\<^verbatim>\<open>size_t\<close>), hash values
  32-bit words; the filter is a byte list whose last byte is the number of probes.
\<close>

unbundle bit_operations_syntax

definition BloomHash :: "slice \<Rightarrow> u32" where
  "BloomHash key = Hash key 0xbc9f1d34"

text \<open>
  The number of probes is \<^verbatim>\<open>static_cast<size_t>(bits_per_key * 0.69)\<close>, clamped. The literal is the
  double \<open>6214967485771284 / 2 ^ 53\<close>; the product is rounded to 53 bits, ties to even, and truncated.
  The model takes a number of bits per key that is not negative; for a negative \<^verbatim>\<open>int\<close> below -1 the conversion of the
  product to \<^verbatim>\<open>size_t\<close> is undefined.
\<close>

definition mul_0_69_trunc :: "nat \<Rightarrow> nat" where
  "mul_0_69_trunc b =
     (let x = b * 6214967485771284;
          s = bit_length x - 53;
          q = x div 2 ^ s;
          r = x mod 2 ^ s;
          q' = (if 2 ^ s < 2 * r \<or> (2 * r = 2 ^ s \<and> odd q) then q + 1 else q)
      in q' * 2 ^ s div 2 ^ 53)"

record BloomFilterPolicy =
  bits_per_key :: u64
  k_probes :: nat

definition new_bloom :: "nat \<Rightarrow> BloomFilterPolicy" where
  "new_bloom bits =
     (let k = mul_0_69_trunc bits;
          k = (if k < 1 then 1 else k);
          k = (if k > 30 then 30 else k)
      in \<lparr>bits_per_key = of_nat bits, k_probes = k\<rparr>)"

definition rotate17 :: "u32 \<Rightarrow> u32" where
  "rotate17 h = drop_bit 17 h OR push_bit 15 h"

definition set_pos :: "u32 \<Rightarrow> slice \<Rightarrow> slice" where
  "set_pos bitpos array =
     (let i = unat (bitpos div 8) in array[i := array ! i OR push_bit (unat (bitpos mod 8)) 1])"

definition test_pos :: "u32 \<Rightarrow> slice \<Rightarrow> bool" where
  "test_pos bitpos array \<longleftrightarrow>
     (array ! unat (bitpos div 8)) AND push_bit (unat (bitpos mod 8)) 1 \<noteq> 0"

primrec bloom_add :: "u64 \<Rightarrow> u32 \<Rightarrow> nat \<Rightarrow> u32 \<Rightarrow> slice \<Rightarrow> slice" where
  "bloom_add bits delta 0 h array = array"
| "bloom_add bits delta (Suc k) h array =
     bloom_add bits delta k (h + delta) (set_pos (ucast (ucast h mod bits)) array)"

primrec bloom_test :: "u64 \<Rightarrow> u32 \<Rightarrow> nat \<Rightarrow> u32 \<Rightarrow> slice \<Rightarrow> bool" where
  "bloom_test bits delta 0 h array \<longleftrightarrow> True"
| "bloom_test bits delta (Suc k) h array \<longleftrightarrow>
     (if test_pos (ucast (ucast h mod bits)) array then bloom_test bits delta k (h + delta) array else False)"

definition bloom_bytes :: "BloomFilterPolicy \<Rightarrow> nat \<Rightarrow> u64" where
  "bloom_bytes p n =
     (let bits = of_nat n * bits_per_key p;
          bits = (if bits < 64 then 64 else bits)
      in (bits + 7) div 8)"

definition bloom_CreateFilter :: "BloomFilterPolicy \<Rightarrow> slice list \<Rightarrow> slice \<Rightarrow> slice" where
  "bloom_CreateFilter p keys dst =
     (let bytes = bloom_bytes p (length keys);
          bits = bytes * 8;
          array = foldl (\<lambda>array key.
              let h = BloomHash key in bloom_add bits (rotate17 h) (k_probes p) h array)
            (replicate (unat bytes) 0) keys
      in dst @ array @ [of_nat (k_probes p)])"

definition bloom_KeyMayMatch :: "slice \<Rightarrow> slice \<Rightarrow> bool" where
  "bloom_KeyMayMatch key bloom_filter =
     (let len = length bloom_filter
      in if len < 2 then False
         else let bits = of_nat (len - 1) * 8 :: u64;
                  k = scast (bloom_filter ! (len - 1)) :: u64
              in if k > 30 then True
                 else let h = BloomHash key in bloom_test bits (rotate17 h) (unat k) h bloom_filter)"

definition bloom_policy :: "nat \<Rightarrow> FilterPolicy" where
  "bloom_policy bits =
     \<lparr>Name = ''leveldb.BuiltinBloomFilter2'', CreateFilter = bloom_CreateFilter (new_bloom bits),
      KeyMayMatch = bloom_KeyMayMatch\<rparr>"

section \<open>Setting and testing bits\<close>

lemma length_set_pos [simp]: "length (set_pos b a) = length a"
  by (simp add: set_pos_def Let_def)

lemma test_pos_iff: "test_pos b a \<longleftrightarrow> bit (a ! unat (b div 8)) (unat (b mod 8))"
  by (simp add: test_pos_def push_bit_of_1 bit_iff_and_push_bit_not_eq_0)

lemma mod8_less: "unat ((b :: u32) mod 8) < 8"
  by (simp add: unat_mod)

lemma test_set_pos:
  assumes "unat (b div 8) < length a"
  shows "test_pos b (set_pos b a)" "test_pos c a \<Longrightarrow> test_pos c (set_pos b a)"
  using assms mod8_less [of b]
  by (auto simp: test_pos_iff set_pos_def Let_def nth_list_update bit_or_iff bit_exp_iff)

lemma length_bloom_add [simp]: "length (bloom_add bits d k h a) = length a"
  by (induction k arbitrary: h a) auto

lemma bitpos_in_range:
  assumes "unat bits = 8 * n" "0 < n"
  shows "unat (ucast (ucast (h :: u32) mod (bits :: u64)) div 8 :: u32) < n"
proof -
  have "unat (ucast h mod bits) < 2 ^ 32"
    using unat_lt2p [of h] by (simp add: unat_mod le_less_trans [OF mod_less_eq_dividend])
  then have "unat (ucast (ucast h mod bits) :: u32) = unat h mod (8 * n)"
    using assms(1) by (simp add: unat_u64_u32 unat_mod)
  then show ?thesis using assms(2) by (simp add: unat_div div_less_iff_less_mult mult.commute)
qed

lemma bloom_add_keeps:
  assumes "unat bits = 8 * length a" "0 < length a" "test_pos c a"
  shows "test_pos c (bloom_add bits d k h a)"
  using assms
proof (induction k arbitrary: h a)
  case (Suc k)
  let ?a = "set_pos (ucast (ucast h mod bits)) a"
  have "test_pos c ?a" using bitpos_in_range [of bits "length a" h] test_set_pos(2) Suc.prems by simp
  then show ?case using Suc.IH [of ?a "h + d"] Suc.prems(1,2) by simp
qed simp

lemma bloom_test_add:
  assumes "unat bits = 8 * length a" "0 < length a"
  shows "bloom_test bits d k h (bloom_add bits d k h a)"
  using assms
proof (induction k arbitrary: h a)
  case (Suc k)
  let ?a = "set_pos (ucast (ucast h mod bits)) a"
  have a: "unat bits = 8 * length ?a" "0 < length ?a" using Suc.prems by simp_all
  have "test_pos (ucast (ucast h mod bits)) ?a"
    using bitpos_in_range [of bits "length a" h] test_set_pos(1) Suc.prems by simp
  then show ?case using Suc.IH [OF a] bloom_add_keeps [OF a, of _ d k "h + d"] by simp
qed simp

lemma bloom_test_mono:
  assumes "\<And>c. test_pos c a \<Longrightarrow> test_pos c b" "bloom_test bits d k h a"
  shows "bloom_test bits d k h b"
  using assms(2) by (induction k arbitrary: h) (auto dest: assms(1) split: if_splits)

lemma bloom_test_append:
  assumes "unat bits = 8 * length a" "0 < length a"
  shows "bloom_test bits d k h (a @ x) = bloom_test bits d k h a"
proof (induction k arbitrary: h)
  case (Suc k)
  then show ?case using bitpos_in_range [OF assms, of h] by (simp add: test_pos_def nth_append)
qed simp

lemma bloom_fold:
  fixes k :: nat
  assumes "unat bits = 8 * length a" "0 < length a"
  defines "add \<equiv> \<lambda>array key. let h = BloomHash key in bloom_add bits (rotate17 h) k h array"
  shows "length (foldl add a keys) = length a"
    "test_pos c a \<Longrightarrow> test_pos c (foldl add a keys)"
    "key \<in> set keys \<Longrightarrow> bloom_test bits (rotate17 (BloomHash key)) k (BloomHash key) (foldl add a keys)"
proof -
  have len: "length (add a' key) = length a'" for a' key by (simp add: add_def Let_def)
  have fl: "length (foldl add a' keys) = length a'" for a' keys
    by (induction keys arbitrary: a') (simp_all add: len)
  have mono: "test_pos c (foldl add a' keys)" if "unat bits = 8 * length a'" "0 < length a'" "test_pos c a'" for c a' keys
    using that
  proof (induction keys arbitrary: a')
    case (Cons key keys)
    have "test_pos c (add a' key)" using bloom_add_keeps [OF Cons.prems] by (simp add: add_def Let_def)
    then show ?case using Cons.IH [of "add a' key"] Cons.prems by (simp add: len)
  qed simp
  show "length (foldl add a keys) = length a" by (rule fl)
  show "test_pos c a \<Longrightarrow> test_pos c (foldl add a keys)" using mono assms by blast
  show "bloom_test bits (rotate17 (BloomHash key)) k (BloomHash key) (foldl add a keys)" if "key \<in> set keys"
    using assms(1,2) that
  proof (induction keys arbitrary: a)
    case (Cons key' keys)
    let ?a = "add a key'"
    have a: "unat bits = 8 * length ?a" "0 < length ?a" using Cons.prems len by simp_all
    show ?case
    proof (cases "key' = key")
      case True
      have "bloom_test bits (rotate17 (BloomHash key)) k (BloomHash key) ?a"
        using bloom_test_add [OF Cons.prems(1,2)] True by (simp add: add_def Let_def)
      then show ?thesis using bloom_test_mono [OF mono [OF a]] by simp
    next
      case False
      then show ?thesis using Cons.IH [OF a] Cons.prems(3) by simp
    qed
  qed simp
qed

lemma unat_bloom_bytes:
  assumes "bits < 2 ^ 31" "n < 2 ^ 31"
  shows "unat (bloom_bytes (new_bloom bits) n) = (max 64 (n * bits) + 7) div 8"
proof -
  have "n * bits < 2 ^ 31 * 2 ^ 31" using assms by (intro mult_strict_mono) auto
  then have nb: "unat (of_nat n * of_nat bits :: u64) = n * bits"
    by (simp add: unat_of_nat take_bit_nat_eq_self flip: of_nat_mult)
  then have "unat (if of_nat n * of_nat bits < (64 :: u64) then 64 else of_nat n * of_nat bits :: u64) = max 64 (n * bits)"
    by (simp add: word_less_unat)
  moreover have "max 64 (n * bits) + 7 < 2 ^ 64" using \<open>n * bits < 2 ^ 31 * 2 ^ 31\<close> by simp
  ultimately show ?thesis
    by (simp add: bloom_bytes_def new_bloom_def Let_def unat_div unat_word_ariths)
qed

lemma k_probes_bounds: "1 \<le> k_probes (new_bloom bits)" "k_probes (new_bloom bits) \<le> 30"
  by (simp_all add: new_bloom_def Let_def)

lemma scast_small:
  assumes "n < 128"
  shows "scast (of_nat n :: byte) = (of_nat n :: u64)"
proof -
  have "sint (of_nat n :: byte) = int n"
    using assms by (simp add: signed_of_nat signed_take_bit_int_eq_self)
  then show ?thesis by (simp add: scast_eq)
qed

lemma bloom_match:
  assumes "bits < 2 ^ 31" "length keys < 2 ^ 31" "key \<in> set keys"
  shows "bloom_KeyMayMatch key (bloom_CreateFilter (new_bloom bits) keys [])"
proof -
  let ?p = "new_bloom bits" and ?h = "BloomHash key"
  define bytes where "bytes = bloom_bytes ?p (length keys)"
  have len: "unat bytes = (max 64 (length keys * bits) + 7) div 8"
    using unat_bloom_bytes [OF assms(1,2)] by (simp add: bytes_def)
  have "length keys * bits < 2 ^ 31 * 2 ^ 31" using assms by (intro mult_strict_mono) auto
  then have b: "8 \<le> unat bytes" "unat bytes < 2 ^ 60" using len by simp_all
  define arr where "arr = foldl (\<lambda>array key. let h = BloomHash key in
      bloom_add (bytes * 8) (rotate17 h) (k_probes ?p) h array) (replicate (unat bytes) 0) keys"
  have u: "unat (bytes * 8) = 8 * length (replicate (unat bytes) (0 :: byte))" "0 < length (replicate (unat bytes) (0 :: byte))"
    using b by (simp_all add: unat_word_ariths)
  have arr: "length arr = unat bytes" "bloom_test (bytes * 8) (rotate17 ?h) (k_probes ?p) ?h arr"
    using bloom_fold(1,3) [OF u] assms(3) by (simp_all add: arr_def)
  have f: "bloom_CreateFilter ?p keys [] = arr @ [of_nat (k_probes ?p)]"
    by (simp add: bloom_CreateFilter_def Let_def bytes_def arr_def)
  have k: "scast (of_nat (k_probes ?p) :: byte) = (of_nat (k_probes ?p) :: u64)"
    by (rule scast_small) (use k_probes_bounds [of bits] in simp)
  have t: "bloom_test (bytes * 8) (rotate17 ?h) (k_probes ?p) ?h (arr @ [of_nat (k_probes ?p)])"
    using arr(2) bloom_test_append [of "bytes * 8" arr] u arr(1) b by simp
  have n: "(arr @ [of_nat (k_probes ?p)]) ! unat bytes = of_nat (k_probes ?p)" by (simp add: nth_append arr(1))
  show ?thesis
    unfolding f bloom_KeyMayMatch_def Let_def
    using t arr(1) b k_probes_bounds [of bits]
    by (simp add: n k word_less_unat unat_of_nat take_bit_nat_eq_self)
qed

interpretation bloom: filter_policy "bloom_policy bits" "\<lambda>ks. bits < 2 ^ 31 \<and> length ks < 2 ^ 31" for bits
proof
  show "CreateFilter (bloom_policy bits) ks dst = dst @ CreateFilter (bloom_policy bits) ks []" for ks dst
    by (simp add: bloom_policy_def bloom_CreateFilter_def Let_def)
  show "KeyMayMatch (bloom_policy bits) k (CreateFilter (bloom_policy bits) ks [])"
    if "bits < 2 ^ 31 \<and> length ks < 2 ^ 31" "k \<in> set ks" for ks k
    using bloom_match [of bits ks k] that by (simp add: bloom_policy_def)
qed

section \<open>Properties\<close>

text \<open>C8. The Bloom filter has no false negatives: for any number of bits per key, any list of fewer
  than 2^31 keys and any initial destination, \<^verbatim>\<open>CreateFilter\<close> appends to the destination and
  \<^verbatim>\<open>KeyMayMatch\<close> accepts every key of the list on what was appended.\<close>

theorem bloom_no_false_negative:
  assumes "bits < 2 ^ 31" "length keys < 2 ^ 31" "key \<in> set keys"
  shows "\<exists>filter. bloom_CreateFilter (new_bloom bits) keys dst = dst @ filter \<and> bloom_KeyMayMatch key filter"
  using bloom.appends [of bits keys dst] bloom.no_false_negative [of bits keys key] assms
  by (auto simp: bloom_policy_def)

theorem bloom_no_false_negative_witness:
  "\<exists>filter. bloom_CreateFilter (new_bloom 10) [[1, 2], [3]] [] = filter \<and> bloom_KeyMayMatch [3] filter"
  using bloom_no_false_negative [of 10 "[[1, 2], [3]]" "[3]" "[]"] by simp

lemma bloom_filter_shape:
  assumes "bits < 2 ^ 31" "length keys < 2 ^ 31"
  shows "length (bloom_CreateFilter (new_bloom bits) keys []) = (max 64 (length keys * bits) + 7) div 8 + 1 \<and>
    last (bloom_CreateFilter (new_bloom bits) keys []) = of_nat (k_probes (new_bloom bits))"
proof -
  let ?bytes = "bloom_bytes (new_bloom bits) (length keys)"
  have len: "unat ?bytes = (max 64 (length keys * bits) + 7) div 8" using unat_bloom_bytes [OF assms] .
  have "length keys * bits < 2 ^ 31 * 2 ^ 31" using assms by (intro mult_strict_mono) auto
  then have "8 \<le> unat ?bytes" "unat ?bytes < 2 ^ 60" using len by simp_all
  then have "unat (?bytes * 8) = 8 * length (replicate (unat ?bytes) (0 :: byte))"
    "0 < length (replicate (unat ?bytes) (0 :: byte))"
    by (simp_all add: unat_word_ariths)
  note fold = bloom_fold(1) [OF this, of "k_probes (new_bloom bits)" keys]
  then show ?thesis
    using len by (simp add: bloom_CreateFilter_def Let_def)
qed

text \<open>C18. The number of probes written into a Bloom filter is between 1 and 30, and the filter has
  \<open>max 64 (n * bits)\<close> bits rounded up to bytes, plus the probe byte.\<close>

theorem bloom_filter_size:
  assumes "bits < 2 ^ 31" "length keys < 2 ^ 31"
  shows "length (bloom_CreateFilter (new_bloom bits) keys []) = (max 64 (length keys * bits) + 7) div 8 + 1 \<and>
    unat (last (bloom_CreateFilter (new_bloom bits) keys [])) \<in> {1..30}"
  using bloom_filter_shape [OF assms] k_probes_bounds [of bits]
  by (simp add: unat_of_nat take_bit_nat_eq_self)

theorem bloom_filter_size_witness:
  "length (bloom_CreateFilter (new_bloom 10) [[1, 2], [3]] []) = 9"
  using bloom_filter_size [of 10 "[[1, 2], [3]]"] by simp

end
