(* ===== verification/Internal_Key.thy ===== *)
theory Internal_Key
  imports Coding Comparator Filter_Policy Bloom Wormhole_Policy
begin

text \<open>
  \<^verbatim>\<open>db/dbformat.h\<close> and \<^verbatim>\<open>db/dbformat.cc\<close>: internal keys (a user key followed by a packed sequence
  number and value type), their comparator and filter policy, and the lookup key. A
  \<^verbatim>\<open>ValueType\<close> read from a key is only validated by the caller, so a parsed type is kept as its
  byte.
\<close>

unbundle bit_operations_syntax

type_synonym SequenceNumber = u64
type_synonym ValueType = byte

abbreviation (input) kTypeDeletion :: ValueType where "kTypeDeletion \<equiv> 0"
abbreviation (input) kTypeValue :: ValueType where "kTypeValue \<equiv> 1"
abbreviation (input) kValueTypeForSeek :: ValueType where "kValueTypeForSeek \<equiv> 1"

definition kMaxSequenceNumber :: SequenceNumber where
  "kMaxSequenceNumber = push_bit 56 1 - 1"

record ParsedInternalKey =
  user_key :: slice
  seqno :: SequenceNumber
  vtype :: ValueType

definition PackSequenceAndType :: "u64 \<Rightarrow> ValueType \<Rightarrow> u64" where
  "PackSequenceAndType seq t = (push_bit 8 seq OR ucast t)"

definition InternalKeyEncodingLength :: "ParsedInternalKey \<Rightarrow> nat" where
  "InternalKeyEncodingLength key = length (user_key key) + 8"

definition AppendInternalKey :: "slice \<Rightarrow> ParsedInternalKey \<Rightarrow> slice" where
  "AppendInternalKey result key =
     PutFixed64 (result @ user_key key) (PackSequenceAndType (seqno key) (vtype key))"

definition ExtractUserKey :: "slice \<Rightarrow> slice" where
  "ExtractUserKey internal_key = take (length internal_key - 8) internal_key"

definition key_num :: "slice \<Rightarrow> u64" where
  "key_num internal_key = DecodeFixed64 (drop (length internal_key - 8) internal_key)"

definition ParseInternalKey :: "slice \<Rightarrow> ParsedInternalKey option" where
  "ParseInternalKey internal_key =
     (let n = length internal_key in
      if n < 8 then None
      else let num = key_num internal_key; c = ucast (num AND 0xff) :: byte;
               result = \<lparr> user_key = take (n - 8) internal_key, seqno = drop_bit 8 num, vtype = c \<rparr>
           in if c \<le> kTypeValue then Some result else None)"

definition InternalKey :: "slice \<Rightarrow> SequenceNumber \<Rightarrow> ValueType \<Rightarrow> slice" where
  "InternalKey u s t = AppendInternalKey [] \<lparr> user_key = u, seqno = s, vtype = t \<rparr>"

definition InternalKey_DecodeFrom :: "slice \<Rightarrow> bool \<times> slice" where
  "InternalKey_DecodeFrom s = (s \<noteq> [], s)"

section \<open>The internal comparator\<close>

definition internal_Compare :: "Comparator \<Rightarrow> slice \<Rightarrow> slice \<Rightarrow> int" where
  "internal_Compare user_comparator akey bkey =
     (let r = Compare user_comparator (ExtractUserKey akey) (ExtractUserKey bkey) in
      if r = 0 then
        let anum = key_num akey; bnum = key_num bkey in
        if anum > bnum then - 1 else if anum < bnum then 1 else r
      else r)"

definition internal_FindShortestSeparator :: "Comparator \<Rightarrow> slice \<Rightarrow> slice \<Rightarrow> slice" where
  "internal_FindShortestSeparator user_comparator start limit =
     (let user_start = ExtractUserKey start;
          user_limit = ExtractUserKey limit;
          tmp = FindShortestSeparator user_comparator user_start user_limit
      in if length tmp < length user_start \<and> Compare user_comparator user_start tmp < 0
         then PutFixed64 tmp (PackSequenceAndType kMaxSequenceNumber kValueTypeForSeek)
         else start)"

definition internal_FindShortSuccessor :: "Comparator \<Rightarrow> slice \<Rightarrow> slice" where
  "internal_FindShortSuccessor user_comparator key =
     (let ukey = ExtractUserKey key;
          tmp = FindShortSuccessor user_comparator ukey
      in if length tmp < length ukey \<and> Compare user_comparator ukey tmp < 0
         then PutFixed64 tmp (PackSequenceAndType kMaxSequenceNumber kValueTypeForSeek)
         else key)"

definition InternalKeyComparator :: "Comparator \<Rightarrow> Comparator" where
  "InternalKeyComparator c =
     \<lparr> cmp_Name = ''leveldb.InternalKeyComparator'',
       Compare = internal_Compare c,
       FindShortestSeparator = internal_FindShortestSeparator c,
       FindShortSuccessor = internal_FindShortSuccessor c \<rparr>"

section \<open>The internal filter policy and the lookup key\<close>

definition InternalFilterPolicy :: "FilterPolicy \<Rightarrow> FilterPolicy" where
  "InternalFilterPolicy p =
     \<lparr> Name = Name p,
       CreateFilter = (\<lambda>keys dst. CreateFilter p (map ExtractUserKey keys) dst),
       KeyMayMatch = (\<lambda>key f. KeyMayMatch p (ExtractUserKey key) f) \<rparr>"

text \<open>The array of a lookup key, with the offset \<^verbatim>\<open>kstart_\<close> of the internal key in it.\<close>

record LookupKey =
  lk_data :: slice
  lk_kstart :: nat

definition new_LookupKey :: "slice \<Rightarrow> SequenceNumber \<Rightarrow> LookupKey" where
  "new_LookupKey ukey s =
     (let usize = length ukey;
          prefix = EncodeVarint32 (of_nat (usize + 8))
      in \<lparr> lk_data = prefix @ ukey @ EncodeFixed64 (PackSequenceAndType s kValueTypeForSeek),
           lk_kstart = length prefix \<rparr>)"

definition memtable_key :: "LookupKey \<Rightarrow> slice" where
  "memtable_key k = lk_data k"

definition internal_key :: "LookupKey \<Rightarrow> slice" where
  "internal_key k = drop (lk_kstart k) (lk_data k)"

definition lookup_user_key :: "LookupKey \<Rightarrow> slice" where
  "lookup_user_key k =
     take (length (lk_data k) - lk_kstart k - 8) (drop (lk_kstart k) (lk_data k))"

section \<open>Packing\<close>

lemma bit_pack: "bit (PackSequenceAndType s t) i \<longleftrightarrow> (if i < 8 then bit t i else i < 64 \<and> bit s (i - 8))"
  by (auto simp: PackSequenceAndType_def bit_simps dest: bit_imp_le_length)

lemma pack_type: "(ucast (PackSequenceAndType s t AND 0xff) :: byte) = t"
proof (rule bit_word_eqI)
  fix i assume i: "i < LENGTH(8)"
  have "(0xff :: u64) = mask 8" by (simp add: mask_eq_exp_minus_1)
  then have "bit (0xff :: u64) i" using i by (simp only: bit_mask_iff) simp
  with i show "bit (ucast (PackSequenceAndType s t AND 0xff) :: byte) i = bit t i"
    by (simp only: bit_ucast_iff bit_and_iff bit_pack) simp
qed

lemma unat_seq_less: "s \<le> kMaxSequenceNumber \<Longrightarrow> unat s < 2 ^ 56"
  by (simp add: kMaxSequenceNumber_def word_le_nat_alt)

lemma pack_seq: "s \<le> kMaxSequenceNumber \<Longrightarrow> drop_bit 8 (PackSequenceAndType s t) = s"
proof (rule bit_word_eqI)
  fix i assume le: "s \<le> kMaxSequenceNumber" and "i < LENGTH(64)"
  have "unat s < 2 ^ 56"
    using le by (rule unat_seq_less)
  then have "take_bit 56 s = s"
    by (simp add: word_unat_eq_iff unsigned_take_bit_eq take_bit_nat_eq_self)
  then have "\<not> bit s i" if "i \<ge> 56" using that by (metis bit_take_bit_iff not_le)
  with \<open>i < LENGTH(64)\<close> show "bit (drop_bit 8 (PackSequenceAndType s t)) i = bit s i"
    by (cases "56 \<le> i") (auto simp: bit_drop_bit_eq bit_pack)
qed

lemma key_num_append [simp]: "key_num (u @ EncodeFixed64 n) = n"
  by (simp add: key_num_def codec_simps)

lemma ExtractUserKey_append [simp]: "ExtractUserKey (u @ EncodeFixed64 n) = u"
  by (simp add: ExtractUserKey_def)

lemma InternalKey_eq: "InternalKey u s t = u @ EncodeFixed64 (PackSequenceAndType s t)"
  by (simp add: InternalKey_def AppendInternalKey_def PutFixed64_def)

lemma length_InternalKey [simp]: "length (InternalKey u s t) = length u + 8"
  by (simp add: InternalKey_eq)

lemma InternalKey_simps [simp]:
  "ExtractUserKey (InternalKey u s t) = u" "key_num (InternalKey u s t) = PackSequenceAndType s t"
  by (simp_all add: InternalKey_eq)

lemma ParseInternalKey_InternalKey [codec_simps]:
  assumes "s \<le> kMaxSequenceNumber" "t \<le> 1"
  shows "ParseInternalKey (InternalKey u s t) = Some \<lparr> user_key = u, seqno = s, vtype = t \<rparr>"
  using assms
  by (simp add: ParseInternalKey_def Let_def pack_type pack_seq InternalKey_eq)

lemma unat_pack:
  assumes "s \<le> kMaxSequenceNumber"
  shows "unat (PackSequenceAndType s t) = unat s * 256 + unat t"
proof -
  have "unat s < 2 ^ 56"
    using assms by (rule unat_seq_less)
  moreover have "unat t < 256" using unat_lt2p [of t] by simp
  moreover have "PackSequenceAndType s t = push_bit 8 s + ucast t"
    unfolding PackSequenceAndType_def
    by (rule disjunctive_add_eq_or [symmetric], rule bit_word_eqI) (auto simp: bit_simps dest: bit_imp_le_length)
  ultimately show ?thesis
    by (simp add: push_bit_eq_mult unat_word_ariths unsigned_ucast_eq take_bit_eq_mod)
qed

section \<open>The laws of the internal comparator\<close>

definition internal_ok :: "(slice \<Rightarrow> bool) \<Rightarrow> slice \<Rightarrow> bool" where
  "internal_ok ok k \<longleftrightarrow> 8 \<le> length k \<and> ok (ExtractUserKey k)"

locale user_comparator = comparator_law cmp ok for cmp ok
begin

lemma internal_less_iff:
  "internal_Compare cmp a b < 0 \<longleftrightarrow>
   Compare cmp (ExtractUserKey a) (ExtractUserKey b) < 0 \<or>
   Compare cmp (ExtractUserKey a) (ExtractUserKey b) = 0 \<and> key_num b < key_num a"
  by (auto simp: internal_Compare_def Let_def)

lemma internal_le_iff:
  "internal_Compare cmp a b \<le> 0 \<longleftrightarrow>
   Compare cmp (ExtractUserKey a) (ExtractUserKey b) < 0 \<or>
   Compare cmp (ExtractUserKey a) (ExtractUserKey b) = 0 \<and> key_num b \<le> key_num a"
  by (auto simp: internal_Compare_def Let_def)

lemma internal_eq_iff:
  "internal_Compare cmp a b = 0 \<longleftrightarrow>
   Compare cmp (ExtractUserKey a) (ExtractUserKey b) = 0 \<and> key_num b = key_num a"
  by (auto simp: internal_Compare_def Let_def)

lemma internal_greater_iff:
  "internal_Compare cmp a b > 0 \<longleftrightarrow>
   Compare cmp (ExtractUserKey a) (ExtractUserKey b) > 0 \<or>
   Compare cmp (ExtractUserKey a) (ExtractUserKey b) = 0 \<and> key_num a < key_num b"
  by (auto simp: internal_Compare_def Let_def)

lemmas internal_iffs = internal_less_iff internal_le_iff internal_eq_iff internal_greater_iff

lemma internal_trans:
  assumes "ok (ExtractUserKey a)" "ok (ExtractUserKey b)" "ok (ExtractUserKey c)"
    and "internal_Compare cmp a b \<le> 0" "internal_Compare cmp b c \<le> 0"
  shows "internal_Compare cmp a c \<le> 0"
proof -
  let ?a = "ExtractUserKey a" and ?b = "ExtractUserKey b" and ?c = "ExtractUserKey c"
  note trans [OF assms(1-3)] less_le_trans [OF assms(1-3)] le_less_trans [OF assms(1-3)]
  then show ?thesis using assms(4,5) unfolding internal_le_iff
    by (smt (verit) order_trans)
qed

lemma internal_FindShortestSeparator_cases:
  assumes "ok (ExtractUserKey s)" "ok (ExtractUserKey l)"
  obtains "internal_FindShortestSeparator cmp s l = s"
  | t where "internal_FindShortestSeparator cmp s l =
        t @ EncodeFixed64 (PackSequenceAndType kMaxSequenceNumber kValueTypeForSeek)"
      "t = FindShortestSeparator cmp (ExtractUserKey s) (ExtractUserKey l)"
      "Compare cmp (ExtractUserKey s) t < 0" "ok t"
proof (cases "length (FindShortestSeparator cmp (ExtractUserKey s) (ExtractUserKey l)) < length (ExtractUserKey s) \<and>
    Compare cmp (ExtractUserKey s) (FindShortestSeparator cmp (ExtractUserKey s) (ExtractUserKey l)) < 0")
  case True
  with separator_ok [OF assms] show ?thesis
    by (intro that(2)) (auto simp: internal_FindShortestSeparator_def Let_def PutFixed64_def)
next
  case False
  then show ?thesis
    by (intro that(1)) (auto simp: internal_FindShortestSeparator_def Let_def)
qed

lemma internal_separator:
  assumes "ok (ExtractUserKey s)" "ok (ExtractUserKey l)" "internal_Compare cmp s l < 0"
  shows "internal_Compare cmp s (internal_FindShortestSeparator cmp s l) \<le> 0"
    and "internal_Compare cmp (internal_FindShortestSeparator cmp s l) l < 0"
proof -
  have "internal_Compare cmp s (internal_FindShortestSeparator cmp s l) \<le> 0 \<and>
      internal_Compare cmp (internal_FindShortestSeparator cmp s l) l < 0"
    using assms(1,2)
  proof (cases rule: internal_FindShortestSeparator_cases)
    case 1
    then show ?thesis using assms refl [OF assms(1)] by (simp add: internal_le_iff)
  next
    case (2 t)
    then have "Compare cmp (ExtractUserKey s) (ExtractUserKey l) \<noteq> 0"
      using separator_eq [OF assms(1,2)] by auto
    then have "Compare cmp (ExtractUserKey s) (ExtractUserKey l) < 0"
      using assms(3) by (simp add: internal_less_iff)
    then show ?thesis
      using 2 separator_less [OF assms(1,2)] by (simp add: internal_le_iff internal_less_iff)
  qed
  then show "internal_Compare cmp s (internal_FindShortestSeparator cmp s l) \<le> 0"
    and "internal_Compare cmp (internal_FindShortestSeparator cmp s l) l < 0" by auto
qed

end

sublocale user_comparator \<subseteq> internal: comparator_law "InternalKeyComparator cmp" "internal_ok ok"
proof
  fix a b c s l :: slice
  assume a: "internal_ok ok a"
  then show "Compare (InternalKeyComparator cmp) a a = 0"
    by (simp add: InternalKeyComparator_def internal_iffs internal_ok_def refl)
  show "internal_ok ok b \<Longrightarrow>
      Compare (InternalKeyComparator cmp) a b < 0 \<longleftrightarrow> Compare (InternalKeyComparator cmp) b a > 0"
    using a antisym [of "ExtractUserKey a" "ExtractUserKey b"] eq_sym [of "ExtractUserKey a" "ExtractUserKey b"]
    by (auto simp: InternalKeyComparator_def internal_iffs internal_ok_def)
  show "internal_ok ok b \<Longrightarrow> internal_ok ok c \<Longrightarrow> Compare (InternalKeyComparator cmp) a b \<le> 0 \<Longrightarrow>
      Compare (InternalKeyComparator cmp) b c \<le> 0 \<Longrightarrow> Compare (InternalKeyComparator cmp) a c \<le> 0"
    using a internal_trans [of a b c] by (simp add: InternalKeyComparator_def internal_ok_def)
next
  fix s l :: slice
  assume s: "internal_ok ok s"
  show "internal_ok ok (FindShortSuccessor (InternalKeyComparator cmp) s)"
    and "Compare (InternalKeyComparator cmp) s (FindShortSuccessor (InternalKeyComparator cmp) s) \<le> 0"
    using s successor_ok [of "ExtractUserKey s"] refl [of "ExtractUserKey s"]
    by (auto simp: InternalKeyComparator_def internal_FindShortSuccessor_def internal_ok_def Let_def
        PutFixed64_def internal_iffs)
  assume l: "internal_ok ok l"
  then have ok: "ok (ExtractUserKey s)" "ok (ExtractUserKey l)" using s by (simp_all add: internal_ok_def)
  show "internal_ok ok (FindShortestSeparator (InternalKeyComparator cmp) s l)"
    using s l ok by (cases rule: internal_FindShortestSeparator_cases [OF ok])
      (auto simp: InternalKeyComparator_def internal_ok_def)
  show "Compare (InternalKeyComparator cmp) s l < 0 \<Longrightarrow>
      Compare (InternalKeyComparator cmp) s (FindShortestSeparator (InternalKeyComparator cmp) s l) \<le> 0"
    and "Compare (InternalKeyComparator cmp) s l < 0 \<Longrightarrow>
      Compare (InternalKeyComparator cmp) (FindShortestSeparator (InternalKeyComparator cmp) s l) l < 0"
    using internal_separator [OF ok] by (simp_all add: InternalKeyComparator_def)
  assume "Compare (InternalKeyComparator cmp) s l = 0"
  then show "\<not> Compare (InternalKeyComparator cmp) s (FindShortestSeparator (InternalKeyComparator cmp) s l) < 0"
    using separator_eq [OF ok] refl [OF ok(1)]
    by (cases rule: internal_FindShortestSeparator_cases [OF ok])
       (auto simp: InternalKeyComparator_def internal_iffs)
qed

interpretation bytewise_user: user_comparator BytewiseComparator "\<lambda>_. True"
  by unfold_locales

text \<open>A filter policy on user keys gives one on internal keys.\<close>

locale user_policy = filter_policy policy admissible for policy admissible

sublocale user_policy \<subseteq> internal: filter_policy "InternalFilterPolicy policy" "\<lambda>ks. admissible (map ExtractUserKey ks)"
proof
  fix ks dst
  show "CreateFilter (InternalFilterPolicy policy) ks dst = dst @ CreateFilter (InternalFilterPolicy policy) ks []"
    using appends [of "map ExtractUserKey ks" dst] by (simp add: InternalFilterPolicy_def)
qed (auto simp: InternalFilterPolicy_def intro: no_false_negative)

interpretation bloom_user: user_policy "bloom_policy bits" "\<lambda>ks. bits < 2 ^ 31 \<and> length ks < 2 ^ 31" for bits
  by unfold_locales

interpretation wormhole_user: user_policy wormhole_policy "\<lambda>ks. length ks \<le> 2 ^ 30 \<and> all_inserted ks"
  by unfold_locales

section \<open>Properties\<close>

text \<open>C23. Appending an internal key and parsing it back gives the user key, the sequence number and the
  type, for every sequence number up to the maximum and both value types; the encoding is eight bytes
  longer than the user key.\<close>
theorem internal_key_roundtrip:
  assumes "s \<le> kMaxSequenceNumber" and "t \<le> kTypeValue"
  shows "AppendInternalKey dst \<lparr> user_key = u, seqno = s, vtype = t \<rparr> = dst @ InternalKey u s t \<and>
    ParseInternalKey (InternalKey u s t) = Some \<lparr> user_key = u, seqno = s, vtype = t \<rparr> \<and>
    length (InternalKey u s t) = InternalKeyEncodingLength \<lparr> user_key = u, seqno = s, vtype = t \<rparr>"
  using ParseInternalKey_InternalKey [OF assms, of u]
  by (simp add: InternalKeyEncodingLength_def AppendInternalKey_def InternalKey_eq PutFixed64_def)

theorem internal_key_roundtrip_witness:
  "ParseInternalKey (InternalKey [1, 2] 77 1) = Some \<lparr> user_key = [1, 2], seqno = 77, vtype = 1 \<rparr>"
  using internal_key_roundtrip [of 77 1 "[]" "[1, 2]"]
  by (simp add: kMaxSequenceNumber_def)

text \<open>C13. Internal keys over the byte-wise comparator are ordered by increasing user key, then by decreasing
  sequence number, then by decreasing type.\<close>
theorem internal_key_order:
  assumes "s \<le> kMaxSequenceNumber" and "s' \<le> kMaxSequenceNumber"
  shows "Compare (InternalKeyComparator BytewiseComparator) (InternalKey u s t) (InternalKey u' s' t') < 0 \<longleftrightarrow>
    Compare BytewiseComparator u u' < 0 \<or> u = u' \<and> (s' < s \<or> s' = s \<and> t' < t)"
proof -
  have "unat t < 256" "unat t' < 256" using unat_lt2p [of t] unat_lt2p [of t'] by simp_all
  moreover have "unat s = unat s' \<longleftrightarrow> s = s'" by (rule word_unat_eq_iff [symmetric])
  ultimately have "PackSequenceAndType s' t' < PackSequenceAndType s t \<longleftrightarrow> s' < s \<or> s' = s \<and> t' < t"
    unfolding word_less_unat unat_pack [OF assms(1)] unat_pack [OF assms(2)]
    by (cases "unat s" "unat s'" rule: linorder_cases) auto
  then show ?thesis
    by (auto simp: InternalKeyComparator_def bytewise_user.internal_less_iff bytewise_compare_eq)
qed

theorem internal_key_order_witness:
  "Compare (InternalKeyComparator BytewiseComparator) (InternalKey [1] 9 1) (InternalKey [1] 8 1) < 0"
  using internal_key_order [of 9 8 "[1]" 1 "[1]" 1]
  by (simp add: kMaxSequenceNumber_def)

text \<open>C12. The separator the internal comparator chooses between two keys start < limit of at least eight bytes
  is at least start and less than limit, and its successor of a key is at least the key: the index
  entries of a table made with them separate its blocks.\<close>
theorem internal_separator_between:
  assumes "8 \<le> length s" and "8 \<le> length l"
    and "Compare (InternalKeyComparator BytewiseComparator) s l < 0"
  shows "let c = InternalKeyComparator BytewiseComparator; m = FindShortestSeparator c s l in
    Compare c s m \<le> 0 \<and> Compare c m l < 0 \<and> 8 \<le> length m \<and>
    Compare c s (FindShortSuccessor c s) \<le> 0"
  using assms bytewise_user.internal.separator_ge [of s l] bytewise_user.internal.separator_less [of s l]
    bytewise_user.internal.separator_ok [of s l] bytewise_user.internal.successor_ge [of s]
  by (simp add: Let_def internal_ok_def)

theorem internal_separator_between_witness:
  "let c = InternalKeyComparator BytewiseComparator;
       m = FindShortestSeparator c (InternalKey [1,1,7,7] 5 1) (InternalKey [1,9] 6 1) in
   m = InternalKey [1,2] kMaxSequenceNumber 1 \<and> Compare c m (InternalKey [1,9] 6 1) < 0"
proof -
  let ?c = "InternalKeyComparator BytewiseComparator"
  have less: "Compare ?c (InternalKey [1,1,7,7] 5 1) (InternalKey [1,9] 6 1) < 0" by code_simp
  have "FindShortestSeparator ?c (InternalKey [1,1,7,7] 5 1) (InternalKey [1,9] 6 1)
      = InternalKey [1,2] kMaxSequenceNumber 1" by code_simp
  then show ?thesis
    using internal_separator_between [OF _ _ less] by (simp add: Let_def)
qed

text \<open>The two slices of a lookup key are what the memory table and the internal iterators expect: the
  memory-table key is the length-prefixed internal key of the user key at that sequence number with
  the type that sorts first.\<close>
theorem lookup_key_parts:
  assumes "length u + 8 < 2 ^ 32"
  shows "internal_key (new_LookupKey u s) = InternalKey u s kValueTypeForSeek \<and>
    lookup_user_key (new_LookupKey u s) = u \<and>
    GetLengthPrefixedSlice (memtable_key (new_LookupKey u s)) = Some (InternalKey u s kValueTypeForSeek, [])"
proof -
  have "memtable_key (new_LookupKey u s) = PutLengthPrefixedSlice [] (InternalKey u s kValueTypeForSeek)"
    by (simp add: memtable_key_def new_LookupKey_def Let_def PutLengthPrefixedSlice_def PutVarint32_def
        InternalKey_eq)
  then show ?thesis
    using assms GetLengthPrefixedSlice_Put [of "InternalKey u s kValueTypeForSeek" "[]"]
    by (simp add: internal_key_def lookup_user_key_def new_LookupKey_def Let_def InternalKey_eq)
qed

theorem lookup_key_parts_witness:
  "internal_key (new_LookupKey [3] 4) = InternalKey [3] 4 1"
  using lookup_key_parts [of "[3]" 4] by simp

end
