(* ===== verification/Filter_Block.thy ===== *)
theory Filter_Block
  imports Internal_Key
begin

text \<open>
  \<^verbatim>\<open>table/filter_block.cc\<close>: the builder collects the keys of the data blocks and generates one filter
  for each 2 KB of file offsets; the reader finds the filter of a block offset. The policy is
  any \<open>filter_policy\<close>. The reader returns \<open>None\<close> where C++ leaves the behaviour undefined: when it shifts by a byte of
  the file that is not below the width, and when it reads a word or takes a slice that is not in the contents.
\<close>

abbreviation (input) kFilterBaseLg :: nat where "kFilterBaseLg \<equiv> 11"
abbreviation (input) kFilterBase :: nat where "kFilterBase \<equiv> 2048"

record FilterBlockBuilder =
  fb_keys :: slice
  fb_start :: "nat list"
  fb_result :: slice
  fb_filter_offsets :: "u32 list"

definition new_FilterBlockBuilder :: FilterBlockBuilder where
  "new_FilterBlockBuilder = \<lparr> fb_keys = [], fb_start = [], fb_result = [], fb_filter_offsets = [] \<rparr>"

definition tmp_keys :: "slice \<Rightarrow> nat list \<Rightarrow> slice list" where
  "tmp_keys keys start =
     (let start' = start @ [length keys] in
      map (\<lambda>i. take (start' ! (i + 1) - start' ! i) (drop (start' ! i) keys)) [0..<length start])"

definition GenerateFilter :: "FilterPolicy \<Rightarrow> FilterBlockBuilder \<Rightarrow> FilterBlockBuilder" where
  "GenerateFilter policy b =
     (let num_keys = length (fb_start b);
          b1 = b\<lparr> fb_filter_offsets := fb_filter_offsets b @ [of_nat (length (fb_result b))] \<rparr>
      in if num_keys = 0 then b1
         else b1\<lparr> fb_result := CreateFilter policy (tmp_keys (fb_keys b) (fb_start b)) (fb_result b),
                  fb_keys := [], fb_start := [] \<rparr>)"

lemma GenerateFilter_offsets:
  "length (fb_filter_offsets (GenerateFilter policy b)) = Suc (length (fb_filter_offsets b))"
  by (simp add: GenerateFilter_def Let_def)

function StartBlock_loop :: "FilterPolicy \<Rightarrow> nat \<Rightarrow> FilterBlockBuilder \<Rightarrow> FilterBlockBuilder" where
  "StartBlock_loop policy filter_index b =
     (if filter_index > length (fb_filter_offsets b)
      then StartBlock_loop policy filter_index (GenerateFilter policy b) else b)"
  by pat_completeness auto
termination
  by (relation "measure (\<lambda>(_, n, b). n - length (fb_filter_offsets b))") (auto simp: GenerateFilter_offsets)

declare StartBlock_loop.simps [simp del]

definition StartBlock :: "FilterPolicy \<Rightarrow> FilterBlockBuilder \<Rightarrow> u64 \<Rightarrow> FilterBlockBuilder" where
  "StartBlock policy b block_offset = StartBlock_loop policy (unat (block_offset div 2048)) b"

definition AddKey :: "FilterBlockBuilder \<Rightarrow> slice \<Rightarrow> FilterBlockBuilder" where
  "AddKey b key = b\<lparr> fb_start := fb_start b @ [length (fb_keys b)], fb_keys := fb_keys b @ key \<rparr>"

definition Finish :: "FilterPolicy \<Rightarrow> FilterBlockBuilder \<Rightarrow> FilterBlockBuilder \<times> slice" where
  "Finish policy b =
     (let b1 = (if fb_start b \<noteq> [] then GenerateFilter policy b else b);
          array_offset = of_nat (length (fb_result b1)) :: u32;
          r1 = foldl PutFixed32 (fb_result b1) (fb_filter_offsets b1);
          r2 = PutFixed32 r1 array_offset @ [of_nat kFilterBaseLg]
      in (b1\<lparr> fb_result := r2 \<rparr>, r2))"

record FilterBlockReader =
  fr_data :: slice
  fr_offset :: nat
  fr_num :: nat
  fr_base_lg :: nat

text \<open>A \<^verbatim>\<open>char\<close> converted to \<^verbatim>\<open>size_t\<close> is sign extended.\<close>

definition char_to_size :: "byte \<Rightarrow> nat" where
  "char_to_size c = (if c < 128 then unat c else 2 ^ 64 - 256 + unat c)"

definition new_FilterBlockReader :: "slice \<Rightarrow> FilterBlockReader" where
  "new_FilterBlockReader contents =
     (let n = length contents;
          r = \<lparr> fr_data = [], fr_offset = 0, fr_num = 0, fr_base_lg = 0 \<rparr>
      in if n < 5 then r
         else let r1 = r\<lparr> fr_base_lg := char_to_size (contents ! (n - 1)) \<rparr>;
                  last_word = unat (DecodeFixed32 (drop (n - 5) contents))
              in if last_word > n - 5 then r1
                 else r1\<lparr> fr_data := contents, fr_offset := last_word,
                          fr_num := (n - 5 - last_word) div 4 \<rparr>)"

text \<open>The word at a position and the bytes from a position, which must lie in the contents.\<close>

definition fr_word :: "FilterBlockReader \<Rightarrow> nat \<Rightarrow> u32 option" where
  "fr_word r p = (if p + 4 \<le> length (fr_data r) then Some (DecodeFixed32 (drop p (fr_data r))) else None)"

definition fr_slice :: "FilterBlockReader \<Rightarrow> nat \<Rightarrow> nat \<Rightarrow> slice option" where
  "fr_slice r p n = (if p + n \<le> length (fr_data r) then Some (take n (drop p (fr_data r))) else None)"

definition FilterBlock_KeyMayMatch :: "FilterPolicy \<Rightarrow> FilterBlockReader \<Rightarrow> u64 \<Rightarrow> slice \<Rightarrow> bool option" where
  "FilterBlock_KeyMayMatch policy r block_offset key =
     (if 64 \<le> fr_base_lg r then None
      else let index = unat (drop_bit (fr_base_lg r) block_offset) in
        if index < fr_num r then
          (case (fr_word r (fr_offset r + index * 4), fr_word r (fr_offset r + index * 4 + 4)) of
             (Some start, Some limit) \<Rightarrow>
               if start \<le> limit \<and> unat limit \<le> fr_offset r
               then map_option (KeyMayMatch policy key) (fr_slice r (unat start) (unat (limit - start)))
               else if start = limit then Some False
               else Some True
           | _ \<Rightarrow> None)
        else Some True)"

text \<open>The calls a table builder makes: for each data block its offset and the keys added to it.\<close>

definition add_block :: "FilterPolicy \<Rightarrow> u64 \<times> slice list \<Rightarrow> FilterBlockBuilder \<Rightarrow> FilterBlockBuilder" where
  "add_block policy blk b = foldl AddKey (StartBlock policy b (fst blk)) (snd blk)"

definition build_filter_block :: "FilterPolicy \<Rightarrow> (u64 \<times> slice list) list \<Rightarrow> slice" where
  "build_filter_block policy blocks = snd (Finish policy (fold (add_block policy) blocks new_FilterBlockBuilder))"

section \<open>What the builder computes\<close>

text \<open>
  The specification of the builder: the key lists of the filters made so far, and the keys collected
  since.
\<close>

type_synonym fb_spec = "slice list list \<times> slice list"

definition spec_start :: "nat \<Rightarrow> fb_spec \<Rightarrow> fb_spec" where
  "spec_start n a =
     (if n > length (fst a) then (fst a @ snd a # replicate (n - length (fst a) - 1) [], []) else a)"

definition spec_block :: "u64 \<times> slice list \<Rightarrow> fb_spec \<Rightarrow> fb_spec" where
  "spec_block blk a = apsnd (\<lambda>opn. opn @ snd blk) (spec_start (unat (fst blk) div kFilterBase) a)"

definition spec_finish :: "fb_spec \<Rightarrow> slice list list" where
  "spec_finish a = (if snd a \<noteq> [] then fst a @ [snd a] else fst a)"

definition key_groups :: "(u64 \<times> slice list) list \<Rightarrow> slice list list" where
  "key_groups blocks = spec_finish (fold spec_block blocks ([], []))"

definition group_filter :: "FilterPolicy \<Rightarrow> slice list \<Rightarrow> slice" where
  "group_filter policy ks = (if ks = [] then [] else CreateFilter policy ks [])"

definition filters_data :: "FilterPolicy \<Rightarrow> slice list list \<Rightarrow> slice" where
  "filters_data policy gs = concat (map (group_filter policy) gs)"

definition group_start :: "FilterPolicy \<Rightarrow> slice list list \<Rightarrow> nat \<Rightarrow> nat" where
  "group_start policy gs i = length (filters_data policy (take i gs))"

definition fb_abs :: "FilterPolicy \<Rightarrow> FilterBlockBuilder \<Rightarrow> fb_spec \<Rightarrow> bool" where
  "fb_abs policy b a \<longleftrightarrow>
     fb_keys b = concat (snd a) \<and>
     fb_start b = map (\<lambda>i. length (concat (take i (snd a)))) [0..<length (snd a)] \<and>
     fb_result b = filters_data policy (fst a) \<and>
     fb_filter_offsets b = map (\<lambda>i. of_nat (group_start policy (fst a) i)) [0..<length (fst a)]"

lemma group_start_append [simp]: "i \<le> length gs \<Longrightarrow> group_start policy (gs @ hs) i = group_start policy gs i"
  by (simp add: group_start_def)

lemma tmp_keys_concat:
  "tmp_keys (concat ks) (map (\<lambda>i. length (concat (take i ks))) [0..<length ks]) = ks"
proof (rule nth_equalityI)
  show len: "length (tmp_keys (concat ks) (map (\<lambda>i. length (concat (take i ks))) [0..<length ks])) = length ks"
    by (simp add: tmp_keys_def Let_def)
  fix i assume "i < length (tmp_keys (concat ks) (map (\<lambda>i. length (concat (take i ks))) [0..<length ks]))"
  then have i: "i < length ks" by (simp add: len)
  define st where "st = map (\<lambda>i. length (concat (take i ks))) [0..<length ks] @ [length (concat ks)]"
  have st: "st ! j = length (concat (take j ks))" if "j \<le> length ks" for j
    using that by (auto simp: st_def nth_append)
  have "concat ks = concat (take i ks) @ ks ! i @ concat (drop (Suc i) ks)"
    using i by (metis concat.simps(2) concat_append id_take_nth_drop)
  moreover have "length (concat (take (Suc i) ks)) = length (concat (take i ks)) + length (ks ! i)"
    using i by (simp add: take_Suc_conv_app_nth)
  ultimately have "take (length (concat (take (Suc i) ks)) - length (concat (take i ks)))
      (drop (length (concat (take i ks))) (concat ks)) = ks ! i" by simp
  then show "tmp_keys (concat ks) (map (\<lambda>i. length (concat (take i ks))) [0..<length ks]) ! i = ks ! i"
    using i st [of i] st [of "Suc i"] by (simp add: tmp_keys_def Let_def st_def [symmetric] del: length_concat)
qed

lemma fb_abs_AddKey [inv_intros]:
  "fb_abs policy b a \<Longrightarrow> fb_abs policy (AddKey b k) (fst a, snd a @ [k])"
  by (auto simp: fb_abs_def AddKey_def)

lemma fb_abs_AddKeys:
  "fb_abs policy b a \<Longrightarrow> fb_abs policy (foldl AddKey b ks) (fst a, snd a @ ks)"
proof (induction ks arbitrary: b a)
  case (Cons k ks)
  then show ?case using Cons.IH [OF fb_abs_AddKey [OF Cons.prems], of k] by simp
qed simp

lemma fb_abs_new: "fb_abs policy new_FilterBlockBuilder ([], [])"
  by (simp add: fb_abs_def new_FilterBlockBuilder_def filters_data_def)

text \<open>The clients of a filter policy.\<close>

locale filter_block = filter_policy policy admissible for policy admissible
begin

lemma fb_abs_GenerateFilter [inv_intros]:
  assumes "fb_abs policy b a"
  shows "fb_abs policy (GenerateFilter policy b) (fst a @ [snd a], [])"
proof -
  have k: "tmp_keys (fb_keys b) (fb_start b) = snd a" "length (fb_start b) = length (snd a)"
    using assms by (simp_all add: fb_abs_def tmp_keys_concat)
  have g: "group_start policy (fst a @ [snd a]) (length (fst a)) = length (filters_data policy (fst a))"
    by (simp add: group_start_def)
  have m: "map (\<lambda>i. of_nat (group_start policy (fst a @ [snd a]) i) :: u32) [0..<length (fst a)]
      = map (\<lambda>i. of_nat (group_start policy (fst a) i)) [0..<length (fst a)]"
    by simp
  show ?thesis
  proof (cases "snd a = []")
    case True
    then show ?thesis using assms k g m
      by (auto simp: fb_abs_def GenerateFilter_def Let_def filters_data_def group_filter_def)
  next
    case False
    then show ?thesis using assms k g m appends [of "snd a" "fb_result b"]
      by (auto simp: fb_abs_def GenerateFilter_def Let_def filters_data_def group_filter_def)
  qed
qed

lemma fb_abs_StartBlock_loop:
  "fb_abs policy b a \<Longrightarrow> fb_abs policy (StartBlock_loop policy n b) (spec_start n a)"
proof (induction "n - length (fst a)" arbitrary: b a rule: less_induct)
  case (less a b)
  have len: "length (fb_filter_offsets b) = length (fst a)" using less.prems by (simp add: fb_abs_def)
  show ?case
  proof (cases "n > length (fst a)")
    case True
    have "fb_abs policy (StartBlock_loop policy n (GenerateFilter policy b)) (spec_start n (fst a @ [snd a], []))"
      using True by (intro less.hyps fb_abs_GenerateFilter less.prems) simp
    moreover have "spec_start n (fst a @ [snd a], []) = spec_start n a"
    proof (cases "n > Suc (length (fst a))")
      case True
      then obtain m where "n = Suc (Suc (length (fst a) + m))" by (metis less_imp_Suc_add add_Suc)
      then show ?thesis by (simp add: spec_start_def)
    qed (use True in \<open>auto simp: spec_start_def not_less_eq\<close>)
    ultimately show ?thesis using True len by (subst StartBlock_loop.simps) simp
  next
    case False
    then show ?thesis using less.prems len by (subst StartBlock_loop.simps) (simp add: spec_start_def)
  qed
qed

lemma fb_abs_add_block [inv_intros]:
  "fb_abs policy b a \<Longrightarrow> fb_abs policy (add_block policy blk b) (spec_block blk a)"
  using fb_abs_AddKeys [OF fb_abs_StartBlock_loop]
  by (simp add: add_block_def StartBlock_def spec_block_def apsnd_def map_prod_def split_beta unat_div)

lemma fb_abs_blocks:
  "fb_abs policy b a \<Longrightarrow> fb_abs policy (fold (add_block policy) blocks b) (fold spec_block blocks a)"
  by (induction blocks arbitrary: b a) (simp_all add: fb_abs_add_block)

lemma finish_contents:
  assumes "fb_abs policy b a"
  defines "gs \<equiv> spec_finish a"
  shows "snd (Finish policy b) = filters_data policy gs @
    concat (map EncodeFixed32 (map (\<lambda>i. of_nat (group_start policy gs i)) [0..<length gs + 1])) @ [11]"
proof -
  define b1 where "b1 = (if fb_start b \<noteq> [] then GenerateFilter policy b else b)"
  have "fb_start b \<noteq> [] \<longleftrightarrow> snd a \<noteq> []" using assms(1) by (auto simp: fb_abs_def)
  then have "\<exists>opn. fb_abs policy b1 (gs, opn)"
    using assms(1) fb_abs_GenerateFilter [OF assms(1)] unfolding b1_def gs_def spec_finish_def
    by (cases "snd a = []"; cases a) auto
  then have b1: "fb_result b1 = filters_data policy gs"
    "fb_filter_offsets b1 = map (\<lambda>i. of_nat (group_start policy gs i)) [0..<length gs]"
    by (auto simp: fb_abs_def)
  have "group_start policy gs (length gs) = length (filters_data policy gs)" by (simp add: group_start_def)
  moreover have "foldl PutFixed32 r xs = r @ concat (map EncodeFixed32 xs)" for r xs
    by (induction xs arbitrary: r) (simp_all add: PutFixed32_def)
  ultimately show ?thesis
    by (simp add: Finish_def Let_def b1_def [symmetric] b1 PutFixed32_def)
qed

lemma build_filter_block_contents:
  "build_filter_block policy blocks = filters_data policy (key_groups blocks) @
     concat (map EncodeFixed32 (map (\<lambda>i. of_nat (group_start policy (key_groups blocks) i))
       [0..<length (key_groups blocks) + 1])) @ [11]"
  unfolding build_filter_block_def key_groups_def
  by (rule finish_contents [OF fb_abs_blocks [OF fb_abs_new]])

end

section \<open>The reader\<close>

lemma reader_of_contents:
  assumes "length d < 2 ^ 32" "os \<noteq> []" "last os = of_nat (length d)"
  defines "c \<equiv> d @ concat (map EncodeFixed32 os) @ [11]"
  shows "new_FilterBlockReader c =
    \<lparr> fr_data = c, fr_offset = length d, fr_num = length os - 1, fr_base_lg = 11 \<rparr>"
proof -
  have os: "os = butlast os @ [of_nat (length d)]" using assms(2,3) by (metis append_butlast_last_id)
  have len: "length c = length d + 4 * length os + 1" by (simp add: c_def)
  have n: "0 < length os" using assms(2) by simp
  have "drop (length c - 5) c = EncodeFixed32 (of_nat (length d)) @ [11]"
  proof -
    have "length c - 5 = length (d @ concat (map EncodeFixed32 (butlast os)))" using len n by (cases os) simp_all
    moreover have "c = (d @ concat (map EncodeFixed32 (butlast os))) @ EncodeFixed32 (of_nat (length d)) @ [11]"
      unfolding c_def by (subst os) simp
    ultimately show ?thesis by (metis append_eq_conv_conj)
  qed
  then have w: "unat (DecodeFixed32 (drop (length c - 5) c)) = length d"
    using assms(1) by (simp add: codec_simps unat_of_nat_small)
  have l: "c ! (length c - 1) = 11" by (simp add: c_def nth_append)
  obtain m where m: "length os = Suc m" using n by (cases "length os") auto
  show ?thesis
    using w l len unfolding m by (simp add: new_FilterBlockReader_def Let_def char_to_size_def)
qed

lemma group_start_mono: "i \<le> j \<Longrightarrow> group_start policy gs i \<le> group_start policy gs j"
  by (metis group_start_def filters_data_def length_append map_append concat_append le_add1 le_Suc_ex take_add)

lemma group_start_Suc:
  "i < length gs \<Longrightarrow> group_start policy gs (Suc i) = group_start policy gs i + length (group_filter policy (gs ! i))"
  by (simp add: group_start_def filters_data_def take_Suc_conv_app_nth)

lemma group_slice:
  assumes "i < length gs"
  shows "take (length (group_filter policy (gs ! i))) (drop (group_start policy gs i) (filters_data policy gs @ r))
    = group_filter policy (gs ! i)"
proof -
  have "filters_data policy gs = filters_data policy (take i gs) @ group_filter policy (gs ! i) @
      filters_data policy (drop (Suc i) gs)"
    using assms unfolding filters_data_def by (metis concat_append map_append list.simps(9) id_take_nth_drop concat.simps(2))
  then show ?thesis by (simp add: group_start_def)
qed

lemma reader_group:
  fixes off :: u64
  defines "i \<equiv> unat off div 2048"
  assumes "length (filters_data policy gs) < 2 ^ 32" "i < length gs"
  shows "FilterBlock_KeyMayMatch policy (new_FilterBlockReader (filters_data policy gs @
      concat (map EncodeFixed32 (map (\<lambda>i. of_nat (group_start policy gs i)) [0..<length gs + 1])) @ [11])) off k
    = Some (KeyMayMatch policy k (group_filter policy (gs ! i)))"
proof -
  define os where "os = map (\<lambda>i. of_nat (group_start policy gs i) :: u32) [0..<length gs + 1]"
  define c where "c = filters_data policy gs @ concat (map EncodeFixed32 os) @ [11]"
  have all: "group_start policy gs (length gs) = length (filters_data policy gs)" by (simp add: group_start_def)
  have r: "new_FilterBlockReader c =
      \<lparr> fr_data = c, fr_offset = length (filters_data policy gs), fr_num = length gs, fr_base_lg = 11 \<rparr>"
    using reader_of_contents [of "filters_data policy gs" os] assms(2) all by (simp add: c_def os_def)
  have rd: "unat (DecodeFixed32 (drop (length (filters_data policy gs) + j * 4) c)) = group_start policy gs j"
    if "j \<le> length gs" for j
  proof -
    have "drop (length (filters_data policy gs) + j * 4) c = drop (4 * j) (concat (map EncodeFixed32 os) @ [11])"
      by (simp add: c_def mult.commute)
    then have "DecodeFixed32 (drop (length (filters_data policy gs) + j * 4) c) = of_nat (group_start policy gs j)"
      using that concat_EncodeFixed32_drop [of j os "[11]"] by (simp add: codec_simps os_def del: upt_Suc)
    moreover have "group_start policy gs j < 2 ^ 32"
      using group_start_mono [of j "length gs" policy gs] that all assms(2) by simp
    ultimately show ?thesis by (simp add: unat_of_nat_small)
  qed
  have idx: "unat (drop_bit 11 off) = i" by (simp add: i_def unat_drop_bit)
  have rd1: "unat (DecodeFixed32 (drop (length (filters_data policy gs) + i * 4 + 4) c)) = group_start policy gs (Suc i)"
    using rd [of "Suc i"] assms(3) by (simp add: algebra_simps)
  have sl: "group_start policy gs i \<le> group_start policy gs (Suc i)"
    "group_start policy gs (Suc i) \<le> length (filters_data policy gs)"
    using group_start_mono [of i "Suc i" policy gs] group_start_mono [of "Suc i" "length gs" policy gs] assms(3) all by simp_all
  moreover have "length c = length (filters_data policy gs) + 4 * length os + 1" "length os = length gs + 1"
    by (simp add: c_def) (simp add: os_def)
  ultimately have "FilterBlock_KeyMayMatch policy (new_FilterBlockReader c) off k =
      Some (KeyMayMatch policy k (take (group_start policy gs (Suc i) - group_start policy gs i) (drop (group_start policy gs i) c)))"
    using rd [of i] rd1 assms(3) idx
    by (simp add: FilterBlock_KeyMayMatch_def fr_word_def fr_slice_def r Let_def word_le_nat_alt unat_sub)
  then show ?thesis
    using group_slice [OF assms(3), of policy "concat (map EncodeFixed32 os) @ [11]"]
      group_start_Suc [OF assms(3), of policy] unfolding c_def os_def by simp
qed

section \<open>The reader of any contents\<close>

lemma char_to_size_64: "64 \<le> char_to_size c \<longleftrightarrow> 64 \<le> c"
  using word_le_nat_alt [of 64 c] word_less_unat [of c 128] by (auto simp: char_to_size_def)

lemma reader_fields:
  assumes "fr_num (new_FilterBlockReader contents) \<noteq> 0"
  defines "r \<equiv> new_FilterBlockReader contents"
  shows "5 \<le> length contents" "fr_data r = contents" "fr_offset r \<le> length contents - 5"
    "fr_num r = (length contents - 5 - fr_offset r) div 4" "fr_base_lg r = char_to_size (contents ! (length contents - 1))"
  using assms by (auto simp: new_FilterBlockReader_def Let_def split: if_splits)

lemma reader_words:
  assumes "5 \<le> length contents" "fr_data r = contents" "fr_offset r \<le> length contents - 5"
    "fr_num r = (length contents - 5 - fr_offset r) div 4" "index < fr_num r"
  shows "fr_word r (fr_offset r + index * 4) \<noteq> None" "fr_word r (fr_offset r + index * 4 + 4) \<noteq> None"
proof -
  have "index * 4 + 4 \<le> length contents - 5 - fr_offset r" using assms(4,5) by linarith
  then have "fr_offset r + index * 4 + 8 \<le> length contents" using assms(1,3) by linarith
  then show "fr_word r (fr_offset r + index * 4) \<noteq> None" "fr_word r (fr_offset r + index * 4 + 4) \<noteq> None"
    by (simp_all add: fr_word_def assms(2))
qed

lemma reader_slice:
  assumes "5 \<le> length contents" "fr_data r = contents" "fr_offset r \<le> length contents - 5"
    "start \<le> limit" "unat limit \<le> fr_offset r"
  shows "fr_slice r (unat start) (unat (limit - start)) \<noteq> None"
  using assms by (simp add: fr_slice_def unat_sub word_le_nat_alt)

section \<open>Every added key is in the group of its offset\<close>

text \<open>The keys of the blocks so far, each in the group of its block.\<close>

definition grouped :: "(u64 \<times> slice list) list \<Rightarrow> fb_spec \<Rightarrow> bool" where
  "grouped blks a \<longleftrightarrow>
     (\<forall>(off, ks) \<in> set blks. \<forall>k \<in> set ks. let i = unat off div kFilterBase in
        i < length (fst a) \<and> k \<in> set (fst a ! i) \<or> i = length (fst a) \<and> k \<in> set (snd a))"

lemma grouped_start:
  assumes "grouped blks a"
  shows "grouped blks (spec_start n a)"
  using assms unfolding grouped_def spec_start_def
  by (fastforce simp: Let_def nth_append split: if_splits)

lemma grouped_block:
  assumes "grouped blks a" "length (fst a) \<le> unat (fst blk) div kFilterBase"
  shows "grouped (blks @ [blk]) (spec_block blk a)"
    and "length (fst (spec_block blk a)) = unat (fst blk) div kFilterBase"
proof -
  show len: "length (fst (spec_block blk a)) = unat (fst blk) div kFilterBase"
    using assms(2) by (auto simp: spec_block_def spec_start_def)
  have "grouped blks (spec_block blk a)"
    using grouped_start [OF assms(1), of "unat (fst blk) div kFilterBase"]
    unfolding grouped_def spec_block_def by (fastforce simp: Let_def)
  moreover have "set (snd blk) \<subseteq> set (snd (spec_block blk a))" by (simp add: spec_block_def)
  ultimately show "grouped (blks @ [blk]) (spec_block blk a)"
    using len unfolding grouped_def by (auto simp: Let_def split: prod.splits)
qed

lemma grouped_blocks:
  assumes "sorted (map fst blocks)"
  shows "grouped blocks (fold spec_block blocks ([], [])) \<and>
    (blocks \<noteq> [] \<longrightarrow> length (fst (fold spec_block blocks ([], []))) = unat (fst (last blocks)) div kFilterBase)"
  using assms
proof (induction blocks rule: rev_induct)
  case (snoc blk blocks)
  let ?a = "fold spec_block blocks ([], [])"
  have IH: "grouped blocks ?a"
    "blocks \<noteq> [] \<longrightarrow> length (fst ?a) = unat (fst (last blocks)) div kFilterBase"
    using snoc by (simp_all add: sorted_append)
  have "fst (last blocks) \<le> fst blk" if "blocks \<noteq> []" using snoc.prems that by (simp add: sorted_append)
  then have "length (fst ?a) \<le> unat (fst blk) div kFilterBase"
    using IH(2) by (cases "blocks = []") (auto simp: word_le_nat_alt div_le_mono)
  from grouped_block [OF IH(1) this] show ?case by simp
qed (simp add: grouped_def)

lemma key_groups_in:
  assumes "sorted (map fst blocks)" "(off, ks) \<in> set blocks" "k \<in> set ks"
  shows "unat off div kFilterBase < length (key_groups blocks) \<and>
    k \<in> set (key_groups blocks ! (unat off div kFilterBase))"
  using grouped_blocks [OF assms(1)] assms(2,3)
  unfolding grouped_def key_groups_def spec_finish_def by (fastforce simp: Let_def nth_append)

context filter_block
begin

lemma filter_block_match:
  assumes "sorted (map fst blocks)" "(off, ks) \<in> set blocks" "k \<in> set ks"
    and "\<forall>g \<in> set (key_groups blocks). g \<noteq> [] \<longrightarrow> admissible g"
    and "length (filters_data policy (key_groups blocks)) < 2 ^ 32"
  shows "FilterBlock_KeyMayMatch policy (new_FilterBlockReader (build_filter_block policy blocks)) off k = Some True"
proof -
  let ?g = "key_groups blocks ! (unat off div kFilterBase)"
  note g = key_groups_in [OF assms(1-3)]
  have "?g \<in> set (key_groups blocks)" "?g \<noteq> []" using g by auto
  then have "?g \<noteq> []" "admissible ?g" using assms(4) by blast+
  then have "KeyMayMatch policy k (group_filter policy ?g)"
    using g no_false_negative by (simp add: group_filter_def)
  then show ?thesis using reader_group [OF assms(5)] g by (simp add: build_filter_block_contents)
qed

end

interpretation bloom_block: filter_block "InternalFilterPolicy (bloom_policy bits)"
    "\<lambda>ks. bits < 2 ^ 31 \<and> length (map ExtractUserKey ks) < 2 ^ 31" for bits
  by unfold_locales

interpretation wormhole_block: filter_block "InternalFilterPolicy wormhole_policy"
    "\<lambda>ks. length (map ExtractUserKey ks) \<le> 2 ^ 30 \<and> all_inserted (map ExtractUserKey ks)"
  by unfold_locales

section \<open>Properties\<close>

lemma key_groups_concat: "concat (key_groups blocks) = concat (map snd blocks)"
proof -
  have "concat (fst (spec_start n a)) @ concat [snd (spec_start n a)] = concat (fst a) @ snd a" for n a
    by (auto simp: spec_start_def)
  then have "concat (fst (spec_block blk a)) @ snd (spec_block blk a) = concat (fst a) @ snd a @ snd blk" for blk a
    by (simp add: spec_block_def)
  then have "concat (fst (fold spec_block blocks a)) @ snd (fold spec_block blocks a)
      = concat (fst a) @ snd a @ concat (map snd blocks)" for a
    by (induction blocks arbitrary: a) simp_all
  from this [of "([], [])"] show ?thesis by (auto simp: key_groups_def spec_finish_def)
qed

lemma length_key_group:
  assumes "g \<in> set (key_groups blocks)"
  shows "length g \<le> length (concat (map snd blocks))"
proof -
  from assms obtain xs ys where "key_groups blocks = xs @ g # ys" by (auto simp: in_set_conv_decomp)
  then show ?thesis unfolding key_groups_concat [symmetric] by simp
qed

lemma sum_list_le_mult:
  "(\<And>x. x \<in> set xs \<Longrightarrow> f x \<le> (n :: nat)) \<Longrightarrow> sum_list (map f xs) \<le> length xs * n"
  by (induction xs) (fastforce simp: add_mono)+

text \<open>C10. Filter block: after the keys of blocks with non-decreasing offsets were added and the
  block was finished, the reader of its contents answers that the key may match, for every key that was added to
  a block, asked with the offset of that block. Stated for the Bloom policy on internal keys, fewer than 2^31
  keys and filters of less than 4 GB in total.\<close>
theorem filter_block_no_false_negative:
  assumes "sorted (map fst blocks)" and "(off, ks) \<in> set blocks" and "k \<in> set ks"
    and "bits < 2 ^ 31" and "length (concat (map snd blocks)) < 2 ^ 31"
    and "length (filters_data (InternalFilterPolicy (bloom_policy bits)) (key_groups blocks)) < 2 ^ 32"
  shows "FilterBlock_KeyMayMatch (InternalFilterPolicy (bloom_policy bits))
      (new_FilterBlockReader (build_filter_block (InternalFilterPolicy (bloom_policy bits)) blocks)) off k = Some True"
proof -
  have "length g < 2 ^ 31" if "g \<in> set (key_groups blocks)" for g
    using length_key_group [OF that] assms(5) by linarith
  then show ?thesis by (intro bloom_block.filter_block_match [OF assms(1-3) _ assms(6)]) (use assms(4) in simp)
qed

theorem filter_block_no_false_negative_witness:
  "FilterBlock_KeyMayMatch (InternalFilterPolicy (bloom_policy 10)) (new_FilterBlockReader
     (build_filter_block (InternalFilterPolicy (bloom_policy 10))
       [(0, [InternalKey [1] 5 1]), (5000, [InternalKey [2] 6 1, InternalKey [3] 7 0])]))
     5000 (InternalKey [3] 7 0) = Some True"
proof -
  let ?bs = "[(0, [InternalKey [1] 5 1]), (5000, [InternalKey [2] 6 1, InternalKey [3] 7 0])] :: (u64 \<times> slice list) list"
  have g: "key_groups ?bs = [[InternalKey [1] 5 1], [], [InternalKey [2] 6 1, InternalKey [3] 7 0]]"
    by (simp add: key_groups_def spec_block_def spec_start_def spec_finish_def)
  have "length (filters_data (InternalFilterPolicy (bloom_policy 10)) (key_groups ?bs)) = 18"
    unfolding g by (simp add: filters_data_def group_filter_def InternalFilterPolicy_def bloom_policy_def bloom_filter_shape)
  then have "length (filters_data (InternalFilterPolicy (bloom_policy 10)) (key_groups ?bs)) < 2 ^ 32" by simp
  from filter_block_no_false_negative [OF _ _ _ _ _ this, of 5000 "[InternalKey [2] 6 1, InternalKey [3] 7 0]" "InternalKey [3] 7 0"]
  show ?thesis by simp
qed

text \<open>C11. The same for the wormhole policy when no 2 KB group of offsets has more than 51 keys and
  there are fewer than 2^24 groups.\<close>
theorem wormhole_filter_block_no_false_negative:
  assumes "sorted (map fst blocks)" and "(off, ks) \<in> set blocks" and "k \<in> set ks"
    and "\<forall>g \<in> set (key_groups blocks). length g \<le> 51"
    and "length (key_groups blocks) < 2 ^ 24"
  shows "FilterBlock_KeyMayMatch (InternalFilterPolicy wormhole_policy)
      (new_FilterBlockReader (build_filter_block (InternalFilterPolicy wormhole_policy) blocks)) off k = Some True"
proof -
  have "length (map ExtractUserKey g) \<le> 2 ^ 30 \<and> all_inserted (map ExtractUserKey g)"
    if "g \<in> set (key_groups blocks)" for g
    using all_inserted_small [of "map ExtractUserKey g"] assms(4) that by fastforce
  moreover have "length (group_filter (InternalFilterPolicy wormhole_policy) g) \<le> 136"
    if "g \<in> set (key_groups blocks)" for g
    using wormhole_filter_length [of "map ExtractUserKey g"] assms(4) that
    by (simp add: group_filter_def InternalFilterPolicy_def)
  then have "length (filters_data (InternalFilterPolicy wormhole_policy) (key_groups blocks)) \<le> length (key_groups blocks) * 136"
    using sum_list_le_mult [of "key_groups blocks" "\<lambda>g. length (group_filter (InternalFilterPolicy wormhole_policy) g)" 136]
    by (simp add: filters_data_def length_concat comp_def)
  then have "length (filters_data (InternalFilterPolicy wormhole_policy) (key_groups blocks)) < 2 ^ 32"
    using assms(5) by simp
  ultimately show ?thesis by (intro wormhole_block.filter_block_match [OF assms(1-3)]) simp_all
qed

theorem wormhole_filter_block_no_false_negative_witness:
  "FilterBlock_KeyMayMatch (InternalFilterPolicy wormhole_policy) (new_FilterBlockReader
     (build_filter_block (InternalFilterPolicy wormhole_policy)
       [(0, [InternalKey [1] 5 1]), (5000, [InternalKey [2] 6 1, InternalKey [3] 7 0])]))
     5000 (InternalKey [3] 7 0) = Some True"
proof -
  let ?bs = "[(0, [InternalKey [1] 5 1]), (5000, [InternalKey [2] 6 1, InternalKey [3] 7 0])] :: (u64 \<times> slice list) list"
  have g: "key_groups ?bs = [[InternalKey [1] 5 1], [], [InternalKey [2] 6 1, InternalKey [3] 7 0]]"
    by (simp add: key_groups_def spec_block_def spec_start_def spec_finish_def)
  from wormhole_filter_block_no_false_negative [of ?bs 5000 "[InternalKey [2] 6 1, InternalKey [3] 7 0]" "InternalKey [3] 7 0"]
  show ?thesis by (simp add: g)
qed

text \<open>C25. Whatever the contents of a filter block, the reader made of them stays inside them: for every block offset and key it
  reads both words of the offset array and the filter it hands to the policy from the contents. It answers unless the
  contents have five bytes or more and the last one is 64 or more, when the shift is undefined.\<close>
theorem filter_reader_in_bounds:
  "FilterBlock_KeyMayMatch policy (new_FilterBlockReader contents) off k = None \<longleftrightarrow>
     5 \<le> length contents \<and> 64 \<le> contents ! (length contents - 1)"
proof (cases "fr_num (new_FilterBlockReader contents) = 0")
  case True
  then show ?thesis
    by (auto simp: FilterBlock_KeyMayMatch_def new_FilterBlockReader_def Let_def char_to_size_64 split: if_splits)
next
  case False
  define r where "r = new_FilterBlockReader contents"
  note n = reader_fields [OF False, folded r_def]
  have "FilterBlock_KeyMayMatch policy r off k \<noteq> None" if lg: "\<not> 64 \<le> fr_base_lg r"
  proof (cases "unat (drop_bit (fr_base_lg r) off) < fr_num r")
    case True
    then obtain start limit where w: "fr_word r (fr_offset r + unat (drop_bit (fr_base_lg r) off) * 4) = Some start"
      "fr_word r (fr_offset r + unat (drop_bit (fr_base_lg r) off) * 4 + 4) = Some limit"
      using reader_words [OF n(1-4) True] by auto
    show ?thesis using lg True reader_slice [OF n(1-3), of start limit]
      by (simp add: FilterBlock_KeyMayMatch_def Let_def w del: not_None_eq)
  qed (use lg in \<open>simp add: FilterBlock_KeyMayMatch_def Let_def\<close>)
  then show ?thesis using n by (auto simp: r_def FilterBlock_KeyMayMatch_def char_to_size_64)
qed

end
