(* ===== verification/Crc32c.thy ===== *)
theory Crc32c
  imports Crc32c_Tables Coding
begin

text \<open>
  \<^verbatim>\<open>util/crc32c.h\<close> and \<^verbatim>\<open>util/crc32c.cc\<close>. The portable routine depends on the address of its data,
  which decides how many bytes precede the first aligned word; the address is an argument. The
  accelerated routine is an argument too: \<open>accel\<close>, which \<open>AcceleratedCRC32C\<close> of \<^verbatim>\<open>port/port_stdcxx.h\<close> gives for
  a build with or without the crc32c library, itself an argument.
  The macros STEP1, STEP4, STEP16 and STEP4W are functions on the registers; \<open>p\<close> is the list of
  the bytes that are left.
\<close>

unbundle bit_operations_syntax

abbreviation (input) kCRC32Xor :: u32 where "kCRC32Xor \<equiv> 0xffffffff"
abbreviation (input) kMaskDelta :: u32 where "kMaskDelta \<equiv> 0xa282ead8"

definition ReadUint32LE :: "slice \<Rightarrow> u32" where
  "ReadUint32LE buffer = DecodeFixed32 buffer"

definition RoundUp4 :: "u64 \<Rightarrow> u64" where
  "RoundUp4 pointer = (pointer + (4 - 1)) AND NOT (4 - 1)"

definition STEP1 :: "u32 \<Rightarrow> byte \<Rightarrow> u32" where
  "STEP1 l b = (let c = (l AND 0xff) XOR ucast b in kByteExtensionTable ! unat c XOR drop_bit 8 l)"

definition STEP4 :: "slice \<Rightarrow> nat \<Rightarrow> u32 \<Rightarrow> u32" where
  "STEP4 p s crc =
     ReadUint32LE (drop (s * 4) p) XOR kStrideExtensionTable3 ! unat (crc AND 0xff) XOR
     kStrideExtensionTable2 ! unat (drop_bit 8 crc AND 0xff) XOR
     kStrideExtensionTable1 ! unat (drop_bit 16 crc AND 0xff) XOR
     kStrideExtensionTable0 ! unat (drop_bit 24 crc)"

type_synonym strides = "u32 \<times> u32 \<times> u32 \<times> u32"

definition STEP16 :: "slice \<Rightarrow> strides \<Rightarrow> strides" where
  "STEP16 p = (\<lambda>(crc0, crc1, crc2, crc3). (STEP4 p 0 crc0, STEP4 p 1 crc1, STEP4 p 2 crc2, STEP4 p 3 crc3))"

fun STEP4W_loop :: "nat \<Rightarrow> u32 \<Rightarrow> u32" where
  "STEP4W_loop 0 w = w"
| "STEP4W_loop (Suc i) w = STEP4W_loop i (drop_bit 8 w XOR kByteExtensionTable ! unat (w AND 0xff))"

definition STEP4W :: "u32 \<Rightarrow> u32 \<Rightarrow> u32" where
  "STEP4W l w = STEP4W_loop 4 (w XOR l)"

function swath_loop :: "slice \<Rightarrow> strides \<Rightarrow> strides \<times> slice" where
  "swath_loop p c = (if length p \<ge> 16 then swath_loop (drop 16 p) (STEP16 p c) else (c, p))"
  by pat_completeness auto
termination by (relation "measure (length \<circ> fst)") auto

function word_loop :: "slice \<Rightarrow> strides \<Rightarrow> strides \<times> slice" where
  "word_loop p c =
     (if length p \<ge> 4 then
        case c of (crc0, crc1, crc2, crc3) \<Rightarrow> word_loop (drop 4 p) (crc1, crc2, crc3, STEP4 p 0 crc0)
      else (c, p))"
  by pat_completeness auto
termination by (relation "measure (length \<circ> fst)") auto

declare swath_loop.simps [simp del] word_loop.simps [simp del]

definition Extend_portable :: "u64 \<Rightarrow> u32 \<Rightarrow> slice \<Rightarrow> u32" where
  "Extend_portable addr crc data =
     (let l = crc XOR kCRC32Xor;
          x = unat (RoundUp4 addr - addr);
          (l, p) = (if x \<le> length data then (foldl STEP1 l (take x data), drop x data) else (l, data));
          (l, p) = (if length p \<ge> 16 then
             let crc0 = ReadUint32LE p XOR l;
                 crc1 = ReadUint32LE (drop 4 p);
                 crc2 = ReadUint32LE (drop 8 p);
                 crc3 = ReadUint32LE (drop 12 p);
                 (c, p) = swath_loop (drop 16 p) (crc0, crc1, crc2, crc3);
                 ((crc0, crc1, crc2, crc3), p) = word_loop p c;
                 l = 0
             in (STEP4W (STEP4W (STEP4W (STEP4W l crc0) crc1) crc2) crc3, p)
           else (l, p))
      in foldl STEP1 l p XOR kCRC32Xor)"

text \<open>The call of the port: the CRC-32C library when the build has it, which is an argument here, and zero otherwise.\<close>

definition AcceleratedCRC32C :: "bool \<Rightarrow> (u32 \<Rightarrow> slice \<Rightarrow> u32) \<Rightarrow> u32 \<Rightarrow> slice \<Rightarrow> u32" where
  "AcceleratedCRC32C have_crc32c crc32c_Extend crc buf = (if have_crc32c then crc32c_Extend crc buf else 0)"

definition CanAccelerateCRC32C :: "(u32 \<Rightarrow> slice \<Rightarrow> u32) \<Rightarrow> bool" where
  "CanAccelerateCRC32C accel = (accel 0 (bytes_of_string ''TestCRCBuffer'') = 0xdcbc59fa)"

definition Extend :: "(u32 \<Rightarrow> slice \<Rightarrow> u32) \<Rightarrow> u64 \<Rightarrow> u32 \<Rightarrow> slice \<Rightarrow> u32" where
  "Extend accel addr crc data =
     (if CanAccelerateCRC32C accel then accel crc data else Extend_portable addr crc data)"

definition crc_Value :: "(u32 \<Rightarrow> slice \<Rightarrow> u32) \<Rightarrow> u64 \<Rightarrow> slice \<Rightarrow> u32" where
  "crc_Value accel addr data = Extend accel addr 0 data"

definition Mask :: "u32 \<Rightarrow> u32" where
  "Mask crc = (drop_bit 15 crc OR push_bit 17 crc) + kMaskDelta"

definition Unmask :: "u32 \<Rightarrow> u32" where
  "Unmask masked_crc = (let rot = masked_crc - kMaskDelta in drop_bit 17 rot OR push_bit 15 rot)"

section \<open>The specification\<close>

text \<open>CRC-32C: the bytes one after the other, eight bits each, with the register inverted before and after.\<close>

definition crc32c_spec :: "u32 \<Rightarrow> slice \<Rightarrow> u32" where
  "crc32c_spec crc data = foldl (\<lambda>l b. crc_byte (l XOR ucast b)) (crc XOR kCRC32Xor) data XOR kCRC32Xor"

definition absorb :: "u32 \<Rightarrow> slice \<Rightarrow> u32" where
  "absorb l p = foldl (\<lambda>l b. crc_byte (l XOR ucast b)) l p"

lemma STEP1_crc_byte: "STEP1 l b = crc_byte (l XOR ucast b)"
proof -
  have "bit (ucast b :: u32) i \<Longrightarrow> i < 8" for i by (auto simp: bit_simps dest: bit_imp_le_length)
  then have high: "\<not> bit (ucast b :: u32) i" if "8 \<le> i" for i using that by (meson not_le)
  have "(l AND 0xff) XOR ucast b = (l XOR ucast b) AND 0xff"
  proof (rule bit_word_eqI)
    fix i
    show "bit ((l AND 0xff) XOR ucast b) i = bit ((l XOR ucast b) AND 0xff) i"
      using high [of i] by (cases "8 \<le> i") (simp_all only: bit_xor_iff bit_and_iff bit_ff, simp_all)
  qed
  moreover have "drop_bit 8 (l XOR ucast b) = drop_bit 8 l"
    by (rule bit_word_eqI) (simp add: bit_xor_iff bit_drop_bit_eq high)
  ultimately show ?thesis
    using table_byte_crc_byte [of "l XOR ucast b"] by (simp add: STEP1_def table_byte_def Let_def)
qed

lemma foldl_STEP1: "foldl STEP1 l p = absorb l p"
proof -
  have "STEP1 = (\<lambda>l b. crc_byte (l XOR ucast b))" by (intro ext) (rule STEP1_crc_byte)
  then show ?thesis by (simp add: absorb_def)
qed

lemma absorb_append: "absorb l (p @ q) = absorb (absorb l p) q"
  by (simp add: absorb_def)

lemma STEP4W_loop_crc_bytes: "STEP4W_loop n w = crc_bytes n w"
proof -
  have "STEP4W_loop n w = (crc_byte ^^ n) w" for n w
    by (induction n arbitrary: w)
       (simp_all add: table_byte_crc_byte [unfolded table_byte_def, symmetric] xor.commute funpow_swap1)
  moreover have "crc_bytes n w = (crc_byte ^^ n) w" for n w by (induction n) simp_all
  ultimately show ?thesis by simp
qed

text \<open>A little-endian word is absorbed at once.\<close>

lemma crc_byte_low: "crc_byte (push_bit 8 w) = take_bit 24 w"
  by (subst crc_byte_shifted) (auto intro!: bit_word_eqI simp: bit_simps)

lemma crc_byte_xor_low:
  "\<forall>i. bit w i \<longrightarrow> i < 24 \<Longrightarrow> crc_byte (l XOR push_bit 8 w) = crc_byte l XOR w"
proof -
  assume "\<forall>i. bit w i \<longrightarrow> i < 24"
  then have "take_bit 24 w = w" by (auto intro!: bit_word_eqI simp: bit_simps)
  then show ?thesis by (simp add: crc_byte_xor crc_byte_low)
qed

lemma DecodeFixed32_nested:
  "DecodeFixed32 (b0 # b1 # b2 # b3 # p) =
     ucast b0 XOR push_bit 8 (ucast b1 XOR push_bit 8 (ucast b2 XOR push_bit 8 (ucast b3)))"
  by (rule bit_word_eqI)
     (auto simp: DecodeFixed32_def bit_simps dest: bit_imp_le_length)

lemma bit_ucast_byte: "bit (ucast (b :: byte) :: u32) i \<Longrightarrow> i < 8"
  by (auto simp: bit_simps dest: bit_imp_le_length)

lemma absorb_word:
  "absorb l [b0, b1, b2, b3] = crc_bytes 4 (l XOR DecodeFixed32 (b0 # b1 # b2 # b3 # p))"
proof -
  have x: "(a XOR b) XOR c = a XOR (b XOR c)" for a b c :: u32 by (rule xor.assoc)
  have n: "crc_bytes 4 v = crc_byte (crc_byte (crc_byte (crc_byte v)))" for v by (simp add: eval_nat_numeral)
  have "crc_bytes 4 (l XOR DecodeFixed32 (b0 # b1 # b2 # b3 # p)) = crc_bytes 4 ((l XOR ucast b0) XOR
      push_bit 8 (ucast b1 XOR push_bit 8 (ucast b2 XOR push_bit 8 (ucast b3))))"
    by (simp only: DecodeFixed32_nested x)
  also have "\<dots> = crc_byte (crc_byte (crc_byte (crc_byte (l XOR ucast b0) XOR
      (ucast b1 XOR push_bit 8 (ucast b2 XOR push_bit 8 (ucast b3))))))"
    unfolding n by (subst crc_byte_xor_low) (auto simp: bit_simps dest: bit_imp_le_length)
  also have "\<dots> = crc_byte (crc_byte (crc_byte ((crc_byte (l XOR ucast b0) XOR ucast b1) XOR
      push_bit 8 (ucast b2 XOR push_bit 8 (ucast b3)))))" by (simp only: x)
  also have "\<dots> = crc_byte (crc_byte ((crc_byte (crc_byte (l XOR ucast b0) XOR ucast b1) XOR ucast b2) XOR
      push_bit 8 (ucast b3)))"
    by (subst crc_byte_xor_low) (auto simp: bit_simps x dest: bit_imp_le_length)
  also have "\<dots> = absorb l [b0, b1, b2, b3]"
    by (subst crc_byte_xor_low) (auto simp: absorb_def dest: bit_ucast_byte)
  finally show ?thesis by simp
qed

lemma absorb_ReadUint32LE:
  assumes "4 \<le> length p"
  shows "absorb l p = absorb (crc_bytes 4 (l XOR ReadUint32LE p)) (drop 4 p)"
proof -
  obtain b0 b1 b2 b3 q where p: "p = b0 # b1 # b2 # b3 # q"
    using assms by (metis (no_types) Suc_le_length_iff eval_nat_numeral(2,3) numeral_2_eq_2 semiring_norm(26,27,28))
  have "absorb l p = absorb (absorb l [b0, b1, b2, b3]) q" by (simp add: p absorb_def)
  then show ?thesis by (simp add: absorb_word [of _ _ _ _ _ q] ReadUint32LE_def p)
qed

section \<open>The strides\<close>

lemma table_nth:
  "unat c < 256 \<Longrightarrow> kStrideExtensionTable0 ! unat c = crc_bytes 13 c"
  "unat c < 256 \<Longrightarrow> kStrideExtensionTable1 ! unat c = crc_bytes 14 c"
  "unat c < 256 \<Longrightarrow> kStrideExtensionTable2 ! unat c = crc_bytes 15 c"
  "unat c < 256 \<Longrightarrow> kStrideExtensionTable3 ! unat c = crc_bytes 16 c"
  by (simp_all add: kStrideExtensionTable0_entries kStrideExtensionTable1_entries
      kStrideExtensionTable2_entries kStrideExtensionTable3_entries)

lemma crc_bytes_push:
  assumes "\<forall>i. bit w i \<longrightarrow> i < 8" "k \<le> 3"
  shows "crc_bytes (n + k) (push_bit (8 * k) w) = crc_bytes n w"
  using assms(2)
proof (induction k arbitrary: n)
  case (Suc k)
  have "crc_byte (push_bit 8 (push_bit (8 * k) w)) = push_bit (8 * k) w"
    using assms(1) Suc.prems crc_byte_xor_low [of "push_bit (8 * k) w" 0]
    by (fastforce simp: bit_simps crc_byte_def crc_bit_def)
  then have "crc_bytes (n + k) (crc_bytes 1 (push_bit (8 * Suc k) w)) = crc_bytes n w"
    using Suc by (simp add: push_bit_push_bit)
  then show ?case using crc_bytes_add [of "n + k" 1] by simp
qed simp

lemma word_bytes:
  fixes w :: u32
  shows "w = (w AND 0xff) XOR push_bit 8 (drop_bit 8 w AND 0xff) XOR push_bit 16 (drop_bit 16 w AND 0xff) XOR
    push_bit 24 (drop_bit 24 w)"
proof (rule bit_word_eqI)
  fix i assume "i < LENGTH(32)"
  then show "bit w i = bit ((w AND 0xff) XOR push_bit 8 (drop_bit 8 w AND 0xff) XOR
      push_bit 16 (drop_bit 16 w AND 0xff) XOR push_bit 24 (drop_bit 24 w)) i"
    by (simp only: bit_xor_iff bit_and_iff bit_ff bit_push_bit_iff bit_drop_bit_eq o_apply)
       (cases "i < 8"; cases "i < 16"; cases "i < 24"; auto)
qed

lemma STEP4_eq: "STEP4 p s crc = ReadUint32LE (drop (s * 4) p) XOR crc_bytes 16 crc"
proof -
  have b: "\<forall>i. bit (v AND 0xff :: u32) i \<longrightarrow> i < 8" for v by (simp only: bit_and_iff bit_ff) simp
  have h: "\<forall>i. bit (drop_bit 24 crc) i \<longrightarrow> i < 8" by (auto simp: bit_simps dest: bit_imp_le_length)
  have u: "unat (drop_bit 24 crc) < 256" using unat_lt2p [of crc] by (simp add: unat_drop_bit)
  have "crc_bytes 16 crc = crc_bytes 16 (crc AND 0xff) XOR crc_bytes 16 (push_bit 8 (drop_bit 8 crc AND 0xff)) XOR
      crc_bytes 16 (push_bit 16 (drop_bit 16 crc AND 0xff)) XOR crc_bytes 16 (push_bit 24 (drop_bit 24 crc))"
    by (subst word_bytes [of crc]) (simp only: crc_bytes_xor)
  also have "\<dots> = crc_bytes 16 (crc AND 0xff) XOR crc_bytes 15 (drop_bit 8 crc AND 0xff) XOR
      crc_bytes 14 (drop_bit 16 crc AND 0xff) XOR crc_bytes 13 (drop_bit 24 crc)"
    using crc_bytes_push [OF b [of "drop_bit 8 crc"], of 1 15] crc_bytes_push [OF b [of "drop_bit 16 crc"], of 2 14]
      crc_bytes_push [OF h, of 3 13] by simp
  finally show ?thesis
    unfolding STEP4_def table_nth(4) [OF unat_and_ff] table_nth(3) [OF unat_and_ff] table_nth(2) [OF unat_and_ff]
      table_nth(1) [OF u] by (simp only: xor.assoc)
qed

text \<open>The register that the four partial results stand for.\<close>

fun combined :: "strides \<Rightarrow> u32" where
  "combined (c0, c1, c2, c3) = crc_bytes 4 (crc_bytes 4 (crc_bytes 4 (crc_bytes 4 c0 XOR c1) XOR c2) XOR c3)"

lemma combined_rotate:
  "combined (c1, c2, c3, w XOR crc_bytes 16 c0) = crc_bytes 4 (combined (c0, c1, c2, c3) XOR w)"
proof -
  have "crc_bytes 16 c0 = crc_bytes 4 (crc_bytes 4 (crc_bytes 4 (crc_bytes 4 c0)))"
    using crc_bytes_add [of 4 12 c0] crc_bytes_add [of 4 8 c0] crc_bytes_add [of 4 4 c0] by simp
  then show ?thesis by (simp add: crc_bytes_xor ac_simps)
qed

lemma STEP16_rotates:
  assumes "16 \<le> length p"
  shows "absorb (combined (c0, c1, c2, c3)) p = absorb (combined (STEP16 p (c0, c1, c2, c3))) (drop 16 p)"
proof -
  have "absorb (combined (c0, c1, c2, c3)) p = absorb (combined (c1, c2, c3, STEP4 p 0 c0)) (drop 4 p)"
    using assms by (subst absorb_ReadUint32LE) (simp_all only: STEP4_eq combined_rotate, simp_all)
  also have "\<dots> = absorb (combined (c2, c3, STEP4 p 0 c0, STEP4 p 1 c1)) (drop 8 p)"
    using assms by (subst absorb_ReadUint32LE) (simp_all only: STEP4_eq combined_rotate, simp_all)
  also have "\<dots> = absorb (combined (c3, STEP4 p 0 c0, STEP4 p 1 c1, STEP4 p 2 c2)) (drop 12 p)"
    using assms by (subst absorb_ReadUint32LE) (simp_all only: STEP4_eq combined_rotate, simp_all)
  also have "\<dots> = absorb (combined (STEP4 p 0 c0, STEP4 p 1 c1, STEP4 p 2 c2, STEP4 p 3 c3)) (drop 16 p)"
    using assms by (subst absorb_ReadUint32LE) (simp_all only: STEP4_eq combined_rotate, simp_all)
  finally show ?thesis by (simp add: STEP16_def)
qed

lemma swath_loop_absorb:
  "absorb (combined (fst (swath_loop p c))) (snd (swath_loop p c)) = absorb (combined c) p"
proof (induction p c rule: swath_loop.induct)
  case (1 p c)
  obtain c0 c1 c2 c3 where c: "c = (c0, c1, c2, c3)" by (cases c) auto
  show ?case
  proof (cases "16 \<le> length p")
    case True
    then have "swath_loop p c = swath_loop (drop 16 p) (STEP16 p c)" by (subst swath_loop.simps) simp
    then show ?thesis using 1 [OF True] STEP16_rotates [OF True, of c0 c1 c2 c3] by (simp add: c del: combined.simps)
  next
    case False
    then show ?thesis by (simp add: swath_loop.simps [of p c])
  qed
qed

lemma word_loop_absorb:
  "absorb (combined (fst (word_loop p c))) (snd (word_loop p c)) = absorb (combined c) p"
proof (induction p c rule: word_loop.induct)
  case (1 p c)
  obtain c0 c1 c2 c3 where c: "c = (c0, c1, c2, c3)" by (cases c) auto
  have "absorb (combined (c1, c2, c3, STEP4 p 0 c0)) (drop 4 p) = absorb (combined (c0, c1, c2, c3)) p"
    if "4 \<le> length p"
    using that by (subst (2) absorb_ReadUint32LE) (simp_all only: STEP4_eq combined_rotate, simp_all)
  then show ?case
    using 1 [OF _ c [symmetric] refl refl] c
    by (cases "4 \<le> length p") (simp_all add: word_loop.simps [of p] del: combined.simps)
qed

lemma STEP4W_eq: "STEP4W l w = crc_bytes 4 (l XOR w)"
  by (simp add: STEP4W_def STEP4W_loop_crc_bytes xor.commute)

lemma STEP4W_combined:
  "STEP4W (STEP4W (STEP4W (STEP4W 0 c0) c1) c2) c3 = combined (c0, c1, c2, c3)"
  by (simp add: STEP4W_eq)

lemma first_swath:
  assumes "16 \<le> length p"
  shows "absorb l p = absorb (combined (ReadUint32LE p XOR l, ReadUint32LE (drop 4 p), ReadUint32LE (drop 8 p),
    ReadUint32LE (drop 12 p))) (drop 16 p)"
proof -
  have step: "4 \<le> length p \<Longrightarrow> absorb l p = absorb (crc_bytes 4 (l XOR ReadUint32LE p)) (drop 4 p)" for l p
    by (rule absorb_ReadUint32LE)
  show ?thesis using assms
    by (simp add: step [of p] step [of "drop 4 p"] step [of "drop 8 p"] step [of "drop 12 p"] xor.commute)
qed

text \<open>The portable routine computes the specification for every alignment.\<close>

lemma Extend_portable_spec: "Extend_portable addr crc data = crc32c_spec crc data"
proof -
  define l where "l = crc XOR kCRC32Xor"
  define x where "x = unat (RoundUp4 addr - addr)"
  define l1 where "l1 = (if x \<le> length data then absorb l (take x data) else l)"
  define p1 where "p1 = (if x \<le> length data then drop x data else data)"
  have a1: "absorb l1 p1 = absorb l data"
    by (simp add: l1_def p1_def absorb_append [symmetric])
  have eq: "Extend_portable addr crc data = (let (l, p) = (if length p1 \<ge> 16 then
             let (c, p) = swath_loop (drop 16 p1) (ReadUint32LE p1 XOR l1, ReadUint32LE (drop 4 p1),
                   ReadUint32LE (drop 8 p1), ReadUint32LE (drop 12 p1));
                 ((crc0, crc1, crc2, crc3), p) = word_loop p c
             in (STEP4W (STEP4W (STEP4W (STEP4W 0 crc0) crc1) crc2) crc3, p)
           else (l1, p1)) in foldl STEP1 l p XOR kCRC32Xor)"
    unfolding Extend_portable_def l_def [symmetric] x_def [symmetric] l1_def p1_def
    by (cases "x \<le> length data") (simp_all only: Let_def foldl_STEP1 if_True if_False prod.case)
  have "Extend_portable addr crc data = absorb l1 p1 XOR kCRC32Xor"
  proof (cases "16 \<le> length p1")
    case True
    define c where "c = (ReadUint32LE p1 XOR l1, ReadUint32LE (drop 4 p1), ReadUint32LE (drop 8 p1), ReadUint32LE (drop 12 p1))"
    obtain c' p' where s: "swath_loop (drop 16 p1) c = (c', p')" by fastforce
    obtain c0 c1 c2 c3 p'' where w: "word_loop p' c' = ((c0, c1, c2, c3), p'')" by (metis surj_pair)
    have "absorb (combined (c0, c1, c2, c3)) p'' = absorb l1 p1"
      using word_loop_absorb [of p' c'] swath_loop_absorb [of "drop 16 p1" c] first_swath [OF True, of l1]
      unfolding c_def [symmetric] by (simp add: s w del: combined.simps)
    moreover have "Extend_portable addr crc data = foldl STEP1 (STEP4W (STEP4W (STEP4W (STEP4W 0 c0) c1) c2) c3) p'' XOR kCRC32Xor"
      unfolding eq using True s w by (simp add: c_def)
    ultimately show ?thesis by (simp add: foldl_STEP1 STEP4W_combined del: combined.simps)
  next
    case False
    then show ?thesis unfolding eq by (simp add: foldl_STEP1)
  qed
  then show ?thesis by (simp add: a1 crc32c_spec_def l_def absorb_def [symmetric])
qed

lemma crc32c_spec_append: "crc32c_spec crc (a @ b) = crc32c_spec (crc32c_spec crc a) b"
  by (simp add: crc32c_spec_def xor.assoc)

text \<open>
  What the other components call: the address of the data and the choice of routine make no difference to the value,
  so they call the portable routine at address 0.
\<close>

definition crc_Extend :: "u32 \<Rightarrow> slice \<Rightarrow> u32" where
  "crc_Extend init_crc data = Extend_portable 0 init_crc data"

lemma crc_Extend_append: "crc_Extend (crc_Extend crc a) b = crc_Extend crc (a @ b)"
  by (simp add: crc_Extend_def Extend_portable_spec crc32c_spec_append)

section \<open>Masking\<close>

lemma Unmask_Mask [codec_simps, simp]: "Unmask (Mask crc) = crc"
proof (rule bit_word_eqI)
  fix i assume "i < LENGTH(32)"
  then show "bit (Unmask (Mask crc)) i = bit crc i"
    by (cases "15 \<le> i") (auto simp: Unmask_def Mask_def Let_def bit_simps)
qed

text \<open>The test value of the probe is the CRC of its buffer.\<close>

lemma crc_test_value: "crc32c_spec 0 (bytes_of_string ''TestCRCBuffer'') = 0xdcbc59fa"
proof -
  have s1: "crc_byte 0xffffffab = 0x3b3de162" by (simp add: crc_byte_def crc_bit_def)
  have s2: "crc_byte 0x3b3de107 = 0xd4f1590a" by (simp add: crc_byte_def crc_bit_def)
  have s3: "crc_byte 0xd4f15979 = 0x9fe7e98" by (simp add: crc_byte_def crc_bit_def)
  have s4: "crc_byte 0x9fe7eec = 0xae7a99b4" by (simp add: crc_byte_def crc_bit_def)
  have s5: "crc_byte 0xae7a99f7 = 0x270a7107" by (simp add: crc_byte_def crc_bit_def)
  have s6: "crc_byte 0x270a7155 = 0x64f3c4be" by (simp add: crc_byte_def crc_bit_def)
  have s7: "crc_byte 0x64f3c4fd = 0x4c22d062" by (simp add: crc_byte_def crc_bit_def)
  have s8: "crc_byte 0x4c22d020 = 0x20f1ac0e" by (simp add: crc_byte_def crc_bit_def)
  have s9: "crc_byte 0x20f1ac7b = 0xe8310e9a" by (simp add: crc_byte_def crc_bit_def)
  have s10: "crc_byte 0xe8310efc = 0xbec591ab" by (simp add: crc_byte_def crc_bit_def)
  have s11: "crc_byte 0xbec591cd = 0x7c1baf86" by (simp add: crc_byte_def crc_bit_def)
  have s12: "crc_byte 0x7c1bafe3 = 0xf01c4041" by (simp add: crc_byte_def crc_bit_def)
  have s13: "crc_byte 0xf01c4033 = 0x2343a605" by (simp add: crc_byte_def crc_bit_def)
  have "bytes_of_string ''TestCRCBuffer'' = [0x54, 0x65, 0x73, 0x74, 0x43, 0x52, 0x43, 0x42, 0x75, 0x66, 0x66, 0x65, 0x72]"
    by (simp add: bytes_of_string_def of_char_def)
  then show ?thesis by (simp add: crc32c_spec_def s1 s2 s3 s4 s5 s6 s7 s8 s9 s10 s11 s12 s13)
qed

text \<open>C9. The portable CRC routine, with its byte table, its four interleaved strides and its alignment prologue,
  computes for data at any address what dividing bit by bit by the Castagnoli polynomial gives; and
  extending a checksum by two pieces is extending it by their concatenation.\<close>
theorem crc32c_portable_correct:
  "Extend_portable addr crc data = crc32c_spec crc data \<and>
   Extend_portable addr' (Extend_portable addr crc a) b = Extend_portable addr'' crc (a @ b)"
  by (simp add: Extend_portable_spec crc32c_spec_append)

text \<open>C24. The probe accepts the accelerated routine exactly in a build with the CRC-32C library, and with or without the
  library \<open>Extend\<close> computes CRC-32C and a masked checksum unmasks to the checksum. The library is assumed to extend a
  CRC-32C.\<close>
theorem crc32c_extend:
  assumes "have_crc32c \<longrightarrow> (\<forall>crc data. crc32c_Extend crc data = crc32c_spec crc data)"
  defines "accel \<equiv> AcceleratedCRC32C have_crc32c crc32c_Extend"
  shows "CanAccelerateCRC32C accel = have_crc32c \<and> Extend accel addr crc data = crc32c_spec crc data \<and>
    Unmask (Mask (crc_Value accel addr data)) = crc32c_spec 0 data"
proof -
  have "CanAccelerateCRC32C accel = have_crc32c"
    using assms crc_test_value by (simp add: CanAccelerateCRC32C_def AcceleratedCRC32C_def)
  then show ?thesis
    using assms by (simp add: Extend_def crc_Value_def Extend_portable_spec AcceleratedCRC32C_def)
qed

theorem crc32c_extend_witness:
  "Extend (AcceleratedCRC32C True crc32c_spec) 3 0 [0x31, 0x32] = Extend (AcceleratedCRC32C False crc32c_spec) 5 0 [0x31, 0x32]"
  using crc32c_extend [of True crc32c_spec 3 0 "[0x31, 0x32]"] crc32c_extend [of False crc32c_spec 5 0 "[0x31, 0x32]"] by simp

end
