(* ===== verification/File_Ops.thy ===== *)
theory File_Ops
  imports LDB_Status
begin

text \<open>
  The file interfaces of \<^verbatim>\<open>include/leveldb/env.h\<close> as records of their virtual methods. Each method takes the state
  of the file (\<open>'f\<close>) and returns its status and the new state. The locales state what a client of an in-memory file
  relies on: the file is a byte string, an append extends it, and reads return consecutive pieces of it.
\<close>

record 'f WritableFile =
  wf_Append :: "slice \<Rightarrow> 'f \<Rightarrow> Status \<times> 'f"
  wf_Close :: "'f \<Rightarrow> Status \<times> 'f"
  wf_Flush :: "'f \<Rightarrow> Status \<times> 'f"
  wf_Sync :: "'f \<Rightarrow> Status \<times> 'f"

record 'f SequentialFile =
  sf_Read :: "nat \<Rightarrow> 'f \<Rightarrow> Status \<times> slice \<times> 'f"
  sf_Skip :: "nat \<Rightarrow> 'f \<Rightarrow> Status \<times> 'f"

record 'f RandomAccessFile =
  rf_Read :: "nat \<Rightarrow> nat \<Rightarrow> 'f \<Rightarrow> Status \<times> slice"

locale reliable_writer =
  fixes ops :: "'f WritableFile" and inv :: "'f \<Rightarrow> bool" and contents :: "'f \<Rightarrow> slice"
  assumes append: "inv f \<Longrightarrow> \<exists>f'. wf_Append ops d f = (Status_OK, f') \<and> inv f' \<and> contents f' = contents f @ d"
    and flush: "inv f \<Longrightarrow> \<exists>f'. wf_Flush ops f = (Status_OK, f') \<and> inv f' \<and> contents f' = contents f"

text \<open>\<open>rest\<close> is what has not been read yet.\<close>

locale reliable_reader =
  fixes ops :: "'f SequentialFile" and inv :: "'f \<Rightarrow> bool" and rest :: "'f \<Rightarrow> slice"
  assumes read: "inv f \<Longrightarrow> \<exists>f'. sf_Read ops n f = (Status_OK, take n (rest f), f') \<and> inv f' \<and> rest f' = drop n (rest f)"
    and skip: "inv f \<Longrightarrow> \<exists>f'. sf_Skip ops n f = (Status_OK, f') \<and> inv f' \<and> rest f' = drop n (rest f)"

locale reliable_random_reader =
  fixes ops :: "'f RandomAccessFile" and inv :: "'f \<Rightarrow> bool" and contents :: "'f \<Rightarrow> slice"
  assumes pread: "inv f \<Longrightarrow> offset \<le> length (contents f) \<Longrightarrow>
    rf_Read ops offset n f = (Status_OK, take n (drop offset (contents f)))"

end
