(* ===== verification/Log_Writer.thy ===== *)
theory Log_Writer
  imports File_Ops Crc32c
begin

text \<open>
  \<^verbatim>\<open>db/log_format.h\<close>, \<^verbatim>\<open>db/log_writer.h\<close> and \<^verbatim>\<open>db/log_writer.cc\<close>: records are cut into fragments that do not
  cross 32 KB blocks. The destination is any \<^verbatim>\<open>WritableFile\<close>.
\<close>

unbundle bit_operations_syntax

abbreviation (input) kZeroType :: nat where "kZeroType \<equiv> 0"
abbreviation (input) kFullType :: nat where "kFullType \<equiv> 1"
abbreviation (input) kFirstType :: nat where "kFirstType \<equiv> 2"
abbreviation (input) kMiddleType :: nat where "kMiddleType \<equiv> 3"
abbreviation (input) kLastType :: nat where "kLastType \<equiv> 4"
abbreviation (input) kMaxRecordType :: nat where "kMaxRecordType \<equiv> 4"
abbreviation (input) kBlockSize :: nat where "kBlockSize \<equiv> 32768"
abbreviation (input) kHeaderSize :: nat where "kHeaderSize \<equiv> 7"

record 'f log_writer =
  lw_dest :: 'f
  lw_block_offset :: nat
  lw_type_crc :: "u32 list"

definition InitTypeCrc :: "u32 list" where
  "InitTypeCrc = map (\<lambda>i. crc_Extend 0 [of_nat i]) [0..<kMaxRecordType + 1]"

definition new_Writer :: "'f \<Rightarrow> 'f log_writer" where
  "new_Writer dest = \<lparr> lw_dest = dest, lw_block_offset = 0, lw_type_crc = InitTypeCrc \<rparr>"

definition new_Writer_at :: "'f \<Rightarrow> u64 \<Rightarrow> 'f log_writer" where
  "new_Writer_at dest dest_length =
     \<lparr> lw_dest = dest, lw_block_offset = unat (dest_length mod 32768), lw_type_crc = InitTypeCrc \<rparr>"

definition log_header :: "u32 list \<Rightarrow> nat \<Rightarrow> slice \<Rightarrow> slice" where
  "log_header type_crc t payload =
     (let crc = Mask (crc_Extend (type_crc ! t) payload); length = of_nat (length payload) :: u32
      in EncodeFixed32 crc @ [ucast (length AND 0xff), ucast (drop_bit 8 length), of_nat t])"

definition EmitPhysicalRecord :: "'f WritableFile \<Rightarrow> nat \<Rightarrow> slice \<Rightarrow> 'f log_writer \<Rightarrow> Status \<times> 'f log_writer" where
  "EmitPhysicalRecord ops t payload w =
     (let (s, d) = wf_Append ops (log_header (lw_type_crc w) t payload) (lw_dest w);
          (s, d) = (if status_ok s then
                      let (s, d) = wf_Append ops payload d
                      in if status_ok s then wf_Flush ops d else (s, d)
                    else (s, d))
      in (s, w\<lparr> lw_dest := d, lw_block_offset := lw_block_offset w + kHeaderSize + length payload \<rparr>))"

definition record_type :: "bool \<Rightarrow> bool \<Rightarrow> nat" where
  "record_type begin end =
     (if begin \<and> end then kFullType else if begin then kFirstType else if end then kLastType else kMiddleType)"

text \<open>The switch to a new block: fill the trailer when fewer than seven bytes are left. The status of the append is
  dropped.\<close>

definition switch_block :: "'f WritableFile \<Rightarrow> 'f log_writer \<Rightarrow> 'f log_writer" where
  "switch_block ops w =
     (let leftover = kBlockSize - lw_block_offset w in
      if leftover < kHeaderSize then
        (if leftover > 0 then w\<lparr> lw_dest := snd (wf_Append ops (replicate leftover 0) (lw_dest w)) \<rparr> else w)
          \<lparr> lw_block_offset := 0 \<rparr>
      else w)"

lemma switch_block_offset:
  "lw_block_offset (switch_block ops w) =
     (if kBlockSize - lw_block_offset w < kHeaderSize then 0 else lw_block_offset w)"
  by (simp add: switch_block_def Let_def)

lemma EmitPhysicalRecord_offset:
  "lw_block_offset (snd (EmitPhysicalRecord ops t p w)) = lw_block_offset w + kHeaderSize + length p"
  by (simp add: EmitPhysicalRecord_def split_beta Let_def)

function AddRecord_loop :: "'f WritableFile \<Rightarrow> bool \<Rightarrow> slice \<Rightarrow> 'f log_writer \<Rightarrow> Status \<times> 'f log_writer" where
  "AddRecord_loop ops begin ptr w =
     (let w1 = switch_block ops w;
          avail = kBlockSize - lw_block_offset w1 - kHeaderSize;
          fragment_length = (if length ptr < avail then length ptr else avail);
          end = (length ptr = fragment_length);
          sw = EmitPhysicalRecord ops (record_type begin end) (take fragment_length ptr) w1
      in if status_ok (fst sw) \<and> length ptr - fragment_length > 0
         then AddRecord_loop ops False (drop fragment_length ptr) (snd sw)
         else sw)"
  by pat_completeness auto
termination
proof (relation "measures [\<lambda>(_, _, ptr, _). length ptr, \<lambda>(_, _, _, w). if lw_block_offset w = kBlockSize - kHeaderSize then 1 else 0]",
    goal_cases)
  case (2 ops b ptr w)
  then show ?case
    by (auto simp: switch_block_offset EmitPhysicalRecord_offset split: if_splits)
qed simp

declare AddRecord_loop.simps [simp del]

definition AddRecord :: "'f WritableFile \<Rightarrow> slice \<Rightarrow> 'f log_writer \<Rightarrow> Status \<times> 'f log_writer" where
  "AddRecord ops data w = AddRecord_loop ops True data w"

section \<open>What the writer appends\<close>

text \<open>A physical record: header and payload.\<close>

definition phys :: "nat \<Rightarrow> slice \<Rightarrow> slice" where
  "phys t payload = log_header InitTypeCrc t payload @ payload"

lemma length_log_header [simp]: "length (log_header tc t p) = 7"
  by (simp add: log_header_def Let_def)

lemma length_phys [simp]: "length (phys t p) = 7 + length p"
  by (simp add: phys_def)

text \<open>The bytes of a record written at a block offset, and the block offset after it.\<close>

function record_bytes :: "bool \<Rightarrow> nat \<Rightarrow> slice \<Rightarrow> slice" where
  "record_bytes begin bo ptr =
     (let pad = (if kBlockSize - bo < kHeaderSize then kBlockSize - bo else 0);
          bo1 = (if kBlockSize - bo < kHeaderSize then 0 else bo);
          n = min (length ptr) (kBlockSize - bo1 - kHeaderSize);
          out = replicate pad 0 @ phys (record_type begin (length ptr = n)) (take n ptr)
      in if length ptr > n then out @ record_bytes False (bo1 + kHeaderSize + n) (drop n ptr) else out)"
  by pat_completeness auto
termination
  by (relation "measures [\<lambda>(_, _, ptr). length ptr, \<lambda>(_, bo, _). if bo = kBlockSize - kHeaderSize then 1 else 0]")
     (auto split: if_splits)

declare record_bytes.simps [simp del]

lemma mod_add_right: "a mod m = b mod m \<Longrightarrow> (a + c) mod m = (b + c) mod (m :: nat)"
  by (metis mod_add_left_eq)

context reliable_writer
begin

lemma switch_block_spec:
  assumes "inv (lw_dest w)"
  shows "inv (lw_dest (switch_block ops w))"
    and "contents (lw_dest (switch_block ops w)) = contents (lw_dest w) @
      replicate (if kBlockSize - lw_block_offset w < kHeaderSize then kBlockSize - lw_block_offset w else 0) 0"
    and "lw_type_crc (switch_block ops w) = lw_type_crc w"
  using assms append [OF assms, of "replicate (kBlockSize - lw_block_offset w) 0"]
  by (auto simp: switch_block_def Let_def)

lemma EmitPhysicalRecord_spec:
  assumes "inv (lw_dest w)" "lw_type_crc w = InitTypeCrc"
  obtains w' where "EmitPhysicalRecord ops t p w = (Status_OK, w')" "inv (lw_dest w')"
    "contents (lw_dest w') = contents (lw_dest w) @ phys t p" "lw_type_crc w' = InitTypeCrc"
    "lw_block_offset w' = lw_block_offset w + kHeaderSize + length p"
proof -
  obtain d1 where d1: "wf_Append ops (log_header (lw_type_crc w) t p) (lw_dest w) = (Status_OK, d1)" "inv d1"
    "contents d1 = contents (lw_dest w) @ log_header (lw_type_crc w) t p" using append [OF assms(1)] by blast
  obtain d2 where d2: "wf_Append ops p d1 = (Status_OK, d2)" "inv d2" "contents d2 = contents d1 @ p"
    using append [OF d1(2)] by blast
  obtain d3 where d3: "wf_Flush ops d2 = (Status_OK, d3)" "inv d3" "contents d3 = contents d2"
    using flush [OF d2(2)] by blast
  show ?thesis
    by (rule that [of "w\<lparr> lw_dest := d3, lw_block_offset := lw_block_offset w + 7 + length p \<rparr>"])
       (simp_all add: EmitPhysicalRecord_def d1(1,2) d1(1) [unfolded assms(2)] d1(3) d2 d3 assms(2) phys_def)
qed

lemma AddRecord_loop_spec:
  assumes "inv (lw_dest w)" "lw_type_crc w = InitTypeCrc" "lw_block_offset w \<le> kBlockSize"
  shows "\<exists>w'. AddRecord_loop ops b ptr w = (Status_OK, w') \<and> inv (lw_dest w') \<and> lw_type_crc w' = InitTypeCrc \<and>
    contents (lw_dest w') = contents (lw_dest w) @ record_bytes b (lw_block_offset w) ptr \<and>
    lw_block_offset w' \<le> kBlockSize \<and> 0 < lw_block_offset w' \<and>
    (lw_block_offset w + length (record_bytes b (lw_block_offset w) ptr)) mod kBlockSize = lw_block_offset w' mod kBlockSize"
  using assms
proof (induction b "lw_block_offset w" ptr arbitrary: w rule: record_bytes.induct)
  case (1 b ptr w)
  define pad where "pad = (if kBlockSize - lw_block_offset w < 7 then kBlockSize - lw_block_offset w else 0)"
  define w1 where "w1 = switch_block ops w"
  define n where "n = min (length ptr) (kBlockSize - lw_block_offset w1 - 7)"
  have w1: "inv (lw_dest w1)" "contents (lw_dest w1) = contents (lw_dest w) @ replicate pad 0"
    "lw_type_crc w1 = InitTypeCrc"
    "lw_block_offset w1 = (if kBlockSize - lw_block_offset w < 7 then 0 else lw_block_offset w)"
    using switch_block_spec [OF 1(2)] 1(3) by (simp_all add: w1_def pad_def switch_block_offset)
  have bo: "lw_block_offset w1 \<le> kBlockSize - 7" using w1(4) 1(4) by (auto split: if_splits)
  obtain w2 where w2: "EmitPhysicalRecord ops (record_type b (length ptr = n)) (take n ptr) w1 = (Status_OK, w2)"
    "inv (lw_dest w2)" "contents (lw_dest w2) = contents (lw_dest w1) @ phys (record_type b (length ptr = n)) (take n ptr)"
    "lw_type_crc w2 = InitTypeCrc" "lw_block_offset w2 = lw_block_offset w1 + 7 + n"
    using EmitPhysicalRecord_spec [OF w1(1,3)] by (metis length_take min.absorb2 min.cobounded1 n_def)
  have fl: "(if length ptr < kBlockSize - lw_block_offset w1 - 7 then length ptr else kBlockSize - lw_block_offset w1 - 7) = n"
    by (simp add: n_def)
  have loop: "AddRecord_loop ops b ptr w =
      (if length ptr > n then AddRecord_loop ops False (drop n ptr) w2 else (Status_OK, w2))"
    by (subst AddRecord_loop.simps)
       (simp only: w1_def [symmetric] Let_def fl w2(1) fst_conv snd_conv mk_Status_ok zero_less_diff simp_thms)
  have rb: "record_bytes b (lw_block_offset w) ptr =
      (let out = replicate pad 0 @ phys (record_type b (length ptr = n)) (take n ptr)
       in if length ptr > n then out @ record_bytes False (lw_block_offset w2) (drop n ptr) else out)"
    by (subst record_bytes.simps)
       (simp only: Let_def pad_def [symmetric] w1(4) [symmetric] n_def [symmetric] w2(5))
  have n: "n \<le> length ptr" "n \<le> kBlockSize - lw_block_offset w1 - 7" by (simp_all add: n_def)
  have bo2: "lw_block_offset w2 \<le> kBlockSize" using w2(5) bo n by linarith
  have md: "(lw_block_offset w + pad) mod kBlockSize = lw_block_offset w1 mod kBlockSize"
    using 1(4) by (auto simp: w1(4) pad_def)
  have md2: "(lw_block_offset w + (pad + (7 + n))) mod kBlockSize = lw_block_offset w2 mod kBlockSize"
    using mod_add_right [OF md, of "7 + n"] w2(5) by (simp add: add.assoc)
  show ?case
  proof (cases "length ptr > n")
    case True
    have "\<exists>w'. AddRecord_loop ops False (drop n ptr) w2 = (Status_OK, w') \<and> inv (lw_dest w') \<and> lw_type_crc w' = InitTypeCrc \<and>
        contents (lw_dest w') = contents (lw_dest w2) @ record_bytes False (lw_block_offset w2) (drop n ptr) \<and>
        lw_block_offset w' \<le> kBlockSize \<and> 0 < lw_block_offset w' \<and>
        (lw_block_offset w2 + length (record_bytes False (lw_block_offset w2) (drop n ptr))) mod kBlockSize
          = lw_block_offset w' mod kBlockSize"
      using True w1(4) w2 bo2
      by (intro 1(1) [of pad "lw_block_offset w1" n "replicate pad 0 @ phys (record_type b (length ptr = n)) (take n ptr)"])
         (simp_all add: pad_def n_def)
    then show ?thesis
      using True n mod_add_right [OF md2, of "length (record_bytes False (lw_block_offset w2) (drop n ptr))"]
      unfolding loop rb by (fastforce simp: w1 w2 Let_def add.assoc)
  next
    case False
    then show ?thesis using n bo2 md2 w2 w1 unfolding loop rb by (auto simp: Let_def)
  qed
qed

end

end
