(* ===== verification/Mem_Env.thy ===== *)
theory Mem_Env
  imports File_Ops Comparator
begin

text \<open>
  \<^verbatim>\<open>helpers/memenv/memenv.cc\<close>: files as reference-counted arrays of 8 KB blocks, their handles, and the
  environment that maps names to them. File objects live on an explicit heap, since several handles and the
  environment's map share them; a null pointer in the map is \<open>None\<close>. \<open>fresh\<close> is what a newly allocated block holds.
  Sizes are natural numbers: they are bounded by memory.
\<close>

abbreviation (input) kMemBlockSize :: nat where "kMemBlockSize \<equiv> 8192"

section \<open>FileState\<close>

record FileState =
  fs_refs :: int
  fs_blocks :: "slice list"
  fs_size :: nat

definition new_FileState :: FileState where
  "new_FileState = \<lparr> fs_refs = 0, fs_blocks = [], fs_size = 0 \<rparr>"

definition FileState_Truncate :: "FileState \<Rightarrow> FileState" where
  "FileState_Truncate f = f\<lparr> fs_blocks := [], fs_size := 0 \<rparr>"

text \<open>\<^verbatim>\<open>memcpy\<close> of a piece into a block at an offset.\<close>

definition copy_at :: "slice \<Rightarrow> nat \<Rightarrow> slice \<Rightarrow> slice" where
  "copy_at block offset src = take offset block @ src @ drop (offset + length src) block"

function Read_loop :: "slice list \<Rightarrow> nat \<Rightarrow> nat \<Rightarrow> nat \<Rightarrow> slice" where
  "Read_loop blocks block block_offset bytes_to_copy =
     (if bytes_to_copy > 0 \<and> block_offset < kMemBlockSize then
        let avail = min (kMemBlockSize - block_offset) bytes_to_copy
        in take avail (drop block_offset (blocks ! block)) @
           Read_loop blocks (block + 1) 0 (bytes_to_copy - avail)
      else [])"
  by pat_completeness auto
termination by (relation "measure (\<lambda>(_, _, _, n). n)") auto

declare Read_loop.simps [simp del]

definition FileState_Read :: "FileState \<Rightarrow> nat \<Rightarrow> nat \<Rightarrow> Status \<times> slice" where
  "FileState_Read f offset n =
     (if offset > fs_size f then (IOError (bytes_of_string ''Offset greater than file size.'') [], [])
      else let available = fs_size f - offset;
               n = (if n > available then available else n)
           in if n = 0 then (Status_OK, [])
              else (Status_OK, Read_loop (fs_blocks f) (offset div kMemBlockSize) (offset mod kMemBlockSize) n))"

function Append_loop :: "slice \<Rightarrow> FileState \<Rightarrow> slice \<Rightarrow> FileState" where
  "Append_loop fresh f src =
     (if src = [] then f
      else let offset = fs_size f mod kMemBlockSize;
               blocks = (if offset \<noteq> 0 then fs_blocks f else fs_blocks f @ [fresh]);
               avail = min (kMemBlockSize - offset) (length src);
               last_block = copy_at (last blocks) offset (take avail src)
           in Append_loop fresh (f\<lparr> fs_blocks := butlast blocks @ [last_block], fs_size := fs_size f + avail \<rparr>)
                (drop avail src))"
  by pat_completeness auto
termination by (relation "measure (\<lambda>(_, _, src). length src)") auto

declare Append_loop.simps [simp del]

definition FileState_Append :: "slice \<Rightarrow> FileState \<Rightarrow> slice \<Rightarrow> Status \<times> FileState" where
  "FileState_Append fresh f data = (Status_OK, Append_loop fresh f data)"

section \<open>The heap of file objects and their handles\<close>

type_synonym file_heap = "nat \<Rightarrow> FileState option"

definition file_Ref :: "nat \<Rightarrow> file_heap \<Rightarrow> file_heap" where
  "file_Ref a h = (case h a of None \<Rightarrow> h | Some f \<Rightarrow> h(a \<mapsto> f\<lparr> fs_refs := fs_refs f + 1 \<rparr>))"

definition file_Unref :: "nat \<Rightarrow> file_heap \<Rightarrow> file_heap" where
  "file_Unref a h =
     (case h a of None \<Rightarrow> h
      | Some f \<Rightarrow> if fs_refs f - 1 \<le> 0 then h(a := None) else h(a \<mapsto> f\<lparr> fs_refs := fs_refs f - 1 \<rparr>))"

text \<open>A sequential handle: the object it points to and its position.\<close>

definition Sequential_Read :: "nat \<Rightarrow> nat \<Rightarrow> file_heap \<times> nat \<Rightarrow> Status \<times> slice \<times> file_heap \<times> nat" where
  "Sequential_Read a n = (\<lambda>(h, pos).
     (case h a of
        None \<Rightarrow> (IOError [] [], [], h, pos)
      | Some f \<Rightarrow> (let (s, result) = FileState_Read f pos n
                 in (s, result, h, if status_ok s then pos + length result else pos))))"

definition Sequential_Skip :: "nat \<Rightarrow> nat \<Rightarrow> file_heap \<times> nat \<Rightarrow> Status \<times> file_heap \<times> nat" where
  "Sequential_Skip a n = (\<lambda>(h, pos).
     (case h a of
        None \<Rightarrow> (IOError [] [], h, pos)
      | Some f \<Rightarrow> if pos > fs_size f then (IOError (bytes_of_string ''pos_ > file_->Size()'') [], h, pos)
                else let available = fs_size f - pos; n = (if n > available then available else n)
                     in (Status_OK, h, pos + n)))"

definition mem_SequentialFile :: "nat \<Rightarrow> (file_heap \<times> nat) SequentialFile" where
  "mem_SequentialFile a = \<lparr> sf_Read = Sequential_Read a, sf_Skip = Sequential_Skip a \<rparr>"

definition mem_RandomAccessFile :: "nat \<Rightarrow> file_heap RandomAccessFile" where
  "mem_RandomAccessFile a =
     \<lparr> rf_Read = (\<lambda>offset n h. case h a of None \<Rightarrow> (IOError [] [], []) | Some f \<Rightarrow> FileState_Read f offset n) \<rparr>"

definition mem_WritableFile :: "slice \<Rightarrow> nat \<Rightarrow> file_heap WritableFile" where
  "mem_WritableFile fresh a =
     \<lparr> wf_Append = (\<lambda>data h. case h a of None \<Rightarrow> (IOError [] [], h)
                      | Some f \<Rightarrow> (let (s, f') = FileState_Append fresh f data in (s, h(a \<mapsto> f')))),
       wf_Close = (\<lambda>h. (Status_OK, h)),
       wf_Flush = (\<lambda>h. (Status_OK, h)),
       wf_Sync = (\<lambda>h. (Status_OK, h)) \<rparr>"

section \<open>The environment\<close>

record MemEnv =
  me_heap :: file_heap
  me_next :: nat
  me_files :: "(slice \<times> nat option) list"

text \<open>\<^verbatim>\<open>file_map_\<close> is an ordered map from names to pointers, a list sorted by name.\<close>

fun insert_name :: "slice \<Rightarrow> nat option \<Rightarrow> (slice \<times> nat option) list \<Rightarrow> (slice \<times> nat option) list" where
  "insert_name k p [] = [(k, p)]"
| "insert_name k p ((k', p') # xs) =
     (if Slice_compare k k' < 0 then (k, p) # (k', p') # xs
      else if k = k' then (k, p) # xs else (k', p') # insert_name k p xs)"

definition find_file :: "MemEnv \<Rightarrow> slice \<Rightarrow> nat option option" where
  "find_file e fname = map_of (me_files e) fname"

definition erase_file :: "MemEnv \<Rightarrow> slice \<Rightarrow> MemEnv" where
  "erase_file e fname = e\<lparr> me_files := filter (\<lambda>(k, _). k \<noteq> fname) (me_files e) \<rparr>"

definition set_file :: "MemEnv \<Rightarrow> slice \<Rightarrow> nat option \<Rightarrow> MemEnv" where
  "set_file e fname p = e\<lparr> me_files := insert_name fname p (me_files e) \<rparr>"

text \<open>\<^verbatim>\<open>operator[]\<close>: a missing name is inserted with a null pointer.\<close>

definition index_file :: "MemEnv \<Rightarrow> slice \<Rightarrow> MemEnv \<times> nat option" where
  "index_file e fname = (case find_file e fname of None \<Rightarrow> (set_file e fname None, None) | Some p \<Rightarrow> (e, p))"

text \<open>Dereferencing a null pointer is undefined: the operation has no result (\<open>None\<close>).\<close>

definition ref_file :: "MemEnv \<Rightarrow> nat option \<Rightarrow> MemEnv option" where
  "ref_file e p = (case p of None \<Rightarrow> None | Some a \<Rightarrow> Some (e\<lparr> me_heap := file_Ref a (me_heap e) \<rparr>))"

definition unref_file :: "MemEnv \<Rightarrow> nat option \<Rightarrow> MemEnv option" where
  "unref_file e p = (case p of None \<Rightarrow> None | Some a \<Rightarrow> Some (e\<lparr> me_heap := file_Unref a (me_heap e) \<rparr>))"

definition alloc_file :: "MemEnv \<Rightarrow> MemEnv \<times> nat" where
  "alloc_file e =
     (e\<lparr> me_heap := file_Ref (me_next e) ((me_heap e)(me_next e \<mapsto> new_FileState)), me_next := me_next e + 1 \<rparr>, me_next e)"

definition NewReadableFile :: "MemEnv \<Rightarrow> slice \<Rightarrow> (Status \<times> nat option \<times> MemEnv) option" where
  "NewReadableFile e fname =
     (case find_file e fname of
        None \<Rightarrow> Some (IOError fname (bytes_of_string ''File not found''), None, e)
      | Some p \<Rightarrow> (case ref_file e p of None \<Rightarrow> None | Some e' \<Rightarrow> Some (Status_OK, p, e')))"

definition NewSequentialFile :: "MemEnv \<Rightarrow> slice \<Rightarrow> (Status \<times> nat option \<times> MemEnv) option" where
  "NewSequentialFile e fname = NewReadableFile e fname"

definition NewRandomAccessFile :: "MemEnv \<Rightarrow> slice \<Rightarrow> (Status \<times> nat option \<times> MemEnv) option" where
  "NewRandomAccessFile e fname = NewReadableFile e fname"

definition NewDirectIORandomAccessFile :: "MemEnv \<Rightarrow> slice \<Rightarrow> (Status \<times> nat option \<times> MemEnv) option" where
  "NewDirectIORandomAccessFile e fname = NewReadableFile e fname"

definition NewWritableFile :: "MemEnv \<Rightarrow> slice \<Rightarrow> (Status \<times> nat \<times> MemEnv) option" where
  "NewWritableFile e fname =
     (case find_file e fname of
        None \<Rightarrow> let (e1, a) = alloc_file e; e2 = set_file e1 fname (Some a)
                in Some (Status_OK, a, e2\<lparr> me_heap := file_Ref a (me_heap e2) \<rparr>)
      | Some None \<Rightarrow> None
      | Some (Some a) \<Rightarrow>
          let h = me_heap e; h' = (case h a of None \<Rightarrow> h | Some f \<Rightarrow> h(a \<mapsto> FileState_Truncate f))
          in Some (Status_OK, a, e\<lparr> me_heap := file_Ref a h' \<rparr>))"

definition NewAppendableFile :: "MemEnv \<Rightarrow> slice \<Rightarrow> (Status \<times> nat \<times> MemEnv) option" where
  "NewAppendableFile e fname =
     (let (e1, p) = index_file e fname;
          (e2, a) = (case p of None \<Rightarrow> alloc_file e1 | Some a \<Rightarrow> (e1, a))
      in Some (Status_OK, a, e2\<lparr> me_heap := file_Ref a (me_heap e2) \<rparr>))"

definition FileExists :: "MemEnv \<Rightarrow> slice \<Rightarrow> bool" where
  "FileExists e fname = (find_file e fname \<noteq> None)"

definition GetChildren :: "MemEnv \<Rightarrow> slice \<Rightarrow> Status \<times> slice list" where
  "GetChildren e dir =
     (Status_OK,
      map (\<lambda>(fname, _). drop (length dir + 1) fname)
        (filter (\<lambda>(fname, _). length fname \<ge> length dir + 1 \<and> fname ! length dir = of_char CHR ''/'' \<and>
            take (length dir) fname = dir) (me_files e)))"

definition RemoveFileInternal :: "MemEnv \<Rightarrow> slice \<Rightarrow> MemEnv option" where
  "RemoveFileInternal e fname =
     (case find_file e fname of
        None \<Rightarrow> Some e
      | Some p \<Rightarrow> (case unref_file e p of None \<Rightarrow> None | Some e' \<Rightarrow> Some (erase_file e' fname)))"

definition RemoveFile :: "MemEnv \<Rightarrow> slice \<Rightarrow> (Status \<times> MemEnv) option" where
  "RemoveFile e fname =
     (case find_file e fname of
        None \<Rightarrow> Some (IOError fname (bytes_of_string ''File not found''), e)
      | Some _ \<Rightarrow> map_option (Pair Status_OK) (RemoveFileInternal e fname))"

definition GetFileSize :: "MemEnv \<Rightarrow> slice \<Rightarrow> (Status \<times> nat) option" where
  "GetFileSize e fname =
     (case find_file e fname of
        None \<Rightarrow> Some (IOError fname (bytes_of_string ''File not found''), 0)
      | Some p \<Rightarrow> (case Option.bind p (me_heap e) of None \<Rightarrow> None | Some f \<Rightarrow> Some (Status_OK, fs_size f)))"

definition RenameFile :: "MemEnv \<Rightarrow> slice \<Rightarrow> slice \<Rightarrow> (Status \<times> MemEnv) option" where
  "RenameFile e src target =
     (case find_file e src of
        None \<Rightarrow> Some (IOError src (bytes_of_string ''File not found''), e)
      | Some _ \<Rightarrow>
          (case RemoveFileInternal e target of
             None \<Rightarrow> None
           | Some e1 \<Rightarrow>
               let (e2, p) = index_file e1 src; e3 = set_file e2 target p
               in Some (Status_OK, erase_file e3 src)))"

section \<open>A file is a byte string\<close>

definition fs_inv :: "FileState \<Rightarrow> bool" where
  "fs_inv f \<longleftrightarrow> (\<forall>b \<in> set (fs_blocks f). length b = kMemBlockSize) \<and>
     length (fs_blocks f) = (fs_size f + 8191) div kMemBlockSize"

definition fs_contents :: "FileState \<Rightarrow> slice" where
  "fs_contents f = take (fs_size f) (concat (fs_blocks f))"

lemma length_concat_blocks:
  "\<forall>b \<in> set bs. length b = n \<Longrightarrow> length (concat bs) = n * length bs"
  by (induction bs) auto

lemma length_fs_contents [simp]: "fs_inv f \<Longrightarrow> length (fs_contents f) = fs_size f"
  using length_concat_blocks [of "fs_blocks f" 8192] by (auto simp: fs_inv_def fs_contents_def)

lemma last_block_split:
  assumes "fs_inv f" "length fresh = kMemBlockSize"
  defines "offset \<equiv> fs_size f mod kMemBlockSize"
  obtains bs b where "(if offset \<noteq> 0 then fs_blocks f else fs_blocks f @ [fresh]) = bs @ [b]"
    "\<forall>b \<in> set (bs @ [b]). length b = kMemBlockSize" "fs_size f = kMemBlockSize * length bs + offset"
    "fs_contents f = concat bs @ take offset b"
proof (cases "offset = 0")
  case True
  then have sz: "fs_size f = 8192 * length (fs_blocks f)" using assms(1) by (auto simp: fs_inv_def offset_def)
  then show ?thesis
    using True assms length_concat_blocks [of "fs_blocks f" 8192]
    by (intro that [of "fs_blocks f" fresh]) (auto simp: fs_inv_def fs_contents_def)
next
  case False
  then have n: "length (fs_blocks f) = Suc (fs_size f div 8192)"
  proof -
    have "fs_size f = 8192 * (fs_size f div 8192) + offset" "0 < offset" "offset < 8192"
      using False by (simp_all add: offset_def)
    then have "(fs_size f + 8191) div 8192 = Suc (fs_size f div 8192)" by linarith
    then show ?thesis using assms(1) by (simp add: fs_inv_def)
  qed
  then obtain bs b where bs: "fs_blocks f = bs @ [b]" by (cases "fs_blocks f" rule: rev_cases) auto
  have sz: "fs_size f = 8192 * length bs + offset" using n bs by (simp add: offset_def)
  have "length (concat bs) = 8192 * length bs"
    using assms(1) bs by (intro length_concat_blocks) (auto simp: fs_inv_def)
  then have "fs_contents f = concat bs @ take offset b" by (simp add: fs_contents_def bs sz)
  then show ?thesis
    using False bs sz assms(1) by (intro that [of bs b]) (auto simp: fs_inv_def)
qed

lemma Append_loop_contents:
  assumes "fs_inv f" "length fresh = kMemBlockSize"
  shows "fs_inv (Append_loop fresh f src) \<and> fs_contents (Append_loop fresh f src) = fs_contents f @ src \<and>
    fs_refs (Append_loop fresh f src) = fs_refs f"
  using assms(1)
proof (induction "length src" arbitrary: f src rule: less_induct)
  case less
  show ?case
  proof (cases "src = []")
    case True
    then show ?thesis using less.prems by (simp add: Append_loop.simps)
  next
    case False
    define offset where "offset = fs_size f mod 8192"
    define avail where "avail = min (8192 - offset) (length src)"
    obtain bs b where b: "(if offset \<noteq> 0 then fs_blocks f else fs_blocks f @ [fresh]) = bs @ [b]"
      "\<forall>b \<in> set (bs @ [b]). length b = 8192" "fs_size f = 8192 * length bs + offset"
      "fs_contents f = concat bs @ take offset b"
      using last_block_split [OF less.prems assms(2)] unfolding offset_def by metis
    define f' where "f' = f\<lparr> fs_blocks := bs @ [copy_at b offset (take avail src)], fs_size := fs_size f + avail \<rparr>"
    have ao: "offset < 8192" "0 < avail" "avail \<le> 8192 - offset" "avail \<le> length src"
      using False by (auto simp: offset_def avail_def)
    have eq: "Append_loop fresh f src = Append_loop fresh f' (drop avail src)"
      using False by (subst Append_loop.simps)
        (simp only: Let_def offset_def [symmetric] b(1) f'_def avail_def [symmetric] if_False
          butlast_snoc last_snoc)
    have lb: "length (copy_at b offset (take avail src)) = 8192" using ao b(2) by (simp add: copy_at_def)
    have "(8192 * length bs + offset + avail + 8191) div 8192 = Suc (length bs)" using ao by linarith
    then have "fs_inv f'" using b(2,3) lb by (auto simp: fs_inv_def f'_def)
    moreover have "fs_contents f' = fs_contents f @ take avail src"
      using b ao length_concat_blocks [of bs 8192] by (simp add: fs_contents_def f'_def copy_at_def)
    moreover have "length (drop avail src) < length src" using ao by simp
    ultimately show ?thesis
      using less.hyps [of "drop avail src" f'] unfolding eq by (simp add: f'_def)
  qed
qed

lemma concat_block_split:
  assumes "\<forall>b \<in> set bs. length b = n" "k < length bs"
  shows "drop (n * k) (concat bs) = bs ! k @ drop (n * (k + 1)) (concat bs)"
proof -
  have "length (concat (take k bs)) = n * k"
    using assms length_concat_blocks [of "take k bs" n] by (auto dest: in_set_takeD)
  moreover have "concat bs = concat (take k bs) @ bs ! k @ concat (drop (Suc k) bs)"
    using assms(2) by (metis concat.simps(2) concat_append id_take_nth_drop)
  ultimately show ?thesis using assms by (metis add.commute append_eq_conv_conj drop_drop nth_mem mult.right_neutral distrib_left)
qed

lemma Read_loop_concat:
  assumes "\<forall>b \<in> set bs. length b = kMemBlockSize" "kMemBlockSize * k + bo + n \<le> length (concat bs)" "bo < kMemBlockSize"
  shows "Read_loop bs k bo n = take n (drop (kMemBlockSize * k + bo) (concat bs))"
  using assms(2,3)
proof (induction n arbitrary: k bo rule: less_induct)
  case (less n)
  show ?case
  proof (cases "n = 0")
    case True
    then show ?thesis by (simp add: Read_loop.simps)
  next
    case False
    define avail where "avail = min (8192 - bo) n"
    have k: "k < length bs"
      using less.prems False length_concat_blocks [OF assms(1)] by simp
    have d: "drop (8192 * k + bo) (concat bs) = drop bo (bs ! k) @ drop (8192 * (k + 1)) (concat bs)"
    proof -
      have "drop (8192 * k + bo) (concat bs) = drop bo (bs ! k @ drop (8192 * (k + 1)) (concat bs))"
        using concat_block_split [OF assms(1) k] by (metis add.commute drop_drop)
      then show ?thesis using assms(1) k less.prems(2) by simp
    qed
    have "Read_loop bs (k + 1) 0 (n - avail) = take (n - avail) (drop (8192 * (k + 1)) (concat bs))"
    proof (cases "n \<le> 8192 - bo")
      case True
      then show ?thesis by (simp add: avail_def Read_loop.simps)
    next
      case False
      then have "n - avail < n" "8192 * (k + 1) + 0 + (n - avail) \<le> length (concat bs)"
        using less.prems by (auto simp: avail_def)
      from less.IH [OF this] show ?thesis by simp
    qed
    moreover have "length (bs ! k) = 8192" using assms(1) k by simp
    ultimately show ?thesis
      using False less.prems(2) unfolding d
      by (subst Read_loop.simps) (auto simp: Let_def avail_def min_def)
  qed
qed

lemma FileState_Read_contents:
  assumes "fs_inv f" "offset \<le> fs_size f"
  shows "FileState_Read f offset n = (Status_OK, take n (drop offset (fs_contents f)))"
proof -
  have len: "length (concat (fs_blocks f)) = 8192 * length (fs_blocks f)" "fs_size f \<le> 8192 * length (fs_blocks f)"
    using assms(1) length_concat_blocks [of "fs_blocks f" 8192] by (auto simp: fs_inv_def)
  define m where "m = min n (fs_size f - offset)"
  have "Read_loop (fs_blocks f) (offset div 8192) (offset mod 8192) m = take m (drop offset (concat (fs_blocks f)))"
    using Read_loop_concat [of "fs_blocks f" "offset div 8192" "offset mod 8192" m] assms len
    by (auto simp: fs_inv_def m_def)
  also have "\<dots> = take n (drop offset (fs_contents f))"
    using assms by (auto simp: fs_contents_def m_def take_drop min_def)
  finally show ?thesis
    using assms by (auto simp: FileState_Read_def Let_def m_def min_def split: if_splits)
qed

definition heap_file :: "nat \<Rightarrow> file_heap \<Rightarrow> bool" where
  "heap_file a h \<longleftrightarrow> (case h a of None \<Rightarrow> False | Some f \<Rightarrow> fs_inv f)"

definition heap_contents :: "nat \<Rightarrow> file_heap \<Rightarrow> slice" where
  "heap_contents a h = (case h a of None \<Rightarrow> [] | Some f \<Rightarrow> fs_contents f)"

text \<open>The memory allocator hands out blocks of the size it was asked for.\<close>

locale fresh_blocks =
  fixes fresh :: slice
  assumes fresh_length: "length fresh = kMemBlockSize"

sublocale fresh_blocks \<subseteq> mem_writer: reliable_writer "mem_WritableFile fresh a" "heap_file a" "heap_contents a" for a
proof
  fix h d assume "heap_file a h"
  then obtain f where f: "h a = Some f" "fs_inv f" by (auto simp: heap_file_def split: option.splits)
  show "\<exists>h'. wf_Append (mem_WritableFile fresh a) d h = (Status_OK, h') \<and> heap_file a h' \<and>
      heap_contents a h' = heap_contents a h @ d"
    using Append_loop_contents [OF f(2) fresh_length, of d]
    by (auto simp: mem_WritableFile_def f heap_file_def heap_contents_def FileState_Append_def)
qed (auto simp: mem_WritableFile_def)

context fresh_blocks
begin

lemmas axioms_writer = mem_writer.reliable_writer_axioms

end

interpretation zero_fresh: fresh_blocks "replicate 8192 0"
  by unfold_locales simp

interpretation mem_reader: reliable_reader "mem_SequentialFile a"
    "\<lambda>(h, pos). heap_file a h \<and> pos \<le> length (heap_contents a h)" "\<lambda>(h, pos). drop pos (heap_contents a h)" for a
proof
  fix n :: nat and s :: "file_heap \<times> nat"
  assume s: "case s of (h, pos) \<Rightarrow> heap_file a h \<and> pos \<le> length (heap_contents a h)"
  then obtain h pos f where f: "s = (h, pos)" "h a = Some f" "fs_inv f" "pos \<le> fs_size f"
    by (auto simp: heap_file_def heap_contents_def split: option.splits prod.splits)
  show "\<exists>f'. sf_Read (mem_SequentialFile a) n s = (Status_OK, take n (case s of (h, pos) \<Rightarrow> drop pos (heap_contents a h)), f') \<and>
      (case f' of (h, pos) \<Rightarrow> heap_file a h \<and> pos \<le> length (heap_contents a h)) \<and>
      (case f' of (h, pos) \<Rightarrow> drop pos (heap_contents a h)) = drop n (case s of (h, pos) \<Rightarrow> drop pos (heap_contents a h))"
    using f FileState_Read_contents [OF f(3,4), of n]
    by (auto simp: mem_SequentialFile_def Sequential_Read_def heap_file_def heap_contents_def min_def add.commute)
  show "\<exists>f'. sf_Skip (mem_SequentialFile a) n s = (Status_OK, f') \<and>
      (case f' of (h, pos) \<Rightarrow> heap_file a h \<and> pos \<le> length (heap_contents a h)) \<and>
      (case f' of (h, pos) \<Rightarrow> drop pos (heap_contents a h)) = drop n (case s of (h, pos) \<Rightarrow> drop pos (heap_contents a h))"
    using f by (cases "n > fs_size f - pos")
      (simp_all add: mem_SequentialFile_def Sequential_Skip_def heap_file_def heap_contents_def add.commute)
qed

interpretation mem_random: reliable_random_reader "mem_RandomAccessFile a" "heap_file a" "heap_contents a" for a
  by unfold_locales
    (auto simp: mem_RandomAccessFile_def heap_file_def heap_contents_def FileState_Read_contents split: option.splits)

section \<open>Properties\<close>

text \<open>C31. An in-memory file made of 8 KB blocks behaves as a byte string: appending extends it, reading any
  range inside it returns that range cut at its end, and an offset past the end is an I/O error.\<close>
theorem mem_file_refines:
  assumes "fs_inv f" and "length fresh = kMemBlockSize"
  shows "fs_inv (snd (FileState_Append fresh f d)) \<and>
    fs_contents (snd (FileState_Append fresh f d)) = fs_contents f @ d \<and>
    (if offset \<le> length (fs_contents f)
     then FileState_Read f offset n = (Status_OK, take n (drop offset (fs_contents f)))
     else IsIOError (fst (FileState_Read f offset n)))"
  using assms Append_loop_contents [OF assms, of d] FileState_Read_contents [OF assms(1), of offset n]
  by (simp add: FileState_Append_def FileState_Read_def IOError_def status_class)

theorem mem_file_refines_witness:
  "fs_contents (snd (FileState_Append (replicate 8192 0) new_FileState [1, 2, 3])) = [1, 2, 3]"
  using mem_file_refines [of new_FileState "replicate 8192 0" "[1, 2, 3]"]
  by (simp add: fs_inv_def fs_contents_def new_FileState_def)

text \<open>C32. Opening a file that does not exist for appending returns a handle to a new file object, but puts a
  null pointer under its name: the file is said to exist, and opening it for reading, opening it for
  writing, asking for its size and removing it all dereference the null pointer.\<close>
theorem mem_appendable_null:
  assumes "find_file e fname = None"
  shows "\<exists>a e'. NewAppendableFile e fname = Some (Status_OK, a, e') \<and> FileExists e' fname \<and>
    NewSequentialFile e' fname = None \<and> NewWritableFile e' fname = None \<and> GetFileSize e' fname = None \<and>
    RemoveFile e' fname = None"
proof -
  have m: "map_of (insert_name k p xs) k = Some p" for k p xs
    by (induction xs) (auto simp: Slice_compare_lex3)
  show ?thesis
    using assms m
    by (auto simp: NewAppendableFile_def index_file_def find_file_def set_file_def alloc_file_def FileExists_def
        NewSequentialFile_def NewReadableFile_def ref_file_def NewWritableFile_def GetFileSize_def RemoveFile_def
        RemoveFileInternal_def unref_file_def)
qed

theorem mem_appendable_null_witness:
  "\<exists>a e'. NewAppendableFile \<lparr> me_heap = (\<lambda>_. None), me_next = 0, me_files = [] \<rparr> [0x61] = Some (Status_OK, a, e') \<and>
     NewSequentialFile e' [0x61] = None"
  using mem_appendable_null [of "\<lparr> me_heap = (\<lambda>_. None), me_next = 0, me_files = [] \<rparr>" "[0x61]"]
  by (auto simp: find_file_def)

text \<open>C33. Renaming an existing file to its own name removes it.\<close>
theorem mem_rename_self:
  assumes "find_file e fname = Some (Some a)"
  shows "\<exists>e'. RenameFile e fname fname = Some (Status_OK, e') \<and> \<not> FileExists e' fname"
proof -
  have "map_of (filter (\<lambda>(k, _). k \<noteq> fname) xs) fname = None" for xs :: "(slice \<times> nat option) list"
    by (induction xs) auto
  then show ?thesis
    using assms
    by (auto simp: RenameFile_def RemoveFileInternal_def find_file_def unref_file_def erase_file_def index_file_def
        set_file_def FileExists_def split: prod.splits option.splits)
qed

theorem mem_rename_self_witness:
  "\<exists>e'. RenameFile \<lparr> me_heap = [0 \<mapsto> new_FileState], me_next = 1, me_files = [([0x61], Some 0)] \<rparr> [0x61] [0x61]
     = Some (Status_OK, e') \<and> \<not> FileExists e' [0x61]"
  using mem_rename_self [of "\<lparr> me_heap = [0 \<mapsto> new_FileState], me_next = 1, me_files = [([0x61], Some 0)] \<rparr>" "[0x61]" 0]
  by (simp add: find_file_def)

end
