(* ===== verification/Log_Reader.thy ===== *)
theory Log_Reader
  imports Log_Writer Mem_Env
begin

text \<open>
  \<^verbatim>\<open>db/log_reader.h\<close> and \<^verbatim>\<open>db/log_reader.cc\<close>. The file is any \<^verbatim>\<open>SequentialFile\<close>; the reporter, when there is
  one, is the list of the calls made to it. The loop of \<^verbatim>\<open>ReadPhysicalRecord\<close> runs at most twice; the loop of
  \<^verbatim>\<open>ReadRecord\<close> ends only when the file does, so it is a partial function.
\<close>

unbundle bit_operations_syntax

abbreviation (input) kEof :: u32 where "kEof \<equiv> 5"
abbreviation (input) kBadRecord :: u32 where "kBadRecord \<equiv> 6"

record 'f log_reader =
  lr_file :: 'f
  lr_reporter :: bool
  lr_checksum :: bool
  lr_buffer :: slice
  lr_eof :: bool
  lr_last_record_offset :: u64
  lr_end_of_buffer_offset :: u64
  lr_initial_offset :: u64
  lr_resyncing :: bool
  lr_reports :: "(u64 \<times> Status) list"

definition new_Reader :: "'f \<Rightarrow> bool \<Rightarrow> bool \<Rightarrow> u64 \<Rightarrow> 'f log_reader" where
  "new_Reader file reporter checksum initial_offset =
     \<lparr> lr_file = file, lr_reporter = reporter, lr_checksum = checksum, lr_buffer = [], lr_eof = False,
       lr_last_record_offset = 0, lr_end_of_buffer_offset = 0, lr_initial_offset = initial_offset,
       lr_resyncing = (initial_offset > 0), lr_reports = [] \<rparr>"

definition ReportDrop :: "u64 \<Rightarrow> Status \<Rightarrow> 'f log_reader \<Rightarrow> 'f log_reader" where
  "ReportDrop bytes reason r =
     (if lr_reporter r \<and>
         lr_end_of_buffer_offset r - of_nat (length (lr_buffer r)) - bytes \<ge> lr_initial_offset r
      then r\<lparr> lr_reports := lr_reports r @ [(bytes, reason)] \<rparr> else r)"

definition ReportCorruption :: "nat \<Rightarrow> string \<Rightarrow> 'f log_reader \<Rightarrow> 'f log_reader" where
  "ReportCorruption bytes reason r = ReportDrop (of_nat bytes) (Corruption (bytes_of_string reason) []) r"

definition SkipToInitialBlock :: "'f SequentialFile \<Rightarrow> 'f log_reader \<Rightarrow> bool \<times> 'f log_reader" where
  "SkipToInitialBlock ops r =
     (let offset_in_block = lr_initial_offset r mod 32768;
          start = lr_initial_offset r - offset_in_block;
          start = (if offset_in_block > 32768 - 6 then start + 32768 else start);
          r = r\<lparr> lr_end_of_buffer_offset := start \<rparr>
      in if start > 0 then
           let (s, f) = sf_Skip ops (unat start) (lr_file r); r = r\<lparr> lr_file := f \<rparr>
           in if status_ok s then (True, r) else (False, ReportDrop start s r)
         else (True, r))"

text \<open>The part of \<^verbatim>\<open>ReadPhysicalRecord\<close> after the buffer holds a header.\<close>

definition ParsePhysicalRecord :: "slice \<Rightarrow> 'f log_reader \<Rightarrow> u32 \<times> slice \<times> 'f log_reader" where
  "ParsePhysicalRecord result r =
     (let header = lr_buffer r;
          a = ucast (header ! 4) AND 0xff :: u32;
          b = ucast (header ! 5) AND 0xff :: u32;
          type = scast (header ! 6) :: u32;
          length = unat (a OR push_bit 8 b);
          cleared = r\<lparr> lr_buffer := [] \<rparr>
      in if kHeaderSize + length > List.length header then
           if \<not> lr_eof r then (kBadRecord, result, ReportCorruption (List.length header) ''bad record length'' cleared)
           else (kEof, result, cleared)
         else if type = of_nat kZeroType \<and> length = 0 then (kBadRecord, result, cleared)
         else if lr_checksum r \<and> crc_Extend 0 (take (1 + length) (drop 6 header)) \<noteq> Unmask (DecodeFixed32 header)
         then (kBadRecord, result, ReportCorruption (List.length header) ''checksum mismatch'' cleared)
         else let r = r\<lparr> lr_buffer := drop (kHeaderSize + length) header \<rparr> in
           if lr_end_of_buffer_offset r - of_nat (List.length (lr_buffer r)) - of_nat kHeaderSize - of_nat length
                < lr_initial_offset r
           then (kBadRecord, [], r)
           else (type, take length (drop kHeaderSize header), r))"

function ReadPhysicalRecord :: "'f SequentialFile \<Rightarrow> slice \<Rightarrow> 'f log_reader \<Rightarrow> u32 \<times> slice \<times> 'f log_reader" where
  "ReadPhysicalRecord ops result r =
     (if length (lr_buffer r) < kHeaderSize then
        if \<not> lr_eof r then
          let sbf = sf_Read ops kBlockSize (lr_file r);
              buffer = fst (snd sbf);
              r = r\<lparr> lr_file := snd (snd sbf), lr_buffer := buffer,
                     lr_end_of_buffer_offset := lr_end_of_buffer_offset r + of_nat (length buffer) \<rparr>
          in if \<not> status_ok (fst sbf) then
               (kEof, result,
                (ReportDrop (of_nat kBlockSize) (fst sbf) (r\<lparr> lr_buffer := [] \<rparr>))\<lparr> lr_eof := True \<rparr>)
             else ReadPhysicalRecord ops result
                    (if length buffer < kBlockSize then r\<lparr> lr_eof := True \<rparr> else r)
        else (kEof, result, r\<lparr> lr_buffer := [] \<rparr>)
      else ParsePhysicalRecord result r)"
  by pat_completeness auto
termination
  by (relation "measure (\<lambda>(_, _, r). if length (lr_buffer r) < kHeaderSize \<and> \<not> lr_eof r then 1 else 0)") auto

declare ReadPhysicalRecord.simps [simp del]

partial_function (option) ReadRecord_loop ::
  "'f SequentialFile \<Rightarrow> bool \<Rightarrow> u64 \<Rightarrow> slice \<Rightarrow> slice \<Rightarrow> 'f log_reader \<Rightarrow> (slice option \<times> 'f log_reader) option" where
  "ReadRecord_loop ops in_fragmented_record prospective fragment scratch r =
     (let tfr = ReadPhysicalRecord ops fragment r;
          type = fst tfr; fragment = fst (snd tfr); r = snd (snd tfr);
          physical_record_offset = lr_end_of_buffer_offset r - of_nat (length (lr_buffer r)) - of_nat kHeaderSize
            - of_nat (length fragment)
      in if lr_resyncing r \<and> type = of_nat kMiddleType then
           ReadRecord_loop ops in_fragmented_record prospective fragment scratch r
         else if lr_resyncing r \<and> type = of_nat kLastType then
           ReadRecord_loop ops in_fragmented_record prospective fragment scratch (r\<lparr> lr_resyncing := False \<rparr>)
         else let r = r\<lparr> lr_resyncing := False \<rparr> in
         if type = of_nat kFullType then
           let r = (if in_fragmented_record \<and> scratch \<noteq> []
                    then ReportCorruption (length scratch) ''partial record without end(1)'' r else r)
           in Some (Some fragment, r\<lparr> lr_last_record_offset := physical_record_offset \<rparr>)
         else if type = of_nat kFirstType then
           let r = (if in_fragmented_record \<and> scratch \<noteq> []
                    then ReportCorruption (length scratch) ''partial record without end(2)'' r else r)
           in ReadRecord_loop ops True physical_record_offset fragment fragment r
         else if type = of_nat kMiddleType then
           if \<not> in_fragmented_record then
             ReadRecord_loop ops in_fragmented_record prospective fragment scratch
               (ReportCorruption (length fragment) ''missing start of fragmented record(1)'' r)
           else ReadRecord_loop ops in_fragmented_record prospective fragment (scratch @ fragment) r
         else if type = of_nat kLastType then
           if \<not> in_fragmented_record then
             ReadRecord_loop ops in_fragmented_record prospective fragment scratch
               (ReportCorruption (length fragment) ''missing start of fragmented record(2)'' r)
           else Some (Some (scratch @ fragment), r\<lparr> lr_last_record_offset := prospective \<rparr>)
         else if type = kEof then Some (None, r)
         else if type = kBadRecord then
           if in_fragmented_record then
             ReadRecord_loop ops False prospective fragment []
               (ReportCorruption (length scratch) ''error in middle of record'' r)
           else ReadRecord_loop ops in_fragmented_record prospective fragment scratch r
         else
           ReadRecord_loop ops False prospective fragment []
             (ReportCorruption (length fragment + (if in_fragmented_record then length scratch else 0))
               (''unknown record type '' @ decimal (unat type)) r))"

definition ReadRecord :: "'f SequentialFile \<Rightarrow> 'f log_reader \<Rightarrow> (slice option \<times> 'f log_reader) option" where
  "ReadRecord ops r =
     (if lr_last_record_offset r < lr_initial_offset r then
        let (b, r) = SkipToInitialBlock ops r
        in if \<not> b then Some (None, r) else ReadRecord_loop ops False 0 [] [] r
      else ReadRecord_loop ops False 0 [] [] r)"

text \<open>The loop of a client that reads a whole log.\<close>

partial_function (option) ReadAll ::
  "'f SequentialFile \<Rightarrow> slice list \<Rightarrow> 'f log_reader \<Rightarrow> (slice list \<times> 'f log_reader) option" where
  "ReadAll ops acc r =
     (case ReadRecord ops r of
        None \<Rightarrow> None
      | Some (rec, r') \<Rightarrow> (case rec of None \<Rightarrow> Some (acc, r') | Some x \<Rightarrow> ReadAll ops (acc @ [x]) r'))"

section \<open>Reading returns\<close>

lemma ReportDrop_simps [simp]:
  "lr_file (ReportDrop n s r) = lr_file r" "lr_buffer (ReportDrop n s r) = lr_buffer r"
  "lr_eof (ReportDrop n s r) = lr_eof r" "lr_resyncing (ReportDrop n s r) = lr_resyncing r"
  by (simp_all add: ReportDrop_def)

lemma ReportCorruption_simps [simp]:
  "lr_file (ReportCorruption n s r) = lr_file r" "lr_buffer (ReportCorruption n s r) = lr_buffer r"
  "lr_eof (ReportCorruption n s r) = lr_eof r" "lr_resyncing (ReportCorruption n s r) = lr_resyncing r"
  by (simp_all add: ReportCorruption_def)

lemma ParsePhysicalRecord_progress:
  assumes "ParsePhysicalRecord result r = (t, frag, r')" "kHeaderSize \<le> length (lr_buffer r)"
  shows "lr_file r' = lr_file r \<and> length (lr_buffer r') < length (lr_buffer r)"
  using assms by (auto simp: ParsePhysicalRecord_def Let_def split: if_splits)

context reliable_reader
begin

definition pending :: "'f log_reader \<Rightarrow> nat" where
  "pending r = length (rest (lr_file r)) + length (lr_buffer r)"

text \<open>A refill of the buffer with the next block.\<close>

definition refilled :: "'f \<Rightarrow> 'f log_reader \<Rightarrow> 'f log_reader" where
  "refilled f' r =
     (let b = take kBlockSize (rest (lr_file r));
          r1 = r\<lparr> lr_file := f', lr_buffer := b,
                  lr_end_of_buffer_offset := lr_end_of_buffer_offset r + of_nat (length b) \<rparr>
      in if length b < kBlockSize then r1\<lparr> lr_eof := True \<rparr> else r1)"

lemma refilled_simps [simp]:
  "lr_file (refilled f' r) = f'" "lr_buffer (refilled f' r) = take kBlockSize (rest (lr_file r))"
  "lr_eof (refilled f' r) \<longleftrightarrow> length (rest (lr_file r)) < kBlockSize \<or> lr_eof r"
  "lr_initial_offset (refilled f' r) = lr_initial_offset r" "lr_resyncing (refilled f' r) = lr_resyncing r"
  "lr_reports (refilled f' r) = lr_reports r"
  by (auto simp: refilled_def Let_def)

lemma ReadPhysicalRecord_cases:
  assumes "inv (lr_file r)"
  obtains "kHeaderSize \<le> length (lr_buffer r)" "ReadPhysicalRecord ops result r = ParsePhysicalRecord result r"
  | "length (lr_buffer r) < kHeaderSize" "lr_eof r" "ReadPhysicalRecord ops result r = (kEof, result, r\<lparr> lr_buffer := [] \<rparr>)"
  | f' where "length (lr_buffer r) < kHeaderSize" "\<not> lr_eof r" "inv f'" "rest f' = drop kBlockSize (rest (lr_file r))"
      "length (rest (lr_file r)) < kHeaderSize"
      "ReadPhysicalRecord ops result r = (kEof, result, (refilled f' r)\<lparr> lr_buffer := [] \<rparr>)"
  | f' where "length (lr_buffer r) < kHeaderSize" "\<not> lr_eof r" "inv f'" "rest f' = drop kBlockSize (rest (lr_file r))"
      "kHeaderSize \<le> length (rest (lr_file r))"
      "ReadPhysicalRecord ops result r = ParsePhysicalRecord result (refilled f' r)"
proof (cases "length (lr_buffer r) < kHeaderSize \<and> \<not> lr_eof r")
  case True
  obtain f' where f': "sf_Read ops kBlockSize (lr_file r) = (Status_OK, take kBlockSize (rest (lr_file r)), f')"
    "inv f'" "rest f' = drop kBlockSize (rest (lr_file r))" using read [OF assms] by blast
  have "ReadPhysicalRecord ops result r = ReadPhysicalRecord ops result (refilled f' r)"
    using True by (subst ReadPhysicalRecord.simps)
      (simp only: f'(1) refilled_def Let_def fst_conv snd_conv mk_Status_ok if_True simp_thms if_False)
  then have "ReadPhysicalRecord ops result r =
      (if length (rest (lr_file r)) < kHeaderSize then (kEof, result, (refilled f' r)\<lparr> lr_buffer := [] \<rparr>)
       else ParsePhysicalRecord result (refilled f' r))"
    by (cases "length (rest (lr_file r)) < 7") (auto simp: ReadPhysicalRecord.simps [of ops result "refilled f' r"])
  then show ?thesis
    using True f'(2,3) that(3,4) [of f'] by (cases "length (rest (lr_file r)) < kHeaderSize") auto
next
  case False
  then show ?thesis
    using that(1,2) by (cases "length (lr_buffer r) < kHeaderSize") (auto simp: ReadPhysicalRecord.simps)
qed

lemma ReadPhysicalRecord_progress:
  assumes "inv (lr_file r)" "ReadPhysicalRecord ops result r = (t, frag, r')"
  shows "inv (lr_file r') \<and> (t \<noteq> kEof \<longrightarrow> pending r' < pending r)"
  using assms(1)
proof (cases rule: ReadPhysicalRecord_cases [of r result])
  case 1
  then show ?thesis using assms ParsePhysicalRecord_progress [of result r t frag r'] by (simp add: pending_def)
next
  case (4 f')
  have "pending (refilled f' r) \<le> pending r" using 4 by (simp add: pending_def)
  moreover have "lr_file r' = f' \<and> length (lr_buffer r') < length (lr_buffer (refilled f' r))"
    using 4 assms(2) ParsePhysicalRecord_progress [of result "refilled f' r" t frag r'] by simp
  ultimately show ?thesis using 4 by (simp add: pending_def del: refilled_simps(2))
qed (use assms in auto)

lemma ReadRecord_loop_returns:
  assumes "inv (lr_file r)"
  shows "\<exists>rec r'. ReadRecord_loop ops ifr prosp frag scratch r = Some (rec, r') \<and> inv (lr_file r') \<and>
    (rec \<noteq> None \<longrightarrow> pending r' < pending r)"
  using assms
proof (induction "pending r" arbitrary: ifr prosp frag scratch r rule: less_induct)
  case less
  obtain t frag' r1 where rd: "ReadPhysicalRecord ops frag r = (t, frag', r1)" by (metis surj_pair)
  note p = ReadPhysicalRecord_progress [OF less.prems rd]
  define ret where "ret x \<longleftrightarrow> (\<exists>rec r'. x = Some (rec, r') \<and> inv (lr_file r') \<and> (rec \<noteq> None \<longrightarrow> pending r' < pending r))"
    for x :: "(slice option \<times> 'f log_reader) option"
  have IH: "ret (ReadRecord_loop ops ifr prosp frag scratch r2)"
    if "t \<noteq> kEof" "lr_file r2 = lr_file r1" "lr_buffer r2 = lr_buffer r1" for ifr prosp frag scratch r2
  proof -
    have "pending r2 < pending r" using p that by (simp add: pending_def)
    with less.hyps [of r2 ifr prosp frag scratch] p that show ?thesis unfolding ret_def by (metis less_trans)
  qed
  have base: "ret (Some (rec, r2))" if "t \<noteq> kEof \<or> rec = None" "lr_file r2 = lr_file r1" "lr_buffer r2 = lr_buffer r1" for rec r2
    using p that by (auto simp: ret_def pending_def)
  have "ret (ReadRecord_loop ops ifr prosp frag scratch r)"
    by (subst ReadRecord_loop.simps) (auto simp: rd Let_def intro!: IH base)
  then show ?case unfolding ret_def .
qed

lemma skip_proj:
  assumes "inv f"
  shows "fst (sf_Skip ops n f) = Status_OK" "inv (snd (sf_Skip ops n f))" "rest (snd (sf_Skip ops n f)) = drop n (rest f)"
  using skip [OF assms, of n] by auto

lemma ReadRecord_returns:
  assumes "inv (lr_file r)"
  shows "\<exists>rec r'. ReadRecord ops r = Some (rec, r') \<and> inv (lr_file r') \<and> (rec \<noteq> None \<longrightarrow> pending r' < pending r)"
proof (cases "lr_last_record_offset r < lr_initial_offset r")
  case True
  obtain b r1 where sk: "SkipToInitialBlock ops r = (b, r1)" by fastforce
  then have "inv (lr_file r1)" "pending r1 \<le> pending r"
    using assms skip_proj [OF assms]
    by (auto simp: SkipToInitialBlock_def Let_def pending_def split_beta split: if_splits)
  then show ?thesis
    using True sk ReadRecord_loop_returns [of r1 False 0 "[]" "[]"] by (auto simp: ReadRecord_def)
next
  case False
  then show ?thesis using ReadRecord_loop_returns [OF assms] by (simp add: ReadRecord_def)
qed

lemma ReadAll_returns:
  assumes "inv (lr_file r)"
  shows "\<exists>xs r'. ReadAll ops acc r = Some (xs, r')"
  using assms
proof (induction "pending r" arbitrary: acc r rule: less_induct)
  case less
  then show ?case
    using ReadRecord_returns [OF less.prems] by (subst ReadAll.simps) (fastforce split: option.splits)
qed

text \<open>
  The reader is at position \<open>p\<close> of a log \<open>c\<close> that it reads from the start, and has read \<open>k\<close> blocks.
\<close>

definition rd_at :: "slice \<Rightarrow> nat \<Rightarrow> nat \<Rightarrow> 'f log_reader \<Rightarrow> bool" where
  "rd_at c k p r \<longleftrightarrow> (let e = min (length c) (kBlockSize * k) in
     inv (lr_file r) \<and> rest (lr_file r) = drop e c \<and> lr_buffer r = take (e - p) (drop p c) \<and> p \<le> e \<and>
     kBlockSize * (k - 1) \<le> p \<and> lr_eof r = (e < kBlockSize * k) \<and> lr_initial_offset r = 0 \<and> \<not> lr_resyncing r)"

lemma rd_at_refill:
  assumes "rd_at c k p r" "kBlockSize * k \<le> length c" "kBlockSize * k < p + kHeaderSize"
  obtains r1 where "rd_at c (k + 1) (kBlockSize * k) r1" "lr_reports r1 = lr_reports r"
    "kHeaderSize \<le> length c - kBlockSize * k \<Longrightarrow> ReadPhysicalRecord ops frag r = ParsePhysicalRecord frag r1"
    "length c - kBlockSize * k < kHeaderSize \<Longrightarrow> ReadPhysicalRecord ops frag r = (kEof, frag, r1\<lparr> lr_buffer := [] \<rparr>)"
proof -
  note r = assms(1) [unfolded rd_at_def Let_def]
  have e: "min (length c) (kBlockSize * k) = kBlockSize * k" using assms(2) by simp
  have b: "length (lr_buffer r) < kHeaderSize" "\<not> lr_eof r" "inv (lr_file r)" using r assms e by auto
  have len: "length (rest (lr_file r)) = length c - kBlockSize * k" using r e by simp
  have at: "rd_at c (k + 1) (kBlockSize * k) (refilled f' r)" if "inv f'" "rest f' = drop kBlockSize (rest (lr_file r))" for f'
    using r that assms(2) e by (auto simp: rd_at_def Let_def algebra_simps min_def)
  from b(3) show ?thesis
  proof (cases rule: ReadPhysicalRecord_cases [of r frag])
    case (3 f')
    then show ?thesis using at len by (intro that [of "refilled f' r"]) auto
  next
    case (4 f')
    then show ?thesis using at len by (intro that [of "refilled f' r"]) auto
  qed (use b in auto)
qed

end

section \<open>Reading what was written\<close>

lemma unat_length_bytes:
  assumes "n < 2 ^ 16"
  shows "unat ((ucast (ucast (of_nat n AND 0xff :: u32) :: byte) AND 0xff :: u32) OR
    push_bit 8 (ucast (ucast (drop_bit 8 (of_nat n :: u32)) :: byte) AND 0xff)) = n"
proof -
  have n: "n < 2 ^ 32" using assms by simp
  have "(of_nat n :: u32) = take_bit 16 (of_nat n)"
    using assms n by (simp add: word_unat_eq_iff unsigned_take_bit_eq unat_of_nat_small take_bit_nat_eq_self)
  then have h: "\<not> bit (of_nat n :: u32) i" if "16 \<le> i" for i using that by (metis bit_take_bit_iff not_le)
  have "(ucast (ucast (of_nat n AND 0xff :: u32) :: byte) AND 0xff :: u32) OR
    push_bit 8 (ucast (ucast (drop_bit 8 (of_nat n :: u32)) :: byte) AND 0xff) = of_nat n" (is "?w = _")
  proof (rule bit_word_eqI)
    fix i assume "i < LENGTH(32)"
    then show "bit ?w i = bit (of_nat n :: u32) i"
      using h [of i]
      by (simp only: bit_or_iff bit_and_iff bit_ff bit_ucast_iff bit_push_bit_iff bit_drop_bit_eq o_apply)
         (cases "i < 8"; cases "i < 16"; auto)
  qed
  then show ?thesis using n by (simp add: unat_of_nat_small)
qed

lemma type_crc_nth: "t \<le> 4 \<Longrightarrow> InitTypeCrc ! t = crc_Extend 0 [of_nat t]"
  by (simp add: InitTypeCrc_def del: upt_Suc)

lemma scast_type: "t \<le> 4 \<Longrightarrow> (scast (of_nat t :: byte) :: u32) = of_nat t"
  by (simp add: le_eq_less_or_eq less_Suc_eq numeral_eq_Suc) (elim disjE; simp)

text \<open>A physical record at the front of the buffer is parsed.\<close>

lemma ParsePhysicalRecord_phys:
  assumes "lr_buffer r = phys t payload @ post" "1 \<le> t" "t \<le> 4" "length payload < 2 ^ 16" "lr_initial_offset r = 0"
  shows "ParsePhysicalRecord frag r = (of_nat t, payload, r\<lparr> lr_buffer := post \<rparr>)"
proof -
  let ?h = "EncodeFixed32 (Mask (crc_Extend (InitTypeCrc ! t) payload))"
  let ?a = "ucast (of_nat (length payload) AND 0xff :: u32) :: byte"
  let ?b = "ucast (drop_bit 8 (of_nat (length payload) :: u32)) :: byte"
  have buf: "lr_buffer r = ?h @ [?a, ?b, of_nat t] @ payload @ post"
    using assms(1) by (simp add: phys_def log_header_def Let_def)
  have nth: "lr_buffer r ! 4 = ?a" "lr_buffer r ! 5 = ?b" "lr_buffer r ! 6 = of_nat t"
    unfolding buf by (simp_all add: nth_append)
  have len: "unat ((ucast ?a AND 0xff :: u32) OR push_bit 8 (ucast ?b AND 0xff)) = length payload"
    by (rule unat_length_bytes [OF assms(4)])
  have crc: "crc_Extend 0 (take (1 + length payload) (drop 6 (lr_buffer r))) = Unmask (DecodeFixed32 (lr_buffer r))"
    unfolding buf using type_crc_nth [OF assms(3)] crc_Extend_append [of 0 "[of_nat t]" payload]
    by (simp add: codec_simps)
  have t0: "(of_nat t :: u32) \<noteq> 0" using assms(2,3) by (simp add: le_eq_less_or_eq less_Suc_eq numeral_eq_Suc) (elim disjE; simp)
  have d: "drop (7 + length payload) (lr_buffer r) = post" "take (length payload) (drop 7 (lr_buffer r)) = payload"
    "length (lr_buffer r) = 7 + length payload + length post"
    unfolding assms(1) by (simp_all add: phys_def)
  show ?thesis
    unfolding ParsePhysicalRecord_def Let_def nth len scast_type [OF assms(3)]
    using t0 crc d assms(5) by (simp add: of_nat_0)
qed

text \<open>Where the next record starts when the reader has read \<open>k\<close> blocks and is at \<open>p\<close>, and the blocks read after it.\<close>

definition next_start :: "nat \<Rightarrow> nat \<Rightarrow> nat \<times> nat" where
  "next_start k p = (if p + kHeaderSize \<le> kBlockSize * k then (p, k) else (kBlockSize * k, k + 1))"

text \<open>The writer's block offset and the reader's position agree.\<close>

definition in_step :: "nat \<Rightarrow> nat \<Rightarrow> nat \<Rightarrow> bool" where
  "in_step bo k p \<longleftrightarrow> k = 0 \<and> bo = 0 \<and> p = 0 \<or>
     (\<exists>j. k = Suc j \<and> 0 < bo \<and> bo \<le> kBlockSize \<and> p = kBlockSize * j + bo)"

context reliable_reader
begin

lemma ReadPhysicalRecord_at:
  assumes "rd_at c k p r" "next_start k p = (q, k')" "c = pre @ phys t payload @ post" "length pre = q"
    "1 \<le> t" "t \<le> 4" "q + kHeaderSize + length payload \<le> kBlockSize * k'"
  obtains r' where "ReadPhysicalRecord ops frag r = (of_nat t, payload, r')"
    "rd_at c k' (q + kHeaderSize + length payload) r'" "lr_reports r' = lr_reports r"
proof -
  have main: "ParsePhysicalRecord frag r1 = (of_nat t, payload, r1\<lparr> lr_buffer := drop (7 + length payload) (lr_buffer r1) \<rparr>) \<and>
      rd_at c k' (q + kHeaderSize + length payload) (r1\<lparr> lr_buffer := drop (7 + length payload) (lr_buffer r1) \<rparr>)"
    if at: "rd_at c k' q r1" for r1
  proof -
    define e where "e = min (length c) (kBlockSize * k')"
    note r1 = at [unfolded rd_at_def Let_def, folded e_def]
    have e: "q + 7 + length payload \<le> e" using assms(3,4,7) by (simp add: e_def)
    have l: "length payload < 2 ^ 16" using r1 e by (auto simp: e_def)
    have "lr_buffer r1 = take (e - q) (phys t payload @ post)" using r1 assms(3,4) by simp
    then have buf: "lr_buffer r1 = phys t payload @ take (e - q - (7 + length payload)) post" using e by simp
    have "rd_at c k' (q + 7 + length payload) (r1\<lparr> lr_buffer := drop (7 + length payload) (lr_buffer r1) \<rparr>)"
      using r1 e unfolding rd_at_def Let_def e_def [symmetric]
      by (auto simp: drop_take add.commute add.left_commute)
    moreover have "lr_initial_offset r1 = 0" using r1 by simp
    ultimately show ?thesis using ParsePhysicalRecord_phys [OF buf assms(5,6) l, of frag] buf by simp
  qed
  show ?thesis
  proof (cases "p + kHeaderSize \<le> kBlockSize * k")
    case True
    then have "q = p" "k' = k" using assms(2) by (simp_all add: next_start_def)
    moreover have "kHeaderSize \<le> length (lr_buffer r)"
      using assms(1,3,4,7) calculation by (auto simp: rd_at_def Let_def)
    ultimately show ?thesis
      using main [of r] assms(1) that [of "r\<lparr> lr_buffer := drop (7 + length payload) (lr_buffer r) \<rparr>"]
      by (auto simp: ReadPhysicalRecord.simps)
  next
    case False
    then have q: "q = kBlockSize * k" "k' = k + 1" using assms(2) by (simp_all add: next_start_def)
    moreover have "kBlockSize * k \<le> length c" using assms(3,4) q by simp
    moreover have "kHeaderSize \<le> length c - kBlockSize * k" using assms(3,4) q by simp
    ultimately obtain r1 where "rd_at c k' q r1" "lr_reports r1 = lr_reports r"
      "ReadPhysicalRecord ops frag r = ParsePhysicalRecord frag r1"
      using rd_at_refill [OF assms(1), of frag] False by (metis not_le)
    then show ?thesis
      using main [of r1] that [of "r1\<lparr> lr_buffer := drop (7 + length payload) (lr_buffer r1) \<rparr>"] by auto
  qed
qed

lemma ReadRecord_loop_record:
  assumes "c = pre @ record_bytes b bo ptr @ post" "rd_at c k (length pre) r" "in_step bo k (length pre)"
    "ifr = (\<not> b)" "b \<Longrightarrow> scratch = []"
  shows "\<exists>r' k' bo'. ReadRecord_loop ops ifr prosp frag scratch r = Some (Some (scratch @ ptr), r') \<and>
    rd_at c k' (length pre + length (record_bytes b bo ptr)) r' \<and> lr_reports r' = lr_reports r \<and>
    in_step bo' k' (length pre + length (record_bytes b bo ptr))"
  using assms
proof (induction b bo ptr arbitrary: pre k r ifr prosp frag scratch rule: record_bytes.induct)
  case (1 b bo ptr)
  define pad where "pad = (if kBlockSize - bo < kHeaderSize then kBlockSize - bo else 0)"
  define bo1 where "bo1 = (if kBlockSize - bo < kHeaderSize then 0 else bo)"
  define n where "n = min (length ptr) (kBlockSize - bo1 - kHeaderSize)"
  define t where "t = record_type b (length ptr = n)"
  define tail where "tail = (if length ptr > n then record_bytes False (bo1 + kHeaderSize + n) (drop n ptr) else [])"
  have rb: "record_bytes b bo ptr = replicate pad 0 @ phys t (take n ptr) @ tail"
    unfolding tail_def t_def
    by (subst record_bytes.simps)
       (simp only: pad_def [symmetric] bo1_def [symmetric] n_def [symmetric] Let_def, cases "length ptr > n", simp_all only: if_True if_False append_assoc append_Nil2)
  have n: "n \<le> length ptr" "n \<le> kBlockSize - bo1 - kHeaderSize" by (simp_all add: n_def)
  have bo: "bo \<le> kBlockSize" using 1(4) by (auto simp: in_step_def)
  obtain q k' where q: "next_start k (length pre) = (q, k')" by fastforce
  have qk: "q = length pre + pad" "q + kHeaderSize + n \<le> kBlockSize * k'"
    "in_step (bo1 + kHeaderSize + n) k' (q + kHeaderSize + n)"
    using q 1(4) n bo unfolding next_start_def in_step_def pad_def bo1_def
    by (auto split: if_splits simp: algebra_simps)
  have t: "1 \<le> t" "t \<le> 4" by (auto simp: t_def record_type_def)
  have c: "c = (pre @ replicate pad 0) @ phys t (take n ptr) @ (tail @ post)" using 1(2) rb by simp
  have l: "length (take n ptr) = n" "length (pre @ replicate pad 0) = q" using n qk(1) by simp_all
  have "q + kHeaderSize + length (take n ptr) \<le> kBlockSize * k'" using qk(2) l(1) by simp
  then obtain r1 where r1: "ReadPhysicalRecord ops frag r = (of_nat t, take n ptr, r1)"
    "rd_at c k' (q + kHeaderSize + n) r1" "lr_reports r1 = lr_reports r"
    using ReadPhysicalRecord_at [OF 1(3) q c l(2) t, of frag] unfolding l(1) by blast
  have nr: "\<not> lr_resyncing r1" using r1(2) by (simp add: rd_at_def Let_def)
  have pos: "q + kHeaderSize + n = length (pre @ replicate pad 0 @ phys t (take n ptr))" using qk(1) n by simp
  show ?case
  proof (cases "length ptr > n")
    case False
    then have full: "take n ptr = ptr" "tail = []" "length ptr = n" using n by (simp_all add: tail_def)
    have at: "rd_at c k' (length pre + length (record_bytes b bo ptr)) (r1\<lparr> lr_resyncing := False, lr_last_record_offset := x \<rparr>)" for x
      using r1(2) pos full by (simp add: rb rd_at_def Let_def)
    have len: "length pre + length (record_bytes b bo ptr) = q + kHeaderSize + n" using pos full by (simp add: rb)
    have "\<exists>x. ReadRecord_loop ops ifr prosp frag scratch r =
        Some (Some (scratch @ ptr), r1\<lparr> lr_resyncing := False, lr_last_record_offset := x \<rparr>)"
      using r1(1) nr full(1,3) 1(5,6)
      by (subst ReadRecord_loop.simps) (cases b; simp add: Let_def t_def record_type_def; blast)
    then obtain x where "ReadRecord_loop ops ifr prosp frag scratch r =
        Some (Some (scratch @ ptr), r1\<lparr> lr_resyncing := False, lr_last_record_offset := x \<rparr>)" by blast
    moreover have "lr_reports (r1\<lparr> lr_resyncing := False, lr_last_record_offset := x \<rparr>) = lr_reports r"
      using r1(3) by simp
    ultimately show ?thesis using at [of x] qk(3) unfolding len by blast
  next
    case True
    then have tt: "t = (if b then kFirstType else kMiddleType)" by (auto simp: t_def record_type_def)
    have c': "c = (pre @ replicate pad 0 @ phys t (take n ptr)) @ record_bytes False (bo1 + kHeaderSize + n) (drop n ptr) @ post"
      using c True by (simp add: tail_def)
    define r2 where "r2 = r1\<lparr> lr_resyncing := False \<rparr>"
    have at: "rd_at c k' (length (pre @ replicate pad 0 @ phys t (take n ptr))) r2"
      using r1(2) pos by (simp add: rd_at_def Let_def r2_def)
    have step: "\<exists>prosp. ReadRecord_loop ops ifr prosp0 frag scratch r =
        ReadRecord_loop ops True prosp (take n ptr) (scratch @ take n ptr) r2" for prosp0
      using 1(5,6) r1(1) nr tt unfolding r2_def
      by (subst ReadRecord_loop.simps) (cases b; auto simp: Let_def)
    obtain prosp' where step': "ReadRecord_loop ops ifr prosp frag scratch r =
        ReadRecord_loop ops True prosp' (take n ptr) (scratch @ take n ptr) r2" using step by blast
    have "\<exists>r' k'' bo'. ReadRecord_loop ops True prosp' (take n ptr) (scratch @ take n ptr) r2
          = Some (Some ((scratch @ take n ptr) @ drop n ptr), r') \<and>
        rd_at c k'' (length (pre @ replicate pad 0 @ phys t (take n ptr)) + length (record_bytes False (bo1 + kHeaderSize + n) (drop n ptr))) r' \<and>
        lr_reports r' = lr_reports r2 \<and>
        in_step bo' k'' (length (pre @ replicate pad 0 @ phys t (take n ptr)) + length (record_bytes False (bo1 + kHeaderSize + n) (drop n ptr)))"
      using True at qk(3) pos
      by (intro 1(1) [OF pad_def bo1_def n_def refl _ c']) (simp_all add: t_def)
    then show ?thesis
      using True r1(3) unfolding step' rb tail_def by (auto simp: r2_def add.assoc)
  qed
qed

lemma ReadRecord_at_end:
  assumes "rd_at c k (length c) r"
  shows "\<exists>r'. ReadRecord ops r = Some (None, r') \<and> lr_reports r' = lr_reports r"
proof -
  note r = assms [unfolded rd_at_def Let_def]
  have "\<exists>r'. ReadPhysicalRecord ops [] r = (kEof, [], r') \<and> lr_reports r' = lr_reports r"
  proof (cases "lr_eof r")
    case True
    moreover have "lr_buffer r = []" using r by simp
    ultimately show ?thesis by (subst ReadPhysicalRecord.simps) simp
  next
    case False
    then have c: "length c = kBlockSize * k" using r by auto
    obtain r1 where "lr_reports r1 = lr_reports r" "ReadPhysicalRecord ops [] r = (kEof, [], r1\<lparr> lr_buffer := [] \<rparr>)"
      using rd_at_refill [OF assms, of "[]"] c by auto
    then show ?thesis by simp
  qed
  then obtain r' where "ReadPhysicalRecord ops [] r = (kEof, [], r')" "lr_reports r' = lr_reports r" by blast
  then show ?thesis using r by (simp add: ReadRecord_def ReadRecord_loop.simps Let_def)
qed

end

text \<open>The offset in its block of a position of the log.\<close>

definition pos_off :: "nat \<Rightarrow> nat" where
  "pos_off p = (if p = 0 then 0 else (p - 1) mod kBlockSize + 1)"

lemma pos_off_unique: "0 < b \<Longrightarrow> b \<le> kBlockSize \<Longrightarrow> b mod kBlockSize = p mod kBlockSize \<Longrightarrow> 0 < p \<Longrightarrow> b = pos_off p"
proof -
  assume b: "0 < b" "b \<le> kBlockSize" "b mod kBlockSize = p mod kBlockSize" "0 < p"
  obtain m where p: "p = kBlockSize * m + b mod kBlockSize" using b(3) by (metis mult_div_mod_eq)
  show ?thesis
  proof (cases "b = kBlockSize")
    case True
    then obtain m' where "m = Suc m'" using p b(4) by (cases m) auto
    then have "p - 1 = kBlockSize * m' + 32767" using p True by simp
    then show ?thesis using True b(4) by (simp add: pos_off_def)
  next
    case False
    then have p': "p = kBlockSize * m + b" using p b(2) by simp
    have "(kBlockSize * m + b - 1) mod kBlockSize + 1 = b"
      using b(1,2) False by (cases b) simp_all
    then show ?thesis using b(4) unfolding p' by (simp add: pos_off_def)
  qed
qed

lemma pos_off_bounds: "pos_off p \<le> kBlockSize" "pos_off p mod kBlockSize = p mod kBlockSize"
proof -
  show "pos_off p \<le> kBlockSize" using mod_less_divisor [of kBlockSize "p - 1"] unfolding pos_off_def by auto
  show "pos_off p mod kBlockSize = p mod kBlockSize"
    using mod_Suc_eq [of "p - 1" kBlockSize] by (auto simp: pos_off_def)
qed

lemma in_step_pos: "in_step bo k p \<Longrightarrow> bo = pos_off p"
  unfolding in_step_def by (elim disjE exE conjE, simp add: pos_off_def) (rule pos_off_unique; simp)

lemma record_bytes_pos: "0 < length (record_bytes b bo ptr)"
proof -
  have "phys t p \<noteq> []" for t p
    by (simp add: phys_def log_header_def Let_def)
  then show ?thesis by (subst record_bytes.simps) (simp add: Let_def)
qed

text \<open>The log that holds a list of records, from a position.\<close>

fun log_image :: "nat \<Rightarrow> slice list \<Rightarrow> slice" where
  "log_image p [] = []"
| "log_image p (x # xs) =
     (let rb = record_bytes True (pos_off p) x in rb @ log_image (p + length rb) xs)"

context reliable_writer
begin

lemma AddRecords_image:
  assumes "inv (lw_dest w)" "lw_type_crc w = InitTypeCrc" "lw_block_offset w = pos_off (length (contents (lw_dest w)))"
  shows "\<exists>w'. fold (\<lambda>x w. snd (AddRecord ops x w)) xs w = w' \<and> inv (lw_dest w') \<and>
    contents (lw_dest w') = contents (lw_dest w) @ log_image (length (contents (lw_dest w))) xs"
  using assms
proof (induction xs arbitrary: w)
  case (Cons x xs)
  let ?p = "length (contents (lw_dest w))" and ?rb = "record_bytes True (lw_block_offset w) x"
  obtain w1 where w1: "AddRecord_loop ops True x w = (Status_OK, w1)" "inv (lw_dest w1)" "lw_type_crc w1 = InitTypeCrc"
    "contents (lw_dest w1) = contents (lw_dest w) @ ?rb"
    "lw_block_offset w1 \<le> kBlockSize" "0 < lw_block_offset w1"
    "(lw_block_offset w + length ?rb) mod kBlockSize = lw_block_offset w1 mod kBlockSize"
    using AddRecord_loop_spec [OF Cons.prems(1,2), of True x] pos_off_bounds(1) Cons.prems(3) by auto
  have "lw_block_offset w1 mod kBlockSize = (?p + length ?rb) mod kBlockSize"
    using w1(7) mod_add_right [OF pos_off_bounds(2)] Cons.prems(3) by metis
  then have "lw_block_offset w1 = pos_off (length (contents (lw_dest w1)))"
    using w1 record_bytes_pos [of True "lw_block_offset w" x] by (intro pos_off_unique) simp_all
  from Cons.IH [OF w1(2,3) this] show ?case
    using w1(1,4) Cons.prems(3) by (simp add: AddRecord_def Let_def)
qed simp

end

context reliable_reader
begin

lemma ReadAll_image:
  assumes "c = pre @ log_image (length pre) xs" "rd_at c k (length pre) r" "in_step (pos_off (length pre)) k (length pre)"
  shows "\<exists>r'. ReadAll ops acc r = Some (acc @ xs, r') \<and> lr_reports r' = lr_reports r"
  using assms
proof (induction xs arbitrary: pre k r acc)
  case Nil
  then show ?case using ReadRecord_at_end [of pre k r] by (subst ReadAll.simps) auto
next
  case (Cons x xs)
  let ?rb = "record_bytes True (pos_off (length pre)) x"
  have c: "c = pre @ ?rb @ log_image (length pre + length ?rb) xs" using Cons.prems(1) by (simp add: Let_def)
  obtain r1 k1 bo1 where r1: "ReadRecord_loop ops False 0 [] [] r = Some (Some ([] @ x), r1)"
    "rd_at c k1 (length pre + length ?rb) r1" "lr_reports r1 = lr_reports r" "in_step bo1 k1 (length pre + length ?rb)"
    using ReadRecord_loop_record [OF c Cons.prems(2,3), of False "[]" 0 "[]"] by auto
  have "lr_initial_offset r = 0" using Cons.prems(2) by (simp add: rd_at_def Let_def)
  then have rr: "ReadRecord ops r = Some (Some x, r1)" using r1(1) by (simp add: ReadRecord_def)
  have "bo1 = pos_off (length (pre @ ?rb))" using in_step_pos [OF r1(4)] by simp
  then have "\<exists>r'. ReadAll ops (acc @ [x]) r1 = Some ((acc @ [x]) @ xs, r') \<and> lr_reports r' = lr_reports r1"
    using c r1(2,4) by (intro Cons.IH [of "pre @ ?rb" k1]) simp_all
  then show ?case using rr r1(3) by (subst ReadAll.simps) simp
qed

end

section \<open>Properties\<close>

text \<open>C26. Log round trip: records written one after the other to a new in-memory file, of any number and
  sizes (empty records and records that span many 32 KB blocks included), are read back from the start of the file
  in order and unchanged, then the reader reports the end; it verifies all checksums and reports no
  corruption.\<close>
theorem log_roundtrip:
  assumes "length fresh = kMemBlockSize" and "h a = Some new_FileState"
  shows "let w = fold (\<lambda>x w. snd (AddRecord (mem_WritableFile fresh a) x w)) xs (new_Writer h) in
    \<exists>r'. ReadAll (mem_SequentialFile a) [] (new_Reader (lw_dest w, 0) True True 0) = Some (xs, r') \<and> lr_reports r' = []"
proof -
  have fb: "fresh_blocks fresh" using assms(1) by unfold_locales
  have h: "heap_file a h" "heap_contents a h = []"
    using assms(2) by (simp_all add: heap_file_def heap_contents_def new_FileState_def fs_inv_def fs_contents_def)
  define w where "w = fold (\<lambda>x w. snd (AddRecord (mem_WritableFile fresh a) x w)) xs (new_Writer h)"
  have w: "heap_file a (lw_dest w)" "heap_contents a (lw_dest w) = log_image 0 xs"
    using reliable_writer.AddRecords_image [OF fresh_blocks.axioms_writer [OF fb], of a "new_Writer h" xs] h
    by (simp_all add: w_def new_Writer_def pos_off_def)
  define r where "r = new_Reader (lw_dest w, 0 :: nat) True True 0"
  have "mem_reader.rd_at a (log_image 0 xs) 0 0 r"
    using w by (simp add: mem_reader.rd_at_def r_def new_Reader_def)
  then have "\<exists>r'. ReadAll (mem_SequentialFile a) [] r = Some ([] @ xs, r') \<and> lr_reports r' = lr_reports r"
    by (intro mem_reader.ReadAll_image [of "log_image 0 xs" "[]"]) (simp_all add: in_step_def pos_off_def)
  then show ?thesis by (simp add: w_def [symmetric] r_def [symmetric]) (simp add: r_def new_Reader_def)
qed

theorem log_roundtrip_witness:
  "\<exists>r'. ReadAll (mem_SequentialFile 0) [] (new_Reader (lw_dest (fold (\<lambda>x w. snd (AddRecord (mem_WritableFile (replicate 8192 0) 0) x w))
     [[1, 2], [], replicate 70000 3] (new_Writer [0 \<mapsto> new_FileState])), 0) True True 0)
     = Some ([[1, 2], [], replicate 70000 3], r') \<and> lr_reports r' = []"
  using log_roundtrip [of "replicate 8192 0" "[0 \<mapsto> new_FileState]" 0 "[[1, 2], [], replicate 70000 3]"]
  by (simp only: Let_def fun_upd_same length_replicate)

text \<open>C30. Reading a log always comes to its end: for every in-memory file, whatever bytes it holds, and every initial
  offset, with and without checksums, the loop that reads records until none is left returns.\<close>
theorem log_read_terminates:
  assumes "heap_file a h" and "pos \<le> length (heap_contents a h)"
  shows "\<exists>xs r'. ReadAll (mem_SequentialFile a) acc (new_Reader (h, pos) reporter checksum initial_offset) = Some (xs, r')"
  using assms by (intro mem_reader.ReadAll_returns) (simp add: new_Reader_def)

theorem log_read_terminates_witness:
  "\<exists>xs r'. ReadAll (mem_SequentialFile 0) [] (new_Reader ([0 \<mapsto> \<lparr> fs_refs = 1, fs_blocks = [replicate 8192 7], fs_size = 9 \<rparr>], 2)
     True False 5) = Some (xs, r')"
  using log_read_terminates [of 0 "[0 \<mapsto> \<lparr> fs_refs = 1, fs_blocks = [replicate 8192 7], fs_size = 9 \<rparr>]" 2 "[]" True False 5]
  by (simp add: heap_file_def heap_contents_def fs_inv_def fs_contents_def)

end
