(* ===== verification/Random_Gen.thy ===== *)
theory Random_Gen
  imports LDB_Prelude
begin

text \<open>
  \<^verbatim>\<open>util/random.h\<close>: a multiplicative generator modulo the prime \<open>2 ^ 31 - 1\<close>, with the reduction by shifts
  that the code uses. The state is the seed.
\<close>

unbundle bit_operations_syntax

definition new_Random :: "u32 \<Rightarrow> u32" where
  "new_Random s =
     (let seed = s AND 0x7fffffff in if seed = 0 \<or> seed = 2147483647 then 1 else seed)"

definition Random_Next :: "u32 \<Rightarrow> u32 \<times> u32" where
  "Random_Next seed =
     (let M = 2147483647 :: u32;
          product = ucast seed * 16807 :: u64;
          seed1 = ucast (drop_bit 31 product + (product AND ucast M)) :: u32;
          seed2 = (if seed1 > M then seed1 - M else seed1)
      in (seed2, seed2))"

definition Random_Uniform :: "u32 \<Rightarrow> u32 \<Rightarrow> u32 \<times> u32" where
  "Random_Uniform n seed = (let (v, seed) = Random_Next seed in (v mod n, seed))"

definition Random_OneIn :: "u32 \<Rightarrow> u32 \<Rightarrow> bool \<times> u32" where
  "Random_OneIn n seed = (let (v, seed) = Random_Next seed in (v mod n = 0, seed))"

definition Random_Skewed :: "u32 \<Rightarrow> u32 \<Rightarrow> u32 \<times> u32" where
  "Random_Skewed max_log seed =
     (let (k, seed) = Random_Uniform (max_log + 1) seed in Random_Uniform (push_bit (unat k) 1) seed)"

section \<open>The reduction\<close>

definition good_seed :: "u32 \<Rightarrow> bool" where
  "good_seed s \<longleftrightarrow> 0 < unat s \<and> unat s < 2147483647"

lemma unat_and_mask31: "unat ((w :: u64) AND 2147483647) = unat w mod 2 ^ 31"
proof -
  have "w AND 2147483647 = take_bit 31 w" by (simp add: take_bit_eq_mask mask_eq_exp_minus_1)
  then have "unat (w AND 2147483647) = take_bit 31 (unat w)" by (simp only: unsigned_take_bit_eq)
  then show ?thesis by (simp add: take_bit_eq_mod)
qed

lemma fold_mersenne:
  assumes "q = p div 2 ^ 31" "r = p mod (2 :: nat) ^ 31"
  shows "(q + r) mod (2 ^ 31 - 1) = p mod (2 ^ 31 - 1)"
proof -
  have "p = (2 ^ 31 - 1) * q + (q + r)" using assms div_mult_mod_eq [of p "2 ^ 31"] by simp
  then show ?thesis by (metis mod_mult_self4)
qed

lemma unat_u64_mult_16807:
  "unat (seed :: u32) < 2 ^ 31 \<Longrightarrow> unat (ucast seed * 16807 :: u64) = unat seed * 16807"
  by (simp add: unat_word_ariths)

lemma Random_Next_mod:
  assumes "good_seed seed"
  shows "unat (fst (Random_Next seed)) = (unat seed * 16807) mod 2147483647"
    and "snd (Random_Next seed) = fst (Random_Next seed)"
proof -
  define p where "p = unat seed * 16807"
  have s: "0 < unat seed" "unat seed < 2147483647" using assms by (simp_all add: good_seed_def)
  have pw: "unat (ucast seed * 16807 :: u64) = p" using s by (simp add: p_def unat_u64_mult_16807)
  define q where "q = p div 2 ^ 31"
  define r where "r = p mod 2 ^ 31"
  have q: "q < 16807" using s by (simp add: q_def p_def)
  have r: "r < 2 ^ 31" by (simp add: r_def)
  define s1 where "s1 = (ucast (drop_bit 31 (ucast seed * 16807 :: u64) + ((ucast seed * 16807) AND 2147483647)) :: u32)"
  have "unat (drop_bit 31 (ucast seed * 16807 :: u64)) = q" "unat ((ucast seed * 16807 :: u64) AND 2147483647) = r"
    by (simp_all only: unat_drop_bit pw unat_and_mask31 q_def r_def)
  then have s1: "unat s1 = q + r"
    using q r by (simp add: s1_def unat_u64_u32 unat_word_ariths)
  have nz: "(q + r) mod 2147483647 \<noteq> 0"
  proof -
    have "\<not> (2147483647 :: nat) dvd p"
    proof
      assume "2147483647 dvd p"
      moreover have "coprime (2147483647 :: nat) 16807" by (simp add: coprime_iff_gcd_eq_1 gcd_non_0_nat)
      ultimately have "(2147483647 :: nat) dvd unat seed" using coprime_dvd_mult_left_iff p_def by blast
      then show False using s by (auto dest: dvd_imp_le)
    qed
    then show ?thesis using fold_mersenne [OF q_def r_def] by (auto simp: dvd_eq_mod_eq_0)
  qed
  have eq: "fst (Random_Next seed) = (if s1 > 2147483647 then s1 - 2147483647 else s1)"
    "snd (Random_Next seed) = fst (Random_Next seed)"
    by (simp_all add: Random_Next_def Let_def s1_def)
  have "unat (fst (Random_Next seed)) = (if q + r > 2147483647 then q + r - 2147483647 else q + r)"
    using s1 unfolding eq by (simp add: word_less_unat unat_sub_if_size word_le_nat_alt)
  also have "\<dots> = (q + r) mod 2147483647"
  proof (cases "q + r < 2147483647")
    case False
    then have "q + r \<noteq> 2147483647" using nz by (metis mod_self)
    moreover have "q + r - 2147483647 < 2147483647" using q r by simp
    ultimately show ?thesis using False by (simp add: le_mod_geq)
  qed simp
  finally show "unat (fst (Random_Next seed)) = (unat seed * 16807) mod 2147483647"
    using fold_mersenne [OF q_def r_def] by (simp add: p_def)
  show "snd (Random_Next seed) = fst (Random_Next seed)" by (rule eq(2))
qed

lemma good_seed_new: "good_seed (new_Random s)"
proof -
  have "s AND 0x7fffffff = take_bit 31 s" by (simp add: take_bit_eq_mask mask_eq_exp_minus_1)
  then have "unat (s AND 0x7fffffff) = take_bit 31 (unat s)" by (simp only: unsigned_take_bit_eq)
  then have "unat (s AND 0x7fffffff) < 2 ^ 31" by (simp add: take_bit_eq_mod)
  moreover have "unat (2147483647 :: u32) = 2147483647" by simp
  then have "unat w = 2147483647 \<longleftrightarrow> w = 2147483647" for w :: u32 by (metis word_unat_eq_iff)
  moreover define w where "w = s AND 0x7fffffff"
  ultimately have "unat w < 2 ^ 31" "unat w = 2147483647 \<longleftrightarrow> w = 2147483647" by simp_all
  then show ?thesis unfolding good_seed_def new_Random_def w_def [symmetric] Let_def
    by (cases "w = 0"; cases "w = 2147483647") (auto simp: unat_gt_0)
qed

lemma good_seed_Next:
  assumes "good_seed seed" shows "good_seed (snd (Random_Next seed))"
proof -
  have "\<not> (2147483647 :: nat) dvd unat seed * 16807"
  proof
    assume "(2147483647 :: nat) dvd unat seed * 16807"
    moreover have "coprime (2147483647 :: nat) 16807" by (simp add: coprime_iff_gcd_eq_1 gcd_non_0_nat)
    ultimately have "(2147483647 :: nat) dvd unat seed" using coprime_dvd_mult_left_iff by blast
    then show False using assms by (auto simp: good_seed_def dest: dvd_imp_le)
  qed
  then show ?thesis using Random_Next_mod [OF assms] by (simp add: good_seed_def dvd_eq_mod_eq_0)
qed

section \<open>Properties\<close>

text \<open>C34. The generator is the multiplicative one modulo the prime 2147483647: whatever seed it was made from, after
  \<open>n\<close> calls of \<open>Next\<close> its state is the initial state times 16807 to the power \<open>n\<close>, reduced, and the state is never zero
  or the modulus itself, on which the sequence would be stuck.\<close>

theorem random_power:
  "unat (((\<lambda>s. snd (Random_Next s)) ^^ n) (new_Random seed)) = unat (new_Random seed) * 16807 ^ n mod 2147483647 \<and>
   0 < unat (((\<lambda>s. snd (Random_Next s)) ^^ n) (new_Random seed))"
proof -
  let ?st = "((\<lambda>s. snd (Random_Next s)) ^^ n) (new_Random seed)"
  have "good_seed ?st \<and> unat ?st = unat (new_Random seed) * 16807 ^ n mod 2147483647"
  proof (induction n)
    case 0
    then show ?case using good_seed_new [of seed] by (simp add: good_seed_def)
  next
    case (Suc n)
    then show ?case
      using good_seed_Next Random_Next_mod by (auto simp: mod_mult_right_eq mult.left_commute mult.commute [of _ 16807])
  qed
  then show ?thesis by (simp add: good_seed_def)
qed

end
