(* ===== verification/Skip_List.thy ===== *)
theory Skip_List
  imports Random_Gen Comparator "HOL-Library.Multiset"
begin

text \<open>
  \<^verbatim>\<open>db/skiplist.h\<close>. Nodes live in the arena: a node is a number, its key and its links are maps from it, and node 0 is
  the head. A null pointer is \<open>None\<close>, and so is an uninitialised entry of the array \<^verbatim>\<open>prev\<close>. The searches are loops over links, partial functions
  that the invariant makes total. The operations are those of one thread; each store of \<^verbatim>\<open>Insert\<close> is a step, so the states between them
  are states of the model.
\<close>

abbreviation (input) kMaxHeight :: nat where "kMaxHeight \<equiv> 12"

record 'k SkipList =
  sl_key :: "nat \<Rightarrow> 'k"
  sl_next :: "nat \<Rightarrow> nat \<Rightarrow> nat option"
  sl_count :: nat
  sl_max_height :: nat
  sl_rnd :: u32

definition new_SkipList :: "'k \<Rightarrow> 'k SkipList" where
  "new_SkipList any_key =
     \<lparr> sl_key = (\<lambda>_. any_key), sl_next = (\<lambda>_ _. None), sl_count = 1, sl_max_height = 1,
       sl_rnd = new_Random 0xdeadbeef \<rparr>"

function RandomHeight_loop :: "nat \<Rightarrow> u32 \<Rightarrow> nat \<times> u32" where
  "RandomHeight_loop height rnd =
     (if height < kMaxHeight then
        let (one, rnd) = Random_OneIn 4 rnd
        in if one then RandomHeight_loop (height + 1) rnd else (height, rnd)
      else (height, rnd))"
  by pat_completeness auto
termination by (relation "measure (\<lambda>(height, _). kMaxHeight - height)") auto

declare RandomHeight_loop.simps [simp del]

definition RandomHeight :: "u32 \<Rightarrow> nat \<times> u32" where
  "RandomHeight rnd = RandomHeight_loop 1 rnd"

definition KeyIsAfterNode :: "('k \<Rightarrow> 'k \<Rightarrow> int) \<Rightarrow> 'k SkipList \<Rightarrow> 'k \<Rightarrow> nat option \<Rightarrow> bool" where
  "KeyIsAfterNode cmp s key n = (case n of None \<Rightarrow> False | Some n \<Rightarrow> cmp (sl_key s n) key < 0)"

partial_function (option) FGE_loop ::
  "('k \<Rightarrow> 'k \<Rightarrow> int) \<Rightarrow> 'k SkipList \<Rightarrow> 'k \<Rightarrow> nat \<Rightarrow> nat \<Rightarrow> (nat \<Rightarrow> nat option) \<Rightarrow>
   (nat option \<times> (nat \<Rightarrow> nat option)) option" where
  "FGE_loop cmp s key x level prev =
     (let next = sl_next s x level in
      if KeyIsAfterNode cmp s key next then FGE_loop cmp s key (the next) level prev
      else let prev = prev(level \<mapsto> x) in
        if level = 0 then Some (next, prev) else FGE_loop cmp s key x (level - 1) prev)"

definition FindGreaterOrEqual ::
  "('k \<Rightarrow> 'k \<Rightarrow> int) \<Rightarrow> 'k SkipList \<Rightarrow> 'k \<Rightarrow> (nat option \<times> (nat \<Rightarrow> nat option)) option" where
  "FindGreaterOrEqual cmp s key = FGE_loop cmp s key 0 (sl_max_height s - 1) (\<lambda>_. None)"

partial_function (option) FLT_loop :: "('k \<Rightarrow> 'k \<Rightarrow> int) \<Rightarrow> 'k SkipList \<Rightarrow> 'k \<Rightarrow> nat \<Rightarrow> nat \<Rightarrow> nat option" where
  "FLT_loop cmp s key x level =
     (let next = sl_next s x level in
      if next = None \<or> cmp (sl_key s (the next)) key \<ge> 0 then
        if level = 0 then Some x else FLT_loop cmp s key x (level - 1)
      else FLT_loop cmp s key (the next) level)"

definition FindLessThan :: "('k \<Rightarrow> 'k \<Rightarrow> int) \<Rightarrow> 'k SkipList \<Rightarrow> 'k \<Rightarrow> nat option" where
  "FindLessThan cmp s key = FLT_loop cmp s key 0 (sl_max_height s - 1)"

partial_function (option) FindLast_loop :: "'k SkipList \<Rightarrow> nat \<Rightarrow> nat \<Rightarrow> nat option" where
  "FindLast_loop s x level =
     (let next = sl_next s x level in
      if next = None then if level = 0 then Some x else FindLast_loop s x (level - 1)
      else FindLast_loop s (the next) level)"

definition FindLast :: "'k SkipList \<Rightarrow> nat option" where
  "FindLast s = FindLast_loop s 0 (sl_max_height s - 1)"

definition SetNext :: "nat \<Rightarrow> nat \<Rightarrow> nat option \<Rightarrow> 'k SkipList \<Rightarrow> 'k SkipList" where
  "SetNext n level x s = s\<lparr> sl_next := (sl_next s)(n := (sl_next s n)(level := x)) \<rparr>"

text \<open>The loop that links the new node \<open>x\<close> at the levels \<open>i, \<dots>, height - 1\<close>.\<close>

fun link_loop :: "(nat \<Rightarrow> nat option) \<Rightarrow> nat \<Rightarrow> nat list \<Rightarrow> 'k SkipList \<Rightarrow> 'k SkipList option" where
  "link_loop prev x [] s = Some s"
| "link_loop prev x (i # is) s =
     (case prev i of
        None \<Rightarrow> None
      | Some p \<Rightarrow> link_loop prev x is (SetNext p i (Some x) (SetNext x i (sl_next s p i) s)))"

definition SkipList_Insert :: "('k \<Rightarrow> 'k \<Rightarrow> int) \<Rightarrow> 'k \<Rightarrow> 'k SkipList \<Rightarrow> 'k SkipList option" where
  "SkipList_Insert cmp key s =
     (case FindGreaterOrEqual cmp s key of
        None \<Rightarrow> None
      | Some (_, prev) \<Rightarrow>
          let (height, rnd) = RandomHeight (sl_rnd s);
              s = s\<lparr> sl_rnd := rnd \<rparr>;
              prev = (if height > sl_max_height s
                      then \<lambda>i. if sl_max_height s \<le> i \<and> i < height then Some 0 else prev i else prev);
              s = (if height > sl_max_height s then s\<lparr> sl_max_height := height \<rparr> else s);
              x = sl_count s;
              s = s\<lparr> sl_key := (sl_key s)(x := key), sl_count := x + 1 \<rparr>
          in link_loop prev x [0..<height] s)"

definition SkipList_Contains :: "('k \<Rightarrow> 'k \<Rightarrow> int) \<Rightarrow> 'k SkipList \<Rightarrow> 'k \<Rightarrow> bool option" where
  "SkipList_Contains cmp s key =
     (case FindGreaterOrEqual cmp s key of
        None \<Rightarrow> None
      | Some (x, _) \<Rightarrow> Some (case x of None \<Rightarrow> False | Some n \<Rightarrow> cmp key (sl_key s n) = 0))"

text \<open>The iterator is its node.\<close>

definition sl_Seek :: "('k \<Rightarrow> 'k \<Rightarrow> int) \<Rightarrow> 'k SkipList \<Rightarrow> 'k \<Rightarrow> nat option option" where
  "sl_Seek cmp s target = map_option fst (FindGreaterOrEqual cmp s target)"

definition sl_SeekToFirst :: "'k SkipList \<Rightarrow> nat option" where
  "sl_SeekToFirst s = sl_next s 0 0"

definition sl_SeekToLast :: "'k SkipList \<Rightarrow> nat option option" where
  "sl_SeekToLast s = map_option (\<lambda>n. if n = 0 then None else Some n) (FindLast s)"

definition sl_Next :: "'k SkipList \<Rightarrow> nat \<Rightarrow> nat option" where
  "sl_Next s n = sl_next s n 0"

definition sl_Prev :: "('k \<Rightarrow> 'k \<Rightarrow> int) \<Rightarrow> 'k SkipList \<Rightarrow> nat \<Rightarrow> nat option option" where
  "sl_Prev cmp s n = map_option (\<lambda>n. if n = 0 then None else Some n) (FindLessThan cmp s (sl_key s n))"

section \<open>Chains\<close>

fun chain :: "(nat \<Rightarrow> nat option) \<Rightarrow> nat list \<Rightarrow> bool" where
  "chain nx [] = True"
| "chain nx [a] = (nx a = None)"
| "chain nx (a # b # xs) = (nx a = Some b \<and> chain nx (b # xs))"

lemma chain_Cons: "chain nx (a # xs) \<longleftrightarrow> nx a = (case xs of [] \<Rightarrow> None | b # _ \<Rightarrow> Some b) \<and> chain nx xs"
  by (cases xs) auto

lemma chain_suffix: "chain nx (xs @ ys) \<Longrightarrow> chain nx ys"
  by (induction xs) (auto simp: chain_Cons)

lemma chain_cong: "(\<And>x. x \<in> set xs \<Longrightarrow> nx x = nx' x) \<Longrightarrow> chain nx xs = chain nx' xs"
  by (induction nx xs rule: chain.induct) auto

lemma chain_next: "chain nx (xs @ a # ys) \<Longrightarrow> nx a = (case ys of [] \<Rightarrow> None | b # _ \<Rightarrow> Some b)"
  using chain_suffix [of nx xs "a # ys"] by (simp add: chain_Cons)

lemma chain_insert:
  assumes "chain nx (xs @ p # ys)" "distinct (xs @ p # ys)" "x \<notin> set (xs @ p # ys)"
  shows "chain (nx(x := nx p, p := Some x)) (xs @ p # x # ys)"
  using assms
proof (induction xs)
  case Nil
  then have "chain (nx(x := nx p, p := Some x)) ys = chain nx ys" by (intro chain_cong) auto
  with Nil show ?case by (cases ys) (auto simp: chain_Cons fun_upd_def)
next
  case (Cons a xs)
  then show ?case by (cases xs) (auto simp: chain_Cons fun_upd_def)
qed

section \<open>The invariant\<close>

text \<open>
  \<open>xs\<close> are the nodes in key order and \<open>ht\<close> the number of levels each is linked at: the list at level \<open>l\<close> is
  \<open>xs\<close> restricted to the nodes higher than \<open>l\<close>.
\<close>

definition level_list :: "(nat \<Rightarrow> nat) \<Rightarrow> nat \<Rightarrow> nat list \<Rightarrow> nat list" where
  "level_list ht l xs = filter (\<lambda>x. l < ht x) xs"

definition sl_rep :: "('k \<Rightarrow> 'k \<Rightarrow> int) \<Rightarrow> ('k \<Rightarrow> bool) \<Rightarrow> nat list \<Rightarrow> (nat \<Rightarrow> nat) \<Rightarrow> 'k SkipList \<Rightarrow> bool" where
  "sl_rep cmp ok xs ht s \<longleftrightarrow>
     (\<forall>l < kMaxHeight. chain (\<lambda>n. sl_next s n l) (0 # level_list ht l xs)) \<and>
     distinct (0 # xs) \<and> sorted_wrt (\<lambda>x y. cmp (sl_key s x) (sl_key s y) < 0) xs \<and>
     (\<forall>x \<in> set xs. ok (sl_key s x) \<and> 1 \<le> ht x \<and> ht x \<le> sl_max_height s \<and> x < sl_count s) \<and>
     1 \<le> sl_max_height s \<and> sl_max_height s \<le> kMaxHeight \<and> 0 < sl_count s"

definition sl_inv :: "('k \<Rightarrow> 'k \<Rightarrow> int) \<Rightarrow> ('k \<Rightarrow> bool) \<Rightarrow> 'k SkipList \<Rightarrow> bool" where
  "sl_inv cmp ok s \<longleftrightarrow> (\<exists>xs ht. sl_rep cmp ok xs ht s)"

lemma level_list_append [simp]: "level_list ht l (xs @ ys) = level_list ht l xs @ level_list ht l ys"
  by (simp add: level_list_def)

lemma level_list_upd: "x \<notin> set ys \<Longrightarrow> level_list (ht(x := h)) l ys = level_list ht l ys"
  by (auto simp: level_list_def intro!: filter_cong)

lemma level_list_Cons: "level_list ht l (x # xs) = (if l < ht x then [x] else []) @ level_list ht l xs"
  by (simp add: level_list_def)

lemma level_list_0: "\<forall>x \<in> set xs. 1 \<le> ht x \<Longrightarrow> level_list ht 0 xs = xs"
  by (auto simp: level_list_def filter_id_conv)

lemma set_level_list: "set (level_list ht l xs) \<subseteq> set xs" "set (level_list ht (Suc l) xs) \<subseteq> set (level_list ht l xs)"
  by (auto simp: level_list_def)

lemma sl_rep_new: "sl_rep cmp ok [] (\<lambda>_. 0) (new_SkipList k)"
  by (simp add: sl_rep_def new_SkipList_def level_list_def)

context key_order
begin

text \<open>The nodes before a key and the nodes at or after it.\<close>

definition before :: "'k SkipList \<Rightarrow> 'k \<Rightarrow> nat list \<Rightarrow> nat list" where
  "before s k xs = takeWhile (\<lambda>x. cmp (sl_key s x) k < 0) xs"

definition from_key :: "'k SkipList \<Rightarrow> 'k \<Rightarrow> nat list \<Rightarrow> nat list" where
  "from_key s k xs = dropWhile (\<lambda>x. cmp (sl_key s x) k < 0) xs"

lemma before_from: "before s k xs @ from_key s k xs = xs"
  by (simp add: before_def from_key_def)

lemma before_less: "x \<in> set (before s k xs) \<Longrightarrow> cmp (sl_key s x) k < 0"
  unfolding before_def by (rule set_takeWhileD [THEN conjunct2])

lemma from_key_ge:
  assumes "sl_rep cmp ok xs ht s" "ok k" "x \<in> set (from_key s k xs)"
  shows "\<not> cmp (sl_key s x) k < 0"
proof -
  obtain y ys where B: "from_key s k xs = y # ys" using assms(3) by (cases "from_key s k xs") auto
  then have y: "\<not> cmp (sl_key s y) k < 0" unfolding from_key_def by (metis dropWhile_eq_Cons_conv)
  have xs: "xs = before s k xs @ y # ys" using before_from [of s k xs] B by simp
  then have "sorted_wrt (\<lambda>x y. cmp (sl_key s x) (sl_key s y) < 0) (y # ys)" "y \<in> set xs" "set ys \<subseteq> set xs"
    using assms(1) by (metis sl_rep_def sorted_wrt_append, metis in_set_conv_decomp, metis set_append le_supI2 set_subset_Cons sup.cobounded2 subset_trans)
  then have "x = y \<or> cmp (sl_key s y) (sl_key s x) < 0" "ok (sl_key s y)" "ok (sl_key s x)"
    using assms(1,3) B by (auto simp: sl_rep_def)
  then show ?thesis using y ko_less_trans [of "sl_key s y" "sl_key s x" k] assms(2) by auto
qed

definition first :: "nat list \<Rightarrow> nat option" where
  "first xs = (case xs of [] \<Rightarrow> None | x # _ \<Rightarrow> Some x)"

lemma first_simps [simp]: "first [] = None" "first (x # xs) = Some x"
  by (simp_all add: first_def)

lemma level_chain:
  assumes "sl_rep cmp ok xs ht s" "l < kMaxHeight" "0 # level_list ht l (before s k xs) = us @ x # vs"
  shows "sl_next s x l = first (vs @ level_list ht l (from_key s k xs))"
proof -
  have "chain (\<lambda>n. sl_next s n l) (0 # level_list ht l (before s k xs @ from_key s k xs))"
    using assms(1,2) by (simp add: sl_rep_def before_from)
  then have "chain (\<lambda>n. sl_next s n l) (us @ x # (vs @ level_list ht l (from_key s k xs)))"
    using assms(3) by (metis append_Cons append_assoc level_list_append)
  from chain_next [OF this] show ?thesis by (simp add: first_def)
qed

lemma after_node:
  assumes "sl_rep cmp ok xs ht s" "ok k" "0 # level_list ht l (before s k xs) = us @ x # vs"
  shows "KeyIsAfterNode cmp s k (first (vs @ level_list ht l (from_key s k xs))) \<longleftrightarrow> vs \<noteq> []"
proof (cases vs)
  case Nil
  show ?thesis
  proof (cases "level_list ht l (from_key s k xs)")
    case (Cons y ys)
    then have "y \<in> set (from_key s k xs)" using set_level_list(1) [of ht l "from_key s k xs"] by auto
    then show ?thesis using Nil Cons from_key_ge [OF assms(1,2)] by (simp add: KeyIsAfterNode_def)
  qed (simp add: Nil KeyIsAfterNode_def)
next
  case (Cons y ys)
  have "set (tl (us @ x # vs)) \<subseteq> set (before s k xs)"
    using set_level_list(1) [of ht l "before s k xs"] unfolding assms(3) [symmetric] by simp
  moreover have "y \<in> set (tl (us @ x # vs))" using Cons by (cases us) auto
  ultimately show ?thesis using Cons before_less [of y s k xs] by (auto simp: KeyIsAfterNode_def)
qed

lemma FGE_loop_walk:
  assumes "sl_rep cmp ok xs ht s" "ok k" "l < kMaxHeight" "0 # level_list ht l (before s k xs) = us @ x # vs"
  shows "FGE_loop cmp s k x l prev =
    (let z = last (0 # level_list ht l (before s k xs)) in
     if l = 0 then Some (first (level_list ht l (from_key s k xs)), prev(l \<mapsto> z))
     else FGE_loop cmp s k z (l - 1) (prev(l \<mapsto> z)))"
  using assms(4)
proof (induction vs arbitrary: us x)
  case Nil
  have "last (0 # level_list ht l (before s k xs)) = x" using Nil by (simp del: last.simps)
  then show ?case
    using level_chain [OF assms(1,3) Nil] after_node [OF assms(1,2) Nil]
    by (subst FGE_loop.simps) (simp add: Let_def del: last.simps)
next
  case (Cons y vs)
  have "FGE_loop cmp s k x l prev = FGE_loop cmp s k y l prev"
    using level_chain [OF assms(1,3) Cons.prems] after_node [OF assms(1,2) Cons.prems]
    by (subst FGE_loop.simps) (simp add: Let_def)
  then show ?case using Cons.IH [of "us @ [x]" y] Cons.prems by (simp del: last.simps)
qed

lemma last_level_list: "last (0 # level_list ht (Suc l) xs) \<in> set (0 # level_list ht l xs)"
  using last_in_set [of "0 # level_list ht (Suc l) xs"] set_level_list(2) [of ht l xs] by auto

lemma FGE_loop_spec:
  assumes "sl_rep cmp ok xs ht s" "ok k" "l < kMaxHeight" "x \<in> set (0 # level_list ht l (before s k xs))"
  shows "FGE_loop cmp s k x l prev = Some (first (from_key s k xs),
    \<lambda>i. if i \<le> l then Some (last (0 # level_list ht i (before s k xs))) else prev i)"
  using assms(3,4)
proof (induction l arbitrary: x prev)
  case 0
  obtain us vs where sp: "0 # level_list ht 0 (before s k xs) = us @ x # vs" using 0(2) split_list by metis
  have "set (from_key s k xs) \<subseteq> set xs" by (metis before_from set_append sup.cobounded2)
  then have "level_list ht 0 (from_key s k xs) = from_key s k xs"
    using assms(1) by (intro level_list_0) (auto simp: sl_rep_def)
  then show ?case using FGE_loop_walk [OF assms(1,2) 0(1) sp, of prev] by (auto simp: Let_def)
next
  case (Suc l)
  obtain us vs where sp: "0 # level_list ht (Suc l) (before s k xs) = us @ x # vs" using Suc(3) split_list by metis
  let ?z = "last (0 # level_list ht (Suc l) (before s k xs))"
  have "FGE_loop cmp s k x (Suc l) prev = FGE_loop cmp s k ?z l (prev(Suc l \<mapsto> ?z))"
    using FGE_loop_walk [OF assms(1,2) Suc.prems(1) sp, of prev] by (simp add: Let_def del: last.simps)
  also have "\<dots> = Some (first (from_key s k xs),
      \<lambda>i. if i \<le> l then Some (last (0 # level_list ht i (before s k xs))) else (prev(Suc l \<mapsto> ?z)) i)"
    using Suc.prems(1) last_level_list by (intro Suc.IH) simp_all
  finally show ?case by (auto simp: le_Suc_eq)
qed

lemma FindGreaterOrEqual_spec:
  assumes "sl_rep cmp ok xs ht s" "ok k"
  shows "FindGreaterOrEqual cmp s k = Some (first (from_key s k xs),
    \<lambda>i. if i < sl_max_height s then Some (last (0 # level_list ht i (before s k xs))) else None)"
proof -
  have h: "1 \<le> sl_max_height s" "sl_max_height s \<le> kMaxHeight" using assms(1) by (simp_all add: sl_rep_def)
  then have "i \<le> sl_max_height s - 1 \<longleftrightarrow> i < sl_max_height s" for i by linarith
  then show ?thesis
    using FGE_loop_spec [OF assms, of "sl_max_height s - 1" 0 "\<lambda>_. None"] h by (simp add: FindGreaterOrEqual_def)
qed

end

section \<open>Insertion\<close>

definition sl_chains :: "nat list \<Rightarrow> (nat \<Rightarrow> nat) \<Rightarrow> 'k SkipList \<Rightarrow> bool" where
  "sl_chains xs ht s \<longleftrightarrow> (\<forall>l < kMaxHeight. chain (\<lambda>n. sl_next s n l) (0 # level_list ht l xs))"

lemma sl_next_SetNext:
  "sl_next (SetNext n i v s) m l = (if m = n \<and> l = i then v else sl_next s m l)"
  by (simp add: SetNext_def)

lemma link_one:
  assumes ch: "sl_chains (A @ x # B) (ht(x := i)) s" and i: "i < kMaxHeight"
    and p: "p = last (0 # level_list ht i A)" and d: "distinct (0 # A @ x # B)"
  shows "sl_chains (A @ x # B) (ht(x := Suc i)) (SetNext p i (Some x) (SetNext x i (sl_next s p i) s))"
  unfolding sl_chains_def
proof (intro allI impI)
  fix l assume l: "l < kMaxHeight"
  let ?s = "SetNext p i (Some x) (SetNext x i (sl_next s p i) s)"
  have x: "x \<notin> set A" "x \<notin> set B" "x \<noteq> 0" using d by auto
  have ll: "level_list (ht(x := h)) l A = level_list ht l A" "level_list (ht(x := h)) l B = level_list ht l B" for h l
    using x by (simp_all add: level_list_upd)
  have c: "chain (\<lambda>n. sl_next s n l) (0 # level_list (ht(x := i)) l (A @ x # B))" using ch l by (simp add: sl_chains_def)
  show "chain (\<lambda>n. sl_next ?s n l) (0 # level_list (ht(x := Suc i)) l (A @ x # B))"
  proof (cases "l = i")
    case False
    then have "level_list (ht(x := Suc i)) l [x] = level_list (ht(x := i)) l [x]" by (auto simp: level_list_def)
    then have "level_list (ht(x := Suc i)) l (A @ x # B) = level_list (ht(x := i)) l (A @ x # B)"
      using level_list_append [of "ht(x := Suc i)" l A "[x] @ B"] level_list_append [of "ht(x := Suc i)" l "[x]" B]
        level_list_append [of "ht(x := i)" l A "[x] @ B"] level_list_append [of "ht(x := i)" l "[x]" B] ll by simp
    moreover have "(\<lambda>n. sl_next ?s n l) = (\<lambda>n. sl_next s n l)" using False by (auto simp: sl_next_SetNext)
    ultimately show ?thesis using c by simp
  next
    case True
    obtain us where us: "0 # level_list ht i A = us @ [p]" using p by (metis append_butlast_last_id list.distinct(1))
    have new: "0 # level_list (ht(x := Suc i)) l (A @ x # B) = us @ p # x # level_list ht i B"
      using us ll True level_list_append [of "ht(x := Suc i)" i A "x # B"] by (simp add: level_list_def)
    have old: "0 # level_list (ht(x := i)) l (A @ x # B) = us @ p # level_list ht i B"
      using us ll True level_list_append [of "ht(x := i)" i A "x # B"] by (simp add: level_list_def)
    have "insert 0 (set (level_list ht i A)) = set us \<union> {p}" using arg_cong [OF us, of set] by simp
    then have "set us \<union> {p} \<subseteq> insert 0 (set A)" using set_level_list(1) [of ht i A] by (metis insert_mono)
    then have sub: "set (us @ p # level_list ht i B) \<subseteq> set (0 # A @ B)"
      using set_level_list(1) [of ht i B] by auto
    have ne: "x \<noteq> p" using sub x by auto
    have "distinct (0 # level_list ht i A @ level_list ht i B)"
      using d set_level_list(1) [of ht i A] set_level_list(1) [of ht i B] by (auto simp: level_list_def)
    then have "distinct ((us @ [p]) @ level_list ht i B)" unfolding us [symmetric] by simp
    then have "distinct (us @ p # level_list ht i B)" by simp
    moreover have "x \<notin> set (us @ p # level_list ht i B)" using sub x by auto
    moreover have "(\<lambda>n. sl_next ?s n l) = (\<lambda>n. sl_next s n l)(x := sl_next s p l, p := Some x)"
      using True ne by (auto simp: sl_next_SetNext)
    ultimately show ?thesis using chain_insert [of "\<lambda>n. sl_next s n l" us p "level_list ht i B" x] c unfolding new old by simp
  qed
qed

lemma SetNext_simps [simp]:
  "sl_key (SetNext n i v s) = sl_key s" "sl_count (SetNext n i v s) = sl_count s"
  "sl_max_height (SetNext n i v s) = sl_max_height s" "sl_rnd (SetNext n i v s) = sl_rnd s"
  by (simp_all add: SetNext_def)

lemma link_loop_spec:
  assumes "sl_chains (A @ x # B) (ht(x := j)) s" "h \<le> kMaxHeight" "distinct (0 # A @ x # B)" "j \<le> h"
    and "\<And>i. i < h \<Longrightarrow> prev i = Some (last (0 # level_list ht i A))"
  obtains s' where "link_loop prev x [j..<h] s = Some s'" "sl_chains (A @ x # B) (ht(x := h)) s'"
    "sl_key s' = sl_key s" "sl_count s' = sl_count s" "sl_max_height s' = sl_max_height s"
proof -
  have "\<exists>s'. link_loop prev x [j..<h] s = Some s' \<and> sl_chains (A @ x # B) (ht(x := h)) s' \<and>
    sl_key s' = sl_key s \<and> sl_count s' = sl_count s \<and> sl_max_height s' = sl_max_height s"
    using assms(1,4)
  proof (induction "h - j" arbitrary: j s)
    case (Suc n)
    then have j: "j < h" by linarith
    let ?p = "last (0 # level_list ht j A)"
    let ?s = "SetNext ?p j (Some x) (SetNext x j (sl_next s ?p j) s)"
    have "sl_chains (A @ x # B) (ht(x := Suc j)) ?s"
      using j assms(2) by (intro link_one [OF Suc.prems(1) _ refl assms(3)]) simp
    with Suc.hyps(1) [of "Suc j" ?s] Suc.hyps(2) j
    show ?case by (simp add: upt_conv_Cons assms(5) del: last.simps)
  qed auto
  then show ?thesis using that by blast
qed

lemma RandomHeight_loop_bounds:
  "h \<le> kMaxHeight \<Longrightarrow> h \<le> fst (RandomHeight_loop h rnd) \<and> fst (RandomHeight_loop h rnd) \<le> kMaxHeight"
proof (induction h rnd rule: RandomHeight_loop.induct)
  case (1 h rnd)
  obtain one rnd' where o1: "Random_OneIn 4 rnd = (one, rnd')" by fastforce
  have "one \<Longrightarrow> h < kMaxHeight \<Longrightarrow> Suc h \<le> fst (RandomHeight_loop (Suc h) rnd') \<and>
      fst (RandomHeight_loop (Suc h) rnd') \<le> kMaxHeight"
    using 1(1) [OF _ o1 [symmetric] refl] by simp
  then show ?case
    using 1(2) by (cases one) (auto simp: RandomHeight_loop.simps [of h] o1)
qed

lemma RandomHeight_bounds: "1 \<le> fst (RandomHeight rnd)" "fst (RandomHeight rnd) \<le> kMaxHeight"
  using RandomHeight_loop_bounds [of 1 rnd] by (simp_all add: RandomHeight_def)

context key_order
begin

lemma SkipList_Insert_rep:
  assumes rep: "sl_rep cmp ok xs ht s" and k: "ok k" and new: "\<forall>x \<in> set xs. cmp (sl_key s x) k \<noteq> 0"
  obtains s' h where "SkipList_Insert cmp k s = Some s'"
    "sl_rep cmp ok (before s k xs @ sl_count s # from_key s k xs) (ht(sl_count s := h)) s'"
    "sl_key s' = (sl_key s)(sl_count s := k)"
proof -
  let ?A = "before s k xs" and ?B = "from_key s k xs" and ?x = "sl_count s"
  obtain h rnd where h: "RandomHeight (sl_rnd s) = (h, rnd)" by fastforce
  have hb: "1 \<le> h" "h \<le> kMaxHeight" using RandomHeight_bounds [of "sl_rnd s"] h by auto
  have AB: "?A @ ?B = xs" "set ?A \<subseteq> set xs" "set ?B \<subseteq> set xs"
    using before_from [of s k xs] by (simp, metis Un_upper1 set_append, metis Un_upper2 set_append)
  note r = rep [unfolded sl_rep_def]
  have x: "?x \<noteq> 0" "?x \<notin> set xs" using r by auto
  have xAB: "?x \<notin> set ?A" "?x \<notin> set ?B" using x AB(2,3) by auto
  have "distinct (0 # ?A @ ?B)" using r AB(1) by simp
  then have d: "distinct (0 # ?A @ ?x # ?B)" using x AB(2,3) by auto
  define prev where "prev = (\<lambda>i. if i < sl_max_height s then Some (last (0 # level_list ht i ?A)) else None)"
  define prev' where "prev' = (if h > sl_max_height s
      then \<lambda>i. if sl_max_height s \<le> i \<and> i < h then Some 0 else prev i else prev)"
  define s1 where "s1 = s\<lparr> sl_rnd := rnd, sl_max_height := max h (sl_max_height s),
      sl_key := (sl_key s)(?x := k), sl_count := ?x + 1 \<rparr>"
  have above: "level_list ht i ?A = []" if "sl_max_height s \<le> i" for i
    using r AB that by (fastforce simp: level_list_def filter_empty_conv)
  have pv: "prev' i = Some (last (0 # level_list ht i ?A))" if "i < h" for i
    using that above [of i] by (auto simp: prev'_def prev_def)
  have "level_list (ht(?x := 0)) l (?A @ ?x # ?B) = level_list ht l xs" for l
  proof -
    have "level_list (ht(?x := 0)) l (?A @ ?x # ?B) = level_list ht l ?A @ level_list ht l ?B"
      using xAB by (simp add: level_list_Cons level_list_upd)
    then show ?thesis using AB(1) by (metis level_list_append)
  qed
  then have "sl_chains (?A @ ?x # ?B) (ht(?x := 0)) s1" using r by (simp add: sl_chains_def s1_def)
  then obtain s' where s': "link_loop prev' ?x [0..<h] s1 = Some s'" "sl_chains (?A @ ?x # ?B) (ht(?x := h)) s'"
    "sl_key s' = sl_key s1" "sl_count s' = sl_count s1" "sl_max_height s' = sl_max_height s1"
    using link_loop_spec [OF _ hb(2) d _ pv] by blast
  have "SkipList_Insert cmp k s = Some s'"
    using s'(1) unfolding SkipList_Insert_def FindGreaterOrEqual_spec [OF rep k] prev_def [symmetric]
    by (auto simp: h Let_def s1_def prev'_def max_def split: if_splits)
  moreover have key: "sl_key s' = (sl_key s)(?x := k)" using s'(3) by (simp add: s1_def)
  moreover have "sl_rep cmp ok (?A @ ?x # ?B) (ht(?x := h)) s'"
  proof -
    have keys: "sl_key s' y = sl_key s y" if "y \<in> set xs" for y using that x key by auto
    have "sorted_wrt (\<lambda>x y. cmp (sl_key s x) (sl_key s y) < 0) (?A @ ?B)" using r AB(1) by simp
    then have "sorted_wrt (\<lambda>x y. cmp (sl_key s' x) (sl_key s' y) < 0) (?A @ ?B)"
      using keys AB by (auto elim!: sorted_wrt_mono_rel [rotated])
    moreover have "cmp (sl_key s' y) (sl_key s' ?x) < 0" if "y \<in> set ?A" for y
      using that before_less [OF that] keys [of y] AB(2) key xAB(1) by auto
    moreover have "cmp (sl_key s' ?x) (sl_key s' y) < 0" if "y \<in> set ?B" for y
    proof -
      have "\<not> cmp (sl_key s y) k < 0" "cmp (sl_key s y) k \<noteq> 0" "ok (sl_key s y)"
        using from_key_ge [OF rep k that] new that AB r by auto
      then have "cmp k (sl_key s y) < 0" using ko_antisym [of k "sl_key s y"] k by simp
      then show ?thesis using keys [of y] that AB key by auto
    qed
    ultimately have "sorted_wrt (\<lambda>x y. cmp (sl_key s' x) (sl_key s' y) < 0) (?A @ ?x # ?B)"
      by (auto simp: sorted_wrt_append)
    moreover have "ok (sl_key s' y) \<and> 1 \<le> (ht(?x := h)) y \<and> (ht(?x := h)) y \<le> sl_max_height s' \<and> y < sl_count s'"
      if "y \<in> set (?A @ ?x # ?B)" for y
      using that r AB(2,3) k hb keys key x s'(4,5) by (fastforce simp: s1_def)
    ultimately show ?thesis
      using s' d hb r unfolding sl_rep_def by (auto simp: sl_chains_def s1_def)
  qed
  ultimately show ?thesis using that by blast
qed

section \<open>The list of the keys\<close>

text \<open>The keys in the order of the lowest level, read off the links.\<close>

definition sl_keys_of :: "nat list \<Rightarrow> 'k SkipList \<Rightarrow> 'k list" where
  "sl_keys_of xs s = map (sl_key s) xs"

lemma sl_rep_level0:
  assumes "sl_rep cmp ok xs ht s"
  shows "chain (\<lambda>n. sl_next s n 0) (0 # xs)"
  using assms level_list_0 [of xs ht] by (fastforce simp: sl_rep_def)

lemma sl_Next_node:
  assumes "sl_rep cmp ok xs ht s" "i < length xs"
  shows "sl_Next s (xs ! i) = (if Suc i < length xs then Some (xs ! Suc i) else None)"
proof -
  have "0 # xs = (0 # take i xs) @ xs ! i # drop (Suc i) xs" using assms(2) by (simp add: id_take_nth_drop [symmetric])
  then show ?thesis
    using chain_next [of "\<lambda>n. sl_next s n 0" "0 # take i xs" "xs ! i" "drop (Suc i) xs"] sl_rep_level0 [OF assms(1)]
    by (cases "Suc i < length xs") (auto simp: sl_Next_def Cons_nth_drop_Suc [symmetric])
qed

lemma sl_Seek_node:
  assumes "sl_rep cmp ok xs ht s" "ok k"
  shows "sl_Seek cmp s k = Some (first (from_key s k xs))"
  using FindGreaterOrEqual_spec [OF assms] by (simp add: sl_Seek_def)

lemma first_from_key:
  assumes "sl_rep cmp ok xs ht s" "ok k"
  shows "case first (from_key s k xs) of
      None \<Rightarrow> \<forall>x \<in> set xs. cmp (sl_key s x) k < 0
    | Some n \<Rightarrow> n \<in> set xs \<and> cmp (sl_key s n) k \<ge> 0 \<and> (\<forall>x \<in> set xs. cmp (sl_key s x) k \<ge> 0 \<longrightarrow> cmp (sl_key s n) (sl_key s x) \<le> 0)"
proof (cases "from_key s k xs")
  case Nil
  then have "before s k xs = xs" using before_from [of s k xs] by simp
  then show ?thesis using Nil before_less [of _ s k xs] by auto
next
  case (Cons n ys)
  have xs: "before s k xs @ n # ys = xs" using before_from [of s k xs] Cons by simp
  then have n: "n \<in> set xs" "set ys \<subseteq> set xs" by (metis in_set_conv_decomp, metis set_append set_subset_Cons subset_trans Un_upper2)
  have "sorted_wrt (\<lambda>x y. cmp (sl_key s x) (sl_key s y) < 0) (before s k xs @ n # ys)" using assms(1) xs by (simp add: sl_rep_def)
  then have ys: "cmp (sl_key s n) (sl_key s y) < 0" if "y \<in> set ys" for y using that by (simp add: sorted_wrt_append)
  have cases: "x \<in> set (before s k xs) \<or> x = n \<or> x \<in> set ys" if "x \<in> set xs" for x
    using that arg_cong [OF xs, of set] by auto
  have "cmp (sl_key s n) (sl_key s n) = 0" using n(1) assms(1) by (simp add: sl_rep_def ko_refl)
  then have "cmp (sl_key s n) (sl_key s x) \<le> 0" if "x \<in> set xs" "cmp (sl_key s x) k \<ge> 0" for x
    using cases [OF that(1)] before_less [of x s k xs] ys [of x] that(2) by auto
  moreover have "cmp (sl_key s n) k \<ge> 0" using from_key_ge [OF assms, of n] Cons by simp
  ultimately show ?thesis using Cons n(1) by simp
qed

text \<open>The backward searches.\<close>

lemma FLT_loop_walk:
  assumes "sl_rep cmp ok xs ht s" "ok k" "l < kMaxHeight" "0 # level_list ht l (before s k xs) = us @ x # vs"
  shows "FLT_loop cmp s k x l =
    (let z = last (0 # level_list ht l (before s k xs)) in if l = 0 then Some z else FLT_loop cmp s k z (l - 1))"
  using assms(4)
proof (induction vs arbitrary: us x)
  case Nil
  have z: "last (0 # level_list ht l (before s k xs)) = x" using Nil by (simp del: last.simps)
  have "sl_next s x l = None \<or> cmp (sl_key s (the (sl_next s x l))) k \<ge> 0"
    using level_chain [OF assms(1,3) Nil] after_node [OF assms(1,2) Nil]
    by (auto simp: KeyIsAfterNode_def split: option.splits)
  then show ?case by (subst FLT_loop.simps) (simp add: Let_def z del: last.simps)
next
  case (Cons y vs)
  have "\<not> (sl_next s x l = None \<or> cmp (sl_key s (the (sl_next s x l))) k \<ge> 0)" "the (sl_next s x l) = y"
    using level_chain [OF assms(1,3) Cons.prems] after_node [OF assms(1,2) Cons.prems]
    by (auto simp: KeyIsAfterNode_def split: option.splits)
  then have "FLT_loop cmp s k x l = FLT_loop cmp s k y l"
    by (subst FLT_loop.simps) (simp only: Let_def if_False)
  then show ?case using Cons.IH [of "us @ [x]" y] Cons.prems by (simp del: last.simps)
qed

lemma FLT_loop_spec:
  assumes "sl_rep cmp ok xs ht s" "ok k" "l < kMaxHeight" "x \<in> set (0 # level_list ht l (before s k xs))"
  shows "FLT_loop cmp s k x l = Some (last (0 # before s k xs))"
  using assms(3,4)
proof (induction l arbitrary: x)
  case 0
  obtain us vs where sp: "0 # level_list ht 0 (before s k xs) = us @ x # vs" using 0(2) split_list by metis
  have "set (before s k xs) \<subseteq> set xs" by (metis before_from set_append Un_upper1)
  then have "level_list ht 0 (before s k xs) = before s k xs"
    using assms(1) by (intro level_list_0) (auto simp: sl_rep_def)
  then show ?case using FLT_loop_walk [OF assms(1,2) 0(1) sp] by (simp add: Let_def)
next
  case (Suc l)
  obtain us vs where sp: "0 # level_list ht (Suc l) (before s k xs) = us @ x # vs" using Suc(3) split_list by metis
  have "FLT_loop cmp s k x (Suc l) = FLT_loop cmp s k (last (0 # level_list ht (Suc l) (before s k xs))) l"
    using FLT_loop_walk [OF assms(1,2) Suc.prems(1) sp] by (simp add: Let_def del: last.simps)
  also have "\<dots> = Some (last (0 # before s k xs))"
    using Suc.prems(1) last_level_list by (intro Suc.IH) simp_all
  finally show ?case .
qed

lemma FindLessThan_spec:
  assumes "sl_rep cmp ok xs ht s" "ok k"
  shows "FindLessThan cmp s k = Some (last (0 # before s k xs))"
proof -
  have "sl_max_height s - 1 < kMaxHeight" using assms(1) by (auto simp: sl_rep_def)
  then show ?thesis using FLT_loop_spec [OF assms, of "sl_max_height s - 1" 0] by (simp add: FindLessThan_def)
qed

lemma FindLast_loop_walk:
  assumes "sl_rep cmp ok xs ht s" "l < kMaxHeight" "0 # level_list ht l xs = us @ x # vs"
  shows "FindLast_loop s x l =
    (let z = last (0 # level_list ht l xs) in if l = 0 then Some z else FindLast_loop s z (l - 1))"
  using assms(3)
proof (induction vs arbitrary: us x)
  case Nil
  have z: "last (0 # level_list ht l xs) = x" using Nil by (simp del: last.simps)
  have "chain (\<lambda>n. sl_next s n l) (us @ x # [])" using assms(1,2) Nil by (metis sl_rep_def)
  from chain_next [OF this] show ?case by (subst FindLast_loop.simps) (simp add: Let_def z del: last.simps)
next
  case (Cons y vs)
  have "chain (\<lambda>n. sl_next s n l) (us @ x # y # vs)" using assms(1,2) Cons.prems by (metis sl_rep_def)
  from chain_next [OF this] have "FindLast_loop s x l = FindLast_loop s y l"
    by (subst FindLast_loop.simps) (simp add: Let_def)
  then show ?case using Cons.IH [of "us @ [x]" y] Cons.prems by (simp del: last.simps)
qed

lemma FindLast_spec:
  assumes "sl_rep cmp ok xs ht s"
  shows "FindLast s = Some (last (0 # xs))"
proof -
  have "FindLast_loop s x l = Some (last (0 # xs))" if "l < kMaxHeight" "x \<in> set (0 # level_list ht l xs)" for l x
    using that
  proof (induction l arbitrary: x)
    case 0
    obtain us vs where sp: "0 # level_list ht 0 xs = us @ x # vs" using 0(2) split_list by metis
    have "level_list ht 0 xs = xs" using assms by (intro level_list_0) (simp add: sl_rep_def)
    then show ?case using FindLast_loop_walk [OF assms 0(1) sp] by (simp add: Let_def)
  next
    case (Suc l)
    obtain us vs where sp: "0 # level_list ht (Suc l) xs = us @ x # vs" using Suc(3) split_list by metis
    have "FindLast_loop s x (Suc l) = FindLast_loop s (last (0 # level_list ht (Suc l) xs)) l"
      using FindLast_loop_walk [OF assms Suc.prems(1) sp] by (simp add: Let_def del: last.simps)
    also have "\<dots> = Some (last (0 # xs))" using Suc.prems(1) last_level_list by (intro Suc.IH) simp_all
    finally show ?case .
  qed
  moreover have "sl_max_height s - 1 < kMaxHeight" using assms by (auto simp: sl_rep_def)
  ultimately show ?thesis by (simp add: FindLast_def)
qed

lemma sl_inv_Insert:
  assumes "sl_rep cmp ok xs ht s" "ok k" "\<forall>x \<in> set xs. cmp (sl_key s x) k \<noteq> 0"
  shows "\<exists>s' xs' ht'. SkipList_Insert cmp k s = Some s' \<and> sl_rep cmp ok xs' ht' s' \<and>
    mset (sl_keys_of xs' s') = add_mset k (mset (sl_keys_of xs s))"
proof -
  obtain s' h where s': "SkipList_Insert cmp k s = Some s'"
    "sl_rep cmp ok (before s k xs @ sl_count s # from_key s k xs) (ht(sl_count s := h)) s'"
    "sl_key s' = (sl_key s)(sl_count s := k)" using SkipList_Insert_rep [OF assms] by blast
  have "sl_count s \<notin> set xs" using assms(1) by (auto simp: sl_rep_def)
  then have m: "map (sl_key s') ys = map (sl_key s) ys" if "set ys \<subseteq> set xs" for ys
    using that s'(3) by auto
  have AB: "set (before s k xs) \<subseteq> set xs" "set (from_key s k xs) \<subseteq> set xs"
    using before_from [of s k xs] by (metis Un_upper1 set_append, metis Un_upper2 set_append)
  have "mset (sl_keys_of (before s k xs @ sl_count s # from_key s k xs) s') =
      add_mset k (mset (map (sl_key s) (before s k xs @ from_key s k xs)))"
    unfolding sl_keys_of_def map_append list.map m [OF AB(1)] m [OF AB(2)] by (simp add: s'(3))
  then show ?thesis using s' by (metis before_from sl_keys_of_def)
qed

end

end
