(* ===== verification/Mem_Table.thy ===== *)
theory Mem_Table
  imports Skip_List Internal_Key LDB_Status
begin

text \<open>
  \<^verbatim>\<open>db/memtable.h\<close> and \<^verbatim>\<open>db/memtable.cc\<close>: a skip list of entries, each the length-prefixed internal key followed by the
  length-prefixed value. A pointer to an entry is the entry's bytes. The arena only provides memory.
\<close>

unbundle bit_operations_syntax

definition mem_GetLengthPrefixedSlice :: "slice \<Rightarrow> slice" where
  "mem_GetLengthPrefixedSlice data =
     (case GetVarint32Ptr data of None \<Rightarrow> [] | Some (len, p) \<Rightarrow> take (unat len) p)"

definition mem_compare :: "Comparator \<Rightarrow> slice \<Rightarrow> slice \<Rightarrow> int" where
  "mem_compare comparator aptr bptr =
     (let a = mem_GetLengthPrefixedSlice aptr; b = mem_GetLengthPrefixedSlice bptr in Compare comparator a b)"

definition EncodeKey :: "slice \<Rightarrow> slice" where
  "EncodeKey target = PutVarint32 [] (of_nat (length target)) @ target"

record MemTable =
  mt_comparator :: Comparator
  mt_table :: "slice SkipList"

definition new_MemTable :: "Comparator \<Rightarrow> MemTable" where
  "new_MemTable comparator = \<lparr> mt_comparator = comparator, mt_table = new_SkipList [] \<rparr>"

definition mt_compare :: "MemTable \<Rightarrow> slice \<Rightarrow> slice \<Rightarrow> int" where
  "mt_compare m = mem_compare (InternalKeyComparator (mt_comparator m))"

definition mem_entry :: "SequenceNumber \<Rightarrow> ValueType \<Rightarrow> slice \<Rightarrow> slice \<Rightarrow> slice" where
  "mem_entry s t key value =
     EncodeVarint32 (of_nat (length key + 8)) @ key @ EncodeFixed64 (push_bit 8 s OR ucast t) @
     EncodeVarint32 (of_nat (length value)) @ value"

definition MemTable_Add :: "SequenceNumber \<Rightarrow> ValueType \<Rightarrow> slice \<Rightarrow> slice \<Rightarrow> MemTable \<Rightarrow> MemTable option" where
  "MemTable_Add s t key value m =
     map_option (\<lambda>tb. m\<lparr> mt_table := tb \<rparr>) (SkipList_Insert (mt_compare m) (mem_entry s t key value) (mt_table m))"

text \<open>\<open>Get\<close> returns whether it decided, the value (unchanged unless found) and the status (unchanged unless deleted).\<close>

definition MemTable_Get :: "MemTable \<Rightarrow> LookupKey \<Rightarrow> slice \<Rightarrow> Status \<Rightarrow> (bool \<times> slice \<times> Status) option" where
  "MemTable_Get m key value s =
     (case sl_Seek (mt_compare m) (mt_table m) (memtable_key key) of
        None \<Rightarrow> None
      | Some None \<Rightarrow> Some (False, value, s)
      | Some (Some n) \<Rightarrow>
          let entry = sl_key (mt_table m) n in
          (case GetVarint32Ptr entry of
             None \<Rightarrow> Some (False, value, s)
           | Some (key_length, key_ptr) \<Rightarrow>
               let kl = unat key_length in
               if Compare (mt_comparator m) (take (unat (key_length - 8)) key_ptr) (lookup_user_key key) = 0 then
                 let tag = DecodeFixed64 (drop (kl - 8) key_ptr); t = ucast (tag AND 0xff) :: byte in
                 if t = kTypeValue then Some (True, mem_GetLengthPrefixedSlice (drop kl key_ptr), s)
                 else if t = kTypeDeletion then Some (True, value, NotFound [] [])
                 else Some (False, value, s)
               else Some (False, value, s)))"

text \<open>The iterator over a memory table is the node of the skip list's iterator.\<close>

definition mi_Seek :: "MemTable \<Rightarrow> slice \<Rightarrow> nat option option" where
  "mi_Seek m k = sl_Seek (mt_compare m) (mt_table m) (EncodeKey k)"

definition mi_SeekToFirst :: "MemTable \<Rightarrow> nat option" where
  "mi_SeekToFirst m = sl_SeekToFirst (mt_table m)"

definition mi_SeekToLast :: "MemTable \<Rightarrow> nat option option" where
  "mi_SeekToLast m = sl_SeekToLast (mt_table m)"

definition mi_Next :: "MemTable \<Rightarrow> nat \<Rightarrow> nat option" where
  "mi_Next m n = sl_Next (mt_table m) n"

definition mi_Prev :: "MemTable \<Rightarrow> nat \<Rightarrow> nat option option" where
  "mi_Prev m n = sl_Prev (mt_compare m) (mt_table m) n"

definition mi_key :: "MemTable \<Rightarrow> nat \<Rightarrow> slice" where
  "mi_key m n = mem_GetLengthPrefixedSlice (sl_key (mt_table m) n)"

definition mi_value :: "MemTable \<Rightarrow> nat \<Rightarrow> slice" where
  "mi_value m n =
     (let entry = sl_key (mt_table m) n; key_slice = mem_GetLengthPrefixedSlice entry in
      case GetVarint32Ptr entry of None \<Rightarrow> []
      | Some (_, p) \<Rightarrow> mem_GetLengthPrefixedSlice (drop (length key_slice) p))"

section \<open>Entries\<close>

definition entry_ok :: "(slice \<Rightarrow> bool) \<Rightarrow> slice \<Rightarrow> bool" where
  "entry_ok ok e \<longleftrightarrow> (\<exists>ik rest. e = PutLengthPrefixedSlice [] ik @ rest \<and> internal_ok ok ik \<and> length ik < 2 ^ 32)"

lemma mem_GetLengthPrefixedSlice_Put [codec_simps]:
  "length ik < 2 ^ 32 \<Longrightarrow> mem_GetLengthPrefixedSlice (PutLengthPrefixedSlice [] ik @ rest) = ik"
  using GetVarint32_Encode [of "of_nat (length ik)" "ik @ rest"]
  by (simp add: mem_GetLengthPrefixedSlice_def PutLengthPrefixedSlice_def PutVarint32_def GetVarint32_def
      unat_of_nat_small)

lemma mem_entry_eq:
  "mem_entry s t k v = PutLengthPrefixedSlice [] (InternalKey k s t) @ PutLengthPrefixedSlice [] v"
  by (simp add: mem_entry_def PutLengthPrefixedSlice_def PutVarint32_def InternalKey_eq PackSequenceAndType_def)

lemma memtable_key_eq:
  "memtable_key (new_LookupKey u s) = PutLengthPrefixedSlice [] (InternalKey u s kValueTypeForSeek)"
  by (simp add: memtable_key_def new_LookupKey_def Let_def PutLengthPrefixedSlice_def PutVarint32_def InternalKey_eq)

lemma lookup_user_key_eq: "lookup_user_key (new_LookupKey u s) = u"
  by (simp add: lookup_user_key_def new_LookupKey_def Let_def)

sublocale user_comparator \<subseteq> mem: key_order "mem_compare (InternalKeyComparator cmp)" "entry_ok ok"
proof
  fix a b c
  assume a: "entry_ok ok a"
  then obtain ia where ia: "mem_GetLengthPrefixedSlice a = ia" "internal_ok ok ia"
    by (auto simp: entry_ok_def mem_GetLengthPrefixedSlice_Put)
  show "mem_compare (InternalKeyComparator cmp) a a = 0" using ia internal.refl by (simp add: mem_compare_def)
  assume b: "entry_ok ok b"
  then obtain ib where ib: "mem_GetLengthPrefixedSlice b = ib" "internal_ok ok ib"
    by (auto simp: entry_ok_def mem_GetLengthPrefixedSlice_Put)
  show "(mem_compare (InternalKeyComparator cmp) a b < 0) = (0 < mem_compare (InternalKeyComparator cmp) b a)"
    using ia ib internal.antisym [of ia ib] by (simp add: mem_compare_def)
  assume c: "entry_ok ok c"
  then obtain ic where ic: "mem_GetLengthPrefixedSlice c = ic" "internal_ok ok ic"
    by (auto simp: entry_ok_def mem_GetLengthPrefixedSlice_Put)
  show "mem_compare (InternalKeyComparator cmp) a b \<le> 0 \<Longrightarrow> mem_compare (InternalKeyComparator cmp) b c \<le> 0 \<Longrightarrow>
      mem_compare (InternalKeyComparator cmp) a c \<le> 0"
    using ia ib ic internal.trans [of ia ib ic] by (simp add: mem_compare_def)
qed

section \<open>What a memory table holds\<close>

text \<open>One addition: sequence number, type, user key and value.\<close>

record mem_op =
  op_seq :: SequenceNumber
  op_type :: ValueType
  op_key :: slice
  op_value :: slice

definition op_ok :: "mem_op \<Rightarrow> bool" where
  "op_ok e \<longleftrightarrow> op_seq e \<le> kMaxSequenceNumber \<and> op_type e \<le> kTypeValue \<and> length (op_key e) + 8 < 2 ^ 32 \<and>
     length (op_value e) < 2 ^ 32"

definition op_entry :: "mem_op \<Rightarrow> slice" where
  "op_entry e = mem_entry (op_seq e) (op_type e) (op_key e) (op_value e)"

definition op_ikey :: "mem_op \<Rightarrow> slice" where
  "op_ikey e = InternalKey (op_key e) (op_seq e) (op_type e)"

text \<open>The additions run one after the other.\<close>

fun MemTable_Adds :: "mem_op list \<Rightarrow> MemTable \<Rightarrow> MemTable option" where
  "MemTable_Adds [] m = Some m"
| "MemTable_Adds (e # es) m =
     (case MemTable_Add (op_seq e) (op_type e) (op_key e) (op_value e) m of
        None \<Rightarrow> None | Some m \<Rightarrow> MemTable_Adds es m)"

text \<open>The specification of a lookup: the operation on the key with the largest sequence number up to the snapshot.\<close>

definition visible :: "slice \<Rightarrow> SequenceNumber \<Rightarrow> mem_op \<Rightarrow> bool" where
  "visible k s e \<longleftrightarrow> op_key e = k \<and> op_seq e \<le> s"

fun newest :: "mem_op list \<Rightarrow> slice \<Rightarrow> SequenceNumber \<Rightarrow> mem_op option" where
  "newest [] k s = None"
| "newest (e # es) k s =
     (case newest es k s of
        None \<Rightarrow> if visible k s e then Some e else None
      | Some f \<Rightarrow> if visible k s e \<and> op_seq f < op_seq e then Some e else Some f)"

definition lookup_result :: "mem_op option \<Rightarrow> slice \<Rightarrow> Status \<Rightarrow> bool \<times> slice \<times> Status" where
  "lookup_result r value st =
     (case r of None \<Rightarrow> (False, value, st)
      | Some e \<Rightarrow> if op_type e = kTypeValue then (True, op_value e, st) else (True, value, NotFound [] []))"

lemma newest_spec:
  "case newest es k s of None \<Rightarrow> \<forall>e \<in> set es. \<not> visible k s e
   | Some f \<Rightarrow> f \<in> set es \<and> visible k s f \<and> (\<forall>e \<in> set es. visible k s e \<longrightarrow> op_seq e \<le> op_seq f)"
  by (induction es) (auto split: option.splits)

definition mt_rep :: "mem_op list \<Rightarrow> MemTable \<Rightarrow> bool" where
  "mt_rep es m \<longleftrightarrow> mt_comparator m = BytewiseComparator \<and> list_all op_ok es \<and> distinct (map op_seq es) \<and>
     (\<exists>xs ht. sl_rep (mt_compare m) (entry_ok (\<lambda>_. True)) xs ht (mt_table m) \<and>
        mset (map (sl_key (mt_table m)) xs) = mset (map op_entry es))"

abbreviation (input) icmp :: Comparator where "icmp \<equiv> InternalKeyComparator BytewiseComparator"

lemma entry_ok_op: "op_ok e \<Longrightarrow> entry_ok (\<lambda>_. True) (op_entry e)"
  unfolding entry_ok_def op_entry_def mem_entry_eq by (intro exI conjI, rule refl) (auto simp: op_ok_def internal_ok_def)

lemma decode_op: "op_ok e \<Longrightarrow> mem_GetLengthPrefixedSlice (op_entry e) = op_ikey e"
  by (simp add: op_entry_def mem_entry_eq op_ikey_def op_ok_def mem_GetLengthPrefixedSlice_Put)

lemma mem_compare_ops:
  "op_ok e \<Longrightarrow> op_ok f \<Longrightarrow> mem_compare icmp (op_entry e) (op_entry f) = internal_Compare BytewiseComparator (op_ikey e) (op_ikey f)"
  by (simp add: mem_compare_def decode_op InternalKeyComparator_def)

lemma pack_eq_iff:
  assumes "s \<le> kMaxSequenceNumber" "s' \<le> kMaxSequenceNumber"
  shows "PackSequenceAndType s t = PackSequenceAndType s' t' \<longleftrightarrow> s = s' \<and> t = t'"
proof
  assume e: "PackSequenceAndType s t = PackSequenceAndType s' t'"
  have "s = s'" using arg_cong [OF e, of "drop_bit 8"] by (simp only: pack_seq assms)
  moreover have "t = t'" using arg_cong [OF e, of "\<lambda>w. ucast (w AND 0xff) :: byte"] by (simp only: pack_type)
  ultimately show "s = s' \<and> t = t'" ..
qed simp

lemma mt_rep_new: "mt_rep [] (new_MemTable BytewiseComparator)"
  unfolding mt_rep_def new_MemTable_def by (auto intro!: exI sl_rep_new)

lemma mt_rep_Add:
  assumes "mt_rep es m" "op_ok e" "op_seq e \<notin> set (map op_seq es)"
  shows "\<exists>m'. MemTable_Add (op_seq e) (op_type e) (op_key e) (op_value e) m = Some m' \<and> mt_rep (es @ [e]) m'"
proof -
  obtain xs ht where rep: "sl_rep (mt_compare m) (entry_ok (\<lambda>_. True)) xs ht (mt_table m)"
    "mset (map (sl_key (mt_table m)) xs) = mset (map op_entry es)"
    and m: "mt_comparator m = BytewiseComparator" "list_all op_ok es" "distinct (map op_seq es)"
    using assms(1) by (auto simp: mt_rep_def)
  have cmp: "mt_compare m = mem_compare icmp" using m(1) by (simp add: mt_compare_def)
  have "mem_compare icmp (sl_key (mt_table m) x) (op_entry e) \<noteq> 0" if "x \<in> set xs" for x
  proof -
    have "sl_key (mt_table m) x \<in> set (map op_entry es)" 
      unfolding mset_eq_setD [OF rep(2), symmetric] using that by simp
    then obtain f where f: "f \<in> set es" "sl_key (mt_table m) x = op_entry f" by auto
    then have "op_ok f" "op_seq f \<in> set (map op_seq es)" using m(2) by (auto simp: list_all_iff)
    then have "op_ok f" "op_seq f \<noteq> op_seq e" using assms(3) by auto
    then show ?thesis
      using f assms(2) pack_eq_iff [of "op_seq e" "op_seq f"]
      by (simp add: mem_compare_ops bytewise_user.internal_eq_iff op_ikey_def op_ok_def)
  qed
  then obtain s' xs' ht' where s': "SkipList_Insert (mem_compare icmp) (op_entry e) (mt_table m) = Some s'"
    "sl_rep (mem_compare icmp) (entry_ok (\<lambda>_. True)) xs' ht' s'"
    "mset (map (sl_key s') xs') = add_mset (op_entry e) (mset (map (sl_key (mt_table m)) xs))"
    using bytewise_user.mem.sl_inv_Insert [OF rep(1) [unfolded cmp] entry_ok_op [OF assms(2)]]
    unfolding bytewise_user.mem.sl_keys_of_def by blast
  have "mt_rep (es @ [e]) (m\<lparr> mt_table := s' \<rparr>)"
    unfolding mt_rep_def using s'(2,3) rep(2) m assms(2,3) cmp by (auto simp: mt_compare_def)
  then show ?thesis using s'(1) by (simp add: MemTable_Add_def cmp op_entry_def)
qed

lemma mt_rep_Adds:
  assumes "mt_rep es m" "list_all op_ok fs" "distinct (map op_seq (es @ fs))"
  shows "\<exists>m'. MemTable_Adds fs m = Some m' \<and> mt_rep (es @ fs) m'"
  using assms
proof (induction fs arbitrary: es m)
  case (Cons f fs)
  obtain m1 where "MemTable_Add (op_seq f) (op_type f) (op_key f) (op_value f) m = Some m1" "mt_rep (es @ [f]) m1"
    using mt_rep_Add [OF Cons.prems(1), of f] Cons.prems(2,3) by auto
  then show ?case using Cons.IH [of "es @ [f]" m1] Cons.prems by auto
qed simp

section \<open>Lookups\<close>

lemma pack_le_seek:
  assumes "s \<le> kMaxSequenceNumber" "s' \<le> kMaxSequenceNumber" "t \<le> kTypeValue"
  shows "PackSequenceAndType s' t \<le> PackSequenceAndType s kValueTypeForSeek \<longleftrightarrow> s' \<le> s"
proof -
  have "unat t \<le> 1" using assms(3) by (simp add: word_le_nat_alt)
  then show ?thesis
    using unat_pack [OF assms(1), of kValueTypeForSeek] unat_pack [OF assms(2), of t]
    by (auto simp: word_le_nat_alt)
qed

lemma pack_le_imp_seq:
  assumes "s \<le> kMaxSequenceNumber" "s' \<le> kMaxSequenceNumber" "PackSequenceAndType s' t' \<le> PackSequenceAndType s t"
  shows "s' \<le> s"
proof -
  have "unat t < 256" using unat_lt2p [of t] by simp
  then show ?thesis using assms(3) unat_pack [OF assms(1), of t] unat_pack [OF assms(2), of t'] by (simp add: word_le_nat_alt)
qed

lemma memtable_key_ok:
  "length k + 8 < 2 ^ 32 \<Longrightarrow> entry_ok (\<lambda>_. True) (memtable_key (new_LookupKey k s))"
  unfolding entry_ok_def memtable_key_eq
  by (intro exI [of _ "InternalKey k s kValueTypeForSeek"] exI [of _ "[]"]) (simp add: internal_ok_def)

lemma compare_seek:
  assumes "op_ok e" "length k + 8 < 2 ^ 32" "s \<le> kMaxSequenceNumber"
  shows "mem_compare icmp (op_entry e) (memtable_key (new_LookupKey k s)) < 0 \<longleftrightarrow>
      Compare BytewiseComparator (op_key e) k < 0 \<or> op_key e = k \<and> \<not> op_seq e \<le> s"
proof -
  have "mem_GetLengthPrefixedSlice (memtable_key (new_LookupKey k s)) = InternalKey k s kValueTypeForSeek"
    using mem_GetLengthPrefixedSlice_Put [of "InternalKey k s kValueTypeForSeek" "[]"] assms(2) by (simp add: memtable_key_eq)
  moreover have "PackSequenceAndType s kValueTypeForSeek < PackSequenceAndType (op_seq e) (op_type e) \<longleftrightarrow> \<not> op_seq e \<le> s"
    using pack_le_seek [of s "op_seq e" "op_type e"] assms(1,3) by (simp add: op_ok_def not_le [symmetric])
  ultimately show ?thesis
    using assms
    by (simp add: mem_compare_def decode_op InternalKeyComparator_def bytewise_user.internal_iffs op_ikey_def
        op_ok_def bytewise_compare_eq)
qed

lemma Get_at_entry:
  assumes "op_ok e" "sl_Seek (mt_compare m) (mt_table m) (memtable_key (new_LookupKey k s)) = Some (Some n)"
    "sl_key (mt_table m) n = op_entry e" "mt_comparator m = BytewiseComparator"
  shows "MemTable_Get m (new_LookupKey k s) v st = Some (lookup_result (if op_key e = k then Some e else None) v st)"
proof -
  have len: "length (op_ikey e) = length (op_key e) + 8" "length (op_key e) + 8 < 2 ^ 32" "length (op_value e) < 2 ^ 32"
    using assms(1) by (simp_all add: op_ikey_def op_ok_def)
  define w :: u32 where "w = of_nat (length (op_key e) + 8)"
  have w: "unat w = length (op_key e) + 8" using len by (simp add: w_def unat_of_nat_small del: of_nat_add)
  have w8: "unat (w - 8) = length (op_key e)" using w by (simp add: unat_sub word_le_nat_alt)
  have get: "GetVarint32Ptr (op_entry e) = Some (w, op_ikey e @ PutLengthPrefixedSlice [] (op_value e))"
    using GetVarint32_Encode [of w "op_ikey e @ PutLengthPrefixedSlice [] (op_value e)"] len
    by (simp add: op_entry_def mem_entry_eq op_ikey_def PutLengthPrefixedSlice_def PutVarint32_def GetVarint32_def w_def)
  have ik: "op_ikey e = op_key e @ EncodeFixed64 (PackSequenceAndType (op_seq e) (op_type e))"
    by (simp add: op_ikey_def InternalKey_eq)
  have val: "mem_GetLengthPrefixedSlice (PutLengthPrefixedSlice [] (op_value e)) = op_value e"
    using mem_GetLengthPrefixedSlice_Put [OF len(3), of "[]"] by simp
  have ty: "op_type e = kTypeValue \<or> op_type e = kTypeDeletion"
    using assms(1) by (auto simp: op_ok_def word_le_nat_alt word_unat_eq_iff)
  have ne: "kTypeDeletion \<noteq> kTypeValue" by simp
  show ?thesis
    using ty ne unfolding MemTable_Get_def assms(2-4)
    by (auto simp add: assms(3) get w w8 ik Let_def val lookup_user_key_eq bytewise_compare_eq codec_simps pack_type lookup_result_def)
qed

lemma seek_newest:
  assumes "list_all op_ok es" "distinct (map op_seq es)" "e \<in> set es" "length k + 8 < 2 ^ 32" "s \<le> kMaxSequenceNumber"
    and ge: "0 \<le> mem_compare icmp (op_entry e) (memtable_key (new_LookupKey k s))"
    and least: "\<And>f. f \<in> set es \<Longrightarrow> 0 \<le> mem_compare icmp (op_entry f) (memtable_key (new_LookupKey k s)) \<Longrightarrow>
      mem_compare icmp (op_entry e) (op_entry f) \<le> 0"
  shows "newest es k s = (if op_key e = k then Some e else None)"
proof -
  have ok: "op_ok f" if "f \<in> set es" for f using that assms(1) by (simp add: list_all_iff)
  have e: "\<not> Compare BytewiseComparator (op_key e) k < 0" "op_key e = k \<longrightarrow> op_seq e \<le> s"
    using ge compare_seek [OF ok [OF assms(3)] assms(4,5)] by auto
  have same: "op_key e = k \<and> op_seq f \<le> op_seq e" if f: "f \<in> set es" "visible k s f" for f
  proof -
    have k': "op_key f = k" "op_seq f \<le> s" using f(2) by (auto simp: visible_def)
    then have "0 \<le> mem_compare icmp (op_entry f) (memtable_key (new_LookupKey k s))"
      using compare_seek [OF ok [OF f(1)] assms(4,5)] bytewise_compare_eq [of k k] by auto
    from least [OF f(1) this] have le: "internal_Compare BytewiseComparator (op_ikey e) (op_ikey f) \<le> 0"
      using ok f(1) assms(3) by (simp add: mem_compare_ops)
    then have "Compare BytewiseComparator (op_key e) k = 0"
      using e(1) k'(1) by (auto simp: bytewise_user.internal_iffs op_ikey_def)
    then have ek: "op_key e = k" by (simp add: bytewise_compare_eq)
    with le k'(1) have "PackSequenceAndType (op_seq f) (op_type f) \<le> PackSequenceAndType (op_seq e) (op_type e)"
      using bytewise_compare_eq [of k k] by (auto simp: bytewise_user.internal_iffs op_ikey_def)
    then show ?thesis using ek pack_le_imp_seq ok [OF f(1)] ok [OF assms(3)] unfolding op_ok_def by blast
  qed
  show ?thesis
  proof (cases "newest es k s")
    case None
    then have "op_key e \<noteq> k" using newest_spec [of es k s] assms(3) e(2) by (auto simp: visible_def)
    then show ?thesis using None by simp
  next
    case (Some f)
    then have f: "f \<in> set es" "visible k s f" "visible k s e \<longrightarrow> op_seq e \<le> op_seq f"
      using newest_spec [of es k s] assms(3) by auto
    note ke = same [OF f(1,2)]
    then have "visible k s e" using e(2) by (auto simp: visible_def)
    then have "op_seq f = op_seq e" using f(3) ke by auto
    then have "f = e" using assms(2,3) f(1) by (auto simp: distinct_map inj_on_def)
    then show ?thesis using Some ke by simp
  qed
qed

lemma mt_rep_Get:
  assumes rep: "mt_rep es m" and k: "length k + 8 < 2 ^ 32" and s: "s \<le> kMaxSequenceNumber"
  shows "MemTable_Get m (new_LookupKey k s) v st = Some (lookup_result (newest es k s) v st)"
proof -
  obtain xs ht where sl: "sl_rep (mem_compare icmp) (entry_ok (\<lambda>_. True)) xs ht (mt_table m)"
    and ms: "mset (map (sl_key (mt_table m)) xs) = mset (map op_entry es)"
    and m: "mt_comparator m = BytewiseComparator" "list_all op_ok es" "distinct (map op_seq es)"
    "mt_compare m = mem_compare icmp"
    using rep by (auto simp: mt_rep_def mt_compare_def)
  let ?key = "memtable_key (new_LookupKey k s)" and ?kv = "sl_key (mt_table m)"
  have keys: "?kv ` set xs = op_entry ` set es" using mset_eq_setD [OF ms] by simp
  have node: "\<exists>x \<in> set xs. ?kv x = op_entry e" if "e \<in> set es" for e
    using imageI [OF that, of op_entry] unfolding keys [symmetric] by auto
  have ok: "op_ok e" if "e \<in> set es" for e using that m(2) by (simp add: list_all_iff)
  have seek: "sl_Seek (mt_compare m) (mt_table m) ?key = Some (bytewise_user.mem.first (bytewise_user.mem.from_key (mt_table m) ?key xs))"
    using bytewise_user.mem.sl_Seek_node [OF sl memtable_key_ok [OF k]] m(4) by simp
  note first = bytewise_user.mem.first_from_key [OF sl memtable_key_ok [OF k], of s]
  show ?thesis
  proof (cases "bytewise_user.mem.first (bytewise_user.mem.from_key (mt_table m) ?key xs)")
    case None
    have "\<not> visible k s e" if e: "e \<in> set es" for e
    proof -
      obtain x where "x \<in> set xs" "?kv x = op_entry e" using node [OF e] by blast
      then have "mem_compare icmp (op_entry e) ?key < 0" using first None by auto
      then show ?thesis
        using compare_seek [OF ok [OF e] k s] bytewise_compare_eq [of k k] by (auto simp: visible_def)
    qed
    then have "newest es k s = None" using newest_spec [of es k s] by (auto split: option.splits)
    then show ?thesis using seek None by (simp add: MemTable_Get_def lookup_result_def)
  next
    case (Some n)
    then have n: "n \<in> set xs" "0 \<le> mem_compare icmp (?kv n) ?key"
      "\<forall>x \<in> set xs. 0 \<le> mem_compare icmp (?kv x) ?key \<longrightarrow> mem_compare icmp (?kv n) (?kv x) \<le> 0" using first by auto
    then obtain e where e: "e \<in> set es" "?kv n = op_entry e"
      using imageI [of n "set xs" ?kv] unfolding keys by auto
    have least: "mem_compare icmp (op_entry e) (op_entry f) \<le> 0" if f: "f \<in> set es" "0 \<le> mem_compare icmp (op_entry f) ?key" for f
    proof -
      obtain x where "x \<in> set xs" "?kv x = op_entry f" using node [OF f(1)] by blast
      then show ?thesis using n(3) f(2) e(2) by auto
    qed
    have "newest es k s = (if op_key e = k then Some e else None)"
      using seek_newest [OF m(2,3) e(1) k s _ least] n(2) e(2) by simp
    then show ?thesis using Get_at_entry [OF ok [OF e(1)] _ e(2) m(1)] seek Some by simp
  qed
qed

section \<open>Properties\<close>

text \<open>C27. Adding any operations with pairwise different sequence numbers, in any order, to an empty memory table
  never fails, and a lookup of a user key at a snapshot then answers with the operation on that key that has the
  largest sequence number up to the snapshot: its value, or not-found when it is a deletion; when there is no such
  operation the lookup leaves its result arguments alone and reports that it found nothing.\<close>

theorem memtable_get:
  assumes "list_all op_ok es" "distinct (map op_seq es)" "length k + 8 < 2 ^ 32" "s \<le> kMaxSequenceNumber"
  shows "\<exists>m. MemTable_Adds es (new_MemTable BytewiseComparator) = Some m \<and>
    MemTable_Get m (new_LookupKey k s) v st = Some (lookup_result (newest es k s) v st)"
  using mt_rep_Adds [OF mt_rep_new assms(1)] assms(2) mt_rep_Get [OF _ assms(3,4)] by fastforce

theorem memtable_get_witness:
  "\<exists>m. MemTable_Adds [\<lparr> op_seq = 2, op_type = kTypeDeletion, op_key = [7], op_value = [] \<rparr>,
      \<lparr> op_seq = 1, op_type = kTypeValue, op_key = [7], op_value = [9] \<rparr>] (new_MemTable BytewiseComparator) = Some m \<and>
    MemTable_Get m (new_LookupKey [7] 1) [] Status_OK = Some (True, [9], Status_OK)"
  using memtable_get [of "[\<lparr> op_seq = 2, op_type = kTypeDeletion, op_key = [7], op_value = [] \<rparr>,
      \<lparr> op_seq = 1, op_type = kTypeValue, op_key = [7], op_value = [9] \<rparr>]" "[7]" 1 "[]" Status_OK]
  by (simp add: op_ok_def kMaxSequenceNumber_def visible_def lookup_result_def word_le_nat_alt del: MemTable_Adds.simps)

end
