(* ===== verification/Write_Batch.thy ===== *)
theory Write_Batch
  imports Mem_Table
begin

text \<open>
  \<^verbatim>\<open>db/write_batch.cc\<close>: a batch is its representation string, an eight-byte sequence number, a four-byte count
  and the records. A handler is a pair of functions on a state of the client's choice.
\<close>

type_synonym WriteBatch = slice

definition kHeader :: nat where "kHeader = 12"

definition WB_Clear :: WriteBatch where
  "WB_Clear = replicate kHeader 0"

definition ApproximateSize :: "WriteBatch \<Rightarrow> nat" where
  "ApproximateSize b = length b"

record 'h Handler =
  h_Put :: "slice \<Rightarrow> slice \<Rightarrow> 'h \<Rightarrow> 'h"
  h_Delete :: "slice \<Rightarrow> 'h \<Rightarrow> 'h"

definition WB_Count :: "WriteBatch \<Rightarrow> u32" where
  "WB_Count b = DecodeFixed32 (drop 8 b)"

definition SetCount :: "WriteBatch \<Rightarrow> u32 \<Rightarrow> WriteBatch" where
  "SetCount b n = take 8 b @ EncodeFixed32 n @ drop 12 b"

definition WB_Sequence :: "WriteBatch \<Rightarrow> SequenceNumber" where
  "WB_Sequence b = DecodeFixed64 b"

definition SetSequence :: "WriteBatch \<Rightarrow> SequenceNumber \<Rightarrow> WriteBatch" where
  "SetSequence b s = EncodeFixed64 s @ drop 8 b"

definition WB_Put :: "WriteBatch \<Rightarrow> slice \<Rightarrow> slice \<Rightarrow> WriteBatch" where
  "WB_Put b key value =
     PutLengthPrefixedSlice (PutLengthPrefixedSlice (SetCount b (WB_Count b + 1) @ [kTypeValue]) key) value"

definition WB_Delete :: "WriteBatch \<Rightarrow> slice \<Rightarrow> WriteBatch" where
  "WB_Delete b key = PutLengthPrefixedSlice (SetCount b (WB_Count b + 1) @ [kTypeDeletion]) key"

definition WB_SetContents :: "slice \<Rightarrow> WriteBatch" where
  "WB_SetContents contents = contents"

definition WB_Append :: "WriteBatch \<Rightarrow> WriteBatch \<Rightarrow> WriteBatch" where
  "WB_Append dst src = SetCount dst (WB_Count dst + WB_Count src) @ drop kHeader src"

text \<open>
  The loop returns the number of records it met, or the corruption it found, with the handler's state. The number is the
  32 bits of the \<^verbatim>\<open>int\<close> of the code, which overflows, undefined, only in a batch of \<open>2 ^ 31\<close> records or more.
\<close>

function Iterate_loop :: "'h Handler \<Rightarrow> slice \<Rightarrow> u32 \<Rightarrow> 'h \<Rightarrow> (Status + u32) \<times> 'h" where
  "Iterate_loop hdl [] found h = (Inr found, h)"
| "Iterate_loop hdl (tag # input) found h =
     (let found = found + 1 in
      if tag = kTypeValue then
        (case GetLengthPrefixedSlice input of
           None \<Rightarrow> (Inl (Corruption (bytes_of_string ''bad WriteBatch Put'') []), h)
         | Some (key, input1) \<Rightarrow>
             (case GetLengthPrefixedSlice input1 of
                None \<Rightarrow> (Inl (Corruption (bytes_of_string ''bad WriteBatch Put'') []), h)
              | Some (value, input2) \<Rightarrow> Iterate_loop hdl input2 found (h_Put hdl key value h)))
      else if tag = kTypeDeletion then
        (case GetLengthPrefixedSlice input of
           None \<Rightarrow> (Inl (Corruption (bytes_of_string ''bad WriteBatch Delete'') []), h)
         | Some (key, input1) \<Rightarrow> Iterate_loop hdl input1 found (h_Delete hdl key h))
      else (Inl (Corruption (bytes_of_string ''unknown WriteBatch tag'') []), h))"
  by pat_completeness auto
termination
  by (relation "measure (\<lambda>(_, input, _, _). length input)") (auto dest!: GetLengthPrefixedSlice_shorter)

definition WB_Iterate :: "'h Handler \<Rightarrow> WriteBatch \<Rightarrow> 'h \<Rightarrow> Status \<times> 'h" where
  "WB_Iterate hdl b h =
     (if length b < kHeader then (Corruption (bytes_of_string ''malformed WriteBatch (too small)'') [], h)
      else case Iterate_loop hdl (drop kHeader b) 0 h of
          (Inl s, h) \<Rightarrow> (s, h)
        | (Inr found, h) \<Rightarrow>
            if found \<noteq> WB_Count b then (Corruption (bytes_of_string ''WriteBatch has wrong count'') [], h)
            else (Status_OK, h))"

text \<open>The inserter's memory table is \<open>None\<close> if an insertion does not return.\<close>

definition MemTableInserter :: "(SequenceNumber \<times> MemTable option) Handler" where
  "MemTableInserter = \<lparr>
     h_Put = (\<lambda>key value (sequence, mem). (sequence + 1, Option.bind mem (MemTable_Add sequence kTypeValue key value))),
     h_Delete = (\<lambda>key (sequence, mem). (sequence + 1, Option.bind mem (MemTable_Add sequence kTypeDeletion key []))) \<rparr>"

definition InsertInto :: "WriteBatch \<Rightarrow> MemTable \<Rightarrow> Status \<times> MemTable option" where
  "InsertInto b memtable =
     (case WB_Iterate MemTableInserter b (WB_Sequence b, Some memtable) of (s, _, mem) \<Rightarrow> (s, mem))"

section \<open>The records of a batch\<close>

datatype batch_op = BPut slice slice | BDelete slice

fun bop_ok :: "batch_op \<Rightarrow> bool" where
  "bop_ok (BPut k v) \<longleftrightarrow> length k + 8 < 2 ^ 32 \<and> length v < 2 ^ 32"
| "bop_ok (BDelete k) \<longleftrightarrow> length k + 8 < 2 ^ 32"

fun bop_bytes :: "batch_op \<Rightarrow> slice" where
  "bop_bytes (BPut k v) = kTypeValue # PutLengthPrefixedSlice [] k @ PutLengthPrefixedSlice [] v"
| "bop_bytes (BDelete k) = kTypeDeletion # PutLengthPrefixedSlice [] k"

fun bop_apply :: "'h Handler \<Rightarrow> batch_op \<Rightarrow> 'h \<Rightarrow> 'h" where
  "bop_apply hdl (BPut k v) = h_Put hdl k v"
| "bop_apply hdl (BDelete k) = h_Delete hdl k"

text \<open>Building a batch: one call of \<open>Put\<close> or \<open>Delete\<close> per operation.\<close>

fun WB_add :: "batch_op \<Rightarrow> WriteBatch \<Rightarrow> WriteBatch" where
  "WB_add (BPut k v) b = WB_Put b k v"
| "WB_add (BDelete k) b = WB_Delete b k"

definition wb_rep :: "SequenceNumber \<Rightarrow> batch_op list \<Rightarrow> WriteBatch" where
  "wb_rep s ops = EncodeFixed64 s @ EncodeFixed32 (of_nat (length ops)) @ concat (map bop_bytes ops)"

lemma PutLengthPrefixedSlice_append: "PutLengthPrefixedSlice d v = d @ PutLengthPrefixedSlice [] v"
  by (simp add: PutLengthPrefixedSlice_def PutVarint32_def)

lemma wb_rep_Clear: "WB_Clear = wb_rep 0 []"
  by (simp add: WB_Clear_def wb_rep_def kHeader_def EncodeFixed32_def EncodeFixed64_def eval_nat_numeral)

lemma wb_rep_simps [simp]:
  "WB_Count (wb_rep s ops) = of_nat (length ops)"
  "WB_Sequence (wb_rep s ops) = s"
  "SetSequence (wb_rep s ops) s' = wb_rep s' ops"
  "SetCount (wb_rep s ops) n = EncodeFixed64 s @ EncodeFixed32 n @ concat (map bop_bytes ops)"
  "drop kHeader (wb_rep s ops) = concat (map bop_bytes ops)"
  "length (wb_rep s ops) < kHeader \<longleftrightarrow> False"
  by (simp_all add: wb_rep_def WB_Count_def WB_Sequence_def SetSequence_def SetCount_def kHeader_def codec_simps)

lemma wb_rep_add: "WB_add e (wb_rep s ops) = wb_rep s (ops @ [e])"
proof (cases e)
  case (BPut k v)
  then show ?thesis
    using PutLengthPrefixedSlice_append [of "_ @ _" k] PutLengthPrefixedSlice_append [of "_ @ _" v]
    by (simp add: WB_Put_def) (simp add: wb_rep_def add.commute)
next
  case (BDelete k)
  then show ?thesis
    using PutLengthPrefixedSlice_append [of "_ @ _" k] by (simp add: WB_Delete_def) (simp add: wb_rep_def add.commute)
qed

lemma wb_rep_fold: "fold WB_add ops (wb_rep s ops0) = wb_rep s (ops0 @ ops)"
  by (induction ops arbitrary: ops0) (simp_all add: wb_rep_add)

lemma wb_rep_Append: "WB_Append (wb_rep s xs) (wb_rep s' ys) = wb_rep s (xs @ ys)"
  by (simp add: WB_Append_def) (simp add: wb_rep_def)

lemma Iterate_loop_ops:
  "list_all bop_ok ops \<Longrightarrow>
   Iterate_loop hdl (concat (map bop_bytes ops)) found h = (Inr (found + of_nat (length ops)), fold (bop_apply hdl) ops h)"
proof (induction ops arbitrary: found h)
  case (Cons e ops)
  then show ?case by (cases e) (simp_all add: codec_simps Let_def algebra_simps)
qed simp

lemma WB_Iterate_rep:
  "list_all bop_ok ops \<Longrightarrow> WB_Iterate hdl (wb_rep s ops) h = (Status_OK, fold (bop_apply hdl) ops h)"
  by (simp add: WB_Iterate_def Iterate_loop_ops)

section \<open>Insertion into a memory table\<close>

fun bop_mem :: "SequenceNumber \<Rightarrow> batch_op \<Rightarrow> mem_op" where
  "bop_mem s (BPut k v) = \<lparr> op_seq = s, op_type = kTypeValue, op_key = k, op_value = v \<rparr>"
| "bop_mem s (BDelete k) = \<lparr> op_seq = s, op_type = kTypeDeletion, op_key = k, op_value = [] \<rparr>"

fun bops_mem :: "SequenceNumber \<Rightarrow> batch_op list \<Rightarrow> mem_op list" where
  "bops_mem s [] = []"
| "bops_mem s (e # es) = bop_mem s e # bops_mem (s + 1) es"

lemma inserter_fold:
  "snd (fold (bop_apply MemTableInserter) ops (s, m)) = Option.bind m (MemTable_Adds (bops_mem s ops))"
proof (induction ops arbitrary: s m)
  case (Cons e ops)
  then show ?case by (cases e; cases m) (auto simp: MemTableInserter_def split: option.splits)
qed (simp add: bind_eq_Some_conv split: bind_splits)

lemma InsertInto_rep:
  "list_all bop_ok ops \<Longrightarrow> InsertInto (wb_rep s ops) m = (Status_OK, MemTable_Adds (bops_mem s ops) m)"
  using inserter_fold [of ops s "Some m"] by (simp add: InsertInto_def WB_Iterate_rep case_prod_beta)

lemma op_seq_bop_mem [simp]: "op_seq (bop_mem s e) = s"
  by (cases e) simp_all

lemma op_ok_bop_mem: "bop_ok e \<Longrightarrow> s \<le> kMaxSequenceNumber \<Longrightarrow> op_ok (bop_mem s e)"
  by (cases e) (auto simp: op_ok_def)

lemma bops_mem_seqs: "map op_seq (bops_mem s ops) = map (\<lambda>i. s + of_nat i) [0..<length ops]"
proof (induction ops arbitrary: s)
  case (Cons e ops)
  then show ?case by (simp add: upt_conv_Cons map_Suc_upt [symmetric] del: upt_Suc) 
qed simp

lemma bops_mem_append: "bops_mem s (xs @ ys) = bops_mem s xs @ bops_mem (s + of_nat (length xs)) ys"
  by (induction xs arbitrary: s) (simp_all add: algebra_simps)

text \<open>The last operation of a list on a key decides.\<close>

fun bop_key :: "batch_op \<Rightarrow> slice" where
  "bop_key (BPut k v) = k"
| "bop_key (BDelete k) = k"

definition last_op :: "slice \<Rightarrow> batch_op list \<Rightarrow> batch_op option" where
  "last_op k ops = find (\<lambda>e. bop_key e = k) (rev ops)"

fun last_result :: "batch_op option \<Rightarrow> slice \<Rightarrow> Status \<Rightarrow> bool \<times> slice \<times> Status" where
  "last_result None value st = (False, value, st)"
| "last_result (Some (BPut k v)) value st = (True, v, st)"
| "last_result (Some (BDelete k)) value st = (True, value, NotFound [] [])"

lemma op_key_bop_mem [simp]: "op_key (bop_mem s e) = bop_key e"
  by (cases e) simp_all

lemma newest_snoc:
  "\<forall>f \<in> set es. op_seq f < op_seq e \<Longrightarrow> newest (es @ [e]) k s = (if visible k s e then Some e else newest es k s)"
  by (induction es) auto

lemma seq_add:
  assumes "unat s + n \<le> 2 ^ 56" "i < n"
  shows "unat (s + of_nat i) = unat s + i" "s + of_nat i \<le> kMaxSequenceNumber"
proof -
  have "unat (of_nat i :: u64) = i" using assms by (simp add: unat_of_nat_small)
  then show u: "unat (s + of_nat i) = unat s + i" using assms by (simp add: unat_add_lem [THEN iffD1])
  show "s + of_nat i \<le> kMaxSequenceNumber" using u assms by (simp add: word_le_nat_alt kMaxSequenceNumber_def)
qed

lemma op_seq_bops_mem:
  assumes "f \<in> set (bops_mem s ops)" shows "\<exists>i < length ops. op_seq f = s + of_nat i"
proof -
  have "op_seq f \<in> set (map op_seq (bops_mem s ops))" using assms by simp
  then show ?thesis unfolding bops_mem_seqs by auto
qed

lemma newest_bops:
  assumes "unat s + length ops \<le> 2 ^ 56" "unat s + n < 2 ^ 56"
  shows "lookup_result (newest (bops_mem s ops) k (s + of_nat n)) v st = last_result (last_op k (take (Suc n) ops)) v st"
  using assms(1)
proof (induction ops rule: rev_induct)
  case Nil
  then show ?case by (simp add: lookup_result_def last_op_def)
next
  case (snoc e ops)
  let ?l = "length ops"
  note len = snoc.prems [unfolded length_append]
  have "op_seq f < s + of_nat ?l" if f: "f \<in> set (bops_mem s ops)" for f
  proof -
    obtain i where "i < ?l" "op_seq f = s + of_nat i" using op_seq_bops_mem [OF f] by auto
    then show ?thesis using seq_add(1) [OF len, of i] seq_add(1) [OF len, of ?l] by (simp add: word_less_nat_alt)
  qed
  then have new: "newest (bops_mem s (ops @ [e])) k (s + of_nat n) =
      (if visible k (s + of_nat n) (bop_mem (s + of_nat ?l) e) then Some (bop_mem (s + of_nat ?l) e)
       else newest (bops_mem s ops) k (s + of_nat n))"
    by (simp add: bops_mem_append newest_snoc)
  have "s + of_nat ?l \<le> s + of_nat n \<longleftrightarrow> ?l \<le> n"
    using seq_add(1) [OF len, of ?l] seq_add(1) [of s "Suc n" n] assms(2) by (simp add: word_le_nat_alt)
  then have vis: "visible k (s + of_nat n) (bop_mem (s + of_nat ?l) e) \<longleftrightarrow> bop_key e = k \<and> ?l \<le> n"
    by (simp add: visible_def)
  show ?case
  proof (cases "bop_key e = k \<and> ?l \<le> n")
    case True
    then show ?thesis using vis new by (cases e) (simp_all add: lookup_result_def last_op_def)
  next
    case False
    then have "last_op k (take (Suc n) (ops @ [e])) = last_op k (take (Suc n) ops)"
      by (cases "?l \<le> n") (auto simp: last_op_def Suc_diff_le not_le take_Cons')
    then show ?thesis using vis new False snoc by simp
  qed
qed

lemma bops_mem_ok:
  assumes "list_all bop_ok ops" "unat s + length ops \<le> 2 ^ 56"
  shows "list_all op_ok (bops_mem s ops)" "distinct (map op_seq (bops_mem s ops))"
proof -
  show "list_all op_ok (bops_mem s ops)" using assms
  proof (induction ops rule: rev_induct)
    case (snoc e ops)
    then show ?case using seq_add(2) [of s "Suc (length ops)" "length ops"] by (simp add: bops_mem_append op_ok_bop_mem)
  qed simp
  show "distinct (map op_seq (bops_mem s ops))"
    unfolding bops_mem_seqs distinct_map
  proof (intro conjI inj_onI distinct_upt)
    fix i j assume ij: "i \<in> set [0..<length ops]" "j \<in> set [0..<length ops]" and eq: "s + of_nat i = s + of_nat j"
    have "i < length ops" "j < length ops" using ij by auto
    from arg_cong [OF eq, of unat] this show "i = j" by (simp only: seq_add(1) [OF assms(2)] add_left_cancel)
  qed
qed

section \<open>Properties\<close>

text \<open>C29. A batch built by any calls of \<open>Put\<close> and \<open>Delete\<close> counts them, and iterating over it with any handler calls
  the handler once per operation, with the keys and values put in, in order, and succeeds; appending one batch to
  another gives the batch of all their operations.\<close>

theorem batch_roundtrip:
  assumes "list_all bop_ok (xs @ ys)"
  shows "WB_Iterate hdl (fold WB_add xs WB_Clear) h = (Status_OK, fold (bop_apply hdl) xs h) \<and>
    WB_Count (fold WB_add xs WB_Clear) = of_nat (length xs) \<and>
    WB_Append (fold WB_add xs WB_Clear) (fold WB_add ys WB_Clear) = fold WB_add (xs @ ys) WB_Clear"
  using assms by (simp only: wb_rep_Clear wb_rep_fold wb_rep_Append append_Nil wb_rep_simps list_all_append WB_Iterate_rep fold_append o_apply simp_thms)

theorem batch_roundtrip_witness:
  "WB_Iterate \<lparr> h_Put = (\<lambda>k v h. h @ [(k, Some v)]), h_Delete = (\<lambda>k h. h @ [(k, None)]) \<rparr>
     (WB_Put WB_Clear [1] [2]) [] = (Status_OK, [([1], Some [2])])"
  using batch_roundtrip [of "[BPut [1] [2]]" "[]"
    "\<lparr> h_Put = (\<lambda>k v h. h @ [(k, Some v)]), h_Delete = (\<lambda>k h. h @ [(k, None)]) \<rparr>" "[]"] by simp

text \<open>C28. Inserting a batch with start sequence \<open>s\<close> into an empty memory table succeeds, and a lookup at the snapshot
  of the operation with index \<open>n\<close> answers with the last operation on that key among the first \<open>n + 1\<close> of the batch:
  later operations win over earlier ones and operations after the snapshot are invisible.\<close>

theorem batch_insert_get:
  assumes "list_all bop_ok ops" "unat s + length ops \<le> 2 ^ 56" "unat s + n < 2 ^ 56" "length k + 8 < 2 ^ 32"
  shows "\<exists>m. InsertInto (SetSequence (fold WB_add ops WB_Clear) s) (new_MemTable BytewiseComparator) = (Status_OK, Some m) \<and>
    MemTable_Get m (new_LookupKey k (s + of_nat n)) v st = Some (last_result (last_op k (take (Suc n) ops)) v st)"
proof -
  obtain m where m: "MemTable_Adds (bops_mem s ops) (new_MemTable BytewiseComparator) = Some m" "mt_rep (bops_mem s ops) m"
    using mt_rep_Adds [OF mt_rep_new bops_mem_ok(1) [OF assms(1,2)]] bops_mem_ok(2) [OF assms(1,2)] by auto
  have "s + of_nat n \<le> kMaxSequenceNumber" using seq_add(2) [of s "Suc n" n] assms(3) by simp
  from mt_rep_Get [OF m(2) assms(4) this] newest_bops [OF assms(2,3)]
  have "MemTable_Get m (new_LookupKey k (s + of_nat n)) v st = Some (last_result (last_op k (take (Suc n) ops)) v st)" by simp
  then show ?thesis using m(1) assms(1) by (simp add: wb_rep_Clear wb_rep_fold InsertInto_rep)
qed

theorem batch_insert_get_witness:
  "\<exists>m. InsertInto (SetSequence (WB_Delete (WB_Put WB_Clear [1] [2]) [1]) 5) (new_MemTable BytewiseComparator) = (Status_OK, Some m) \<and>
    MemTable_Get m (new_LookupKey [1] 6) [] Status_OK = Some (True, [], NotFound [] [])"
  using batch_insert_get [of "[BPut [1] [2], BDelete [1]]" 5 1 "[1]" "[]" Status_OK] by (simp add: last_op_def)

end
