(* ===== verification/LDB_Iterator.thy ===== *)
theory LDB_Iterator
  imports Comparator LDB_Status
begin

text \<open>
  The iterator interface of \<^verbatim>\<open>include/leveldb/iterator.h\<close> as a record of operations on a state, the empty iterator and
  the cleanup list of \<^verbatim>\<open>table/iterator.cc\<close>, and the caching wrapper of \<^verbatim>\<open>table/iterator_wrapper.h\<close>. An operation is
  \<open>None\<close> when the code would read outside its data or not return. The locale \<open>list_iterator\<close> is the contract in the
  comments of the header: an iterator stands for a sorted list and a position in it.
\<close>

record 'i Iterator =
  it_Valid :: "'i \<Rightarrow> bool"
  it_SeekToFirst :: "'i \<Rightarrow> 'i option"
  it_SeekToLast :: "'i \<Rightarrow> 'i option"
  it_Seek :: "slice \<Rightarrow> 'i \<Rightarrow> 'i option"
  it_Next :: "'i \<Rightarrow> 'i option"
  it_Prev :: "'i \<Rightarrow> 'i option"
  it_key :: "'i \<Rightarrow> slice"
  it_value :: "'i \<Rightarrow> slice"
  it_status :: "'i \<Rightarrow> Status"

text \<open>The empty iterator's state is its status; \<open>Next\<close> and \<open>Prev\<close> fail their assertion.\<close>

definition EmptyIterator :: "Status Iterator" where
  "EmptyIterator = \<lparr> it_Valid = (\<lambda>_. False), it_SeekToFirst = Some, it_SeekToLast = Some, it_Seek = (\<lambda>_. Some),
     it_Next = (\<lambda>_. None), it_Prev = (\<lambda>_. None), it_key = (\<lambda>_. []), it_value = (\<lambda>_. []), it_status = (\<lambda>s. s) \<rparr>"

definition NewEmptyIterator :: Status where
  "NewEmptyIterator = Status_OK"

definition NewErrorIterator :: "Status \<Rightarrow> Status" where
  "NewErrorIterator s = s"

text \<open>The cleanup functions in the order they run: the head of the list is inlined, later ones go right behind it.\<close>

fun RegisterCleanup :: "'f \<Rightarrow> 'f list \<Rightarrow> 'f list" where
  "RegisterCleanup f [] = [f]"
| "RegisterCleanup f (h # rest) = h # f # rest"

definition destroy_Iterator :: "('s \<Rightarrow> 's) list \<Rightarrow> 's \<Rightarrow> 's" where
  "destroy_Iterator cleanups s = fold (\<lambda>f. f) cleanups s"

section \<open>The wrapper\<close>

record 'i IteratorWrapper =
  iw_iter :: "'i option"
  iw_valid :: bool
  iw_key :: slice

definition iw_Update :: "'i Iterator \<Rightarrow> 'i \<Rightarrow> 'i IteratorWrapper \<Rightarrow> 'i IteratorWrapper" where
  "iw_Update I it w =
     w\<lparr> iw_iter := Some it, iw_valid := it_Valid I it, iw_key := (if it_Valid I it then it_key I it else iw_key w) \<rparr>"

definition new_IteratorWrapper :: "'i IteratorWrapper" where
  "new_IteratorWrapper = \<lparr> iw_iter = None, iw_valid = False, iw_key = [] \<rparr>"

definition iw_Set :: "'i Iterator \<Rightarrow> 'i option \<Rightarrow> 'i IteratorWrapper \<Rightarrow> 'i IteratorWrapper" where
  "iw_Set I iter w = (case iter of None \<Rightarrow> w\<lparr> iw_iter := None, iw_valid := False \<rparr> | Some it \<Rightarrow> iw_Update I it w)"

definition iw_value :: "'i Iterator \<Rightarrow> 'i IteratorWrapper \<Rightarrow> slice" where
  "iw_value I w = it_value I (the (iw_iter w))"

definition iw_status :: "'i Iterator \<Rightarrow> 'i IteratorWrapper \<Rightarrow> Status" where
  "iw_status I w = it_status I (the (iw_iter w))"

text \<open>An operation of the wrapped iterator followed by the update of the cached values.\<close>

definition iw_do :: "'i Iterator \<Rightarrow> ('i \<Rightarrow> 'i option) \<Rightarrow> 'i IteratorWrapper \<Rightarrow> 'i IteratorWrapper option" where
  "iw_do I f w = (case iw_iter w of None \<Rightarrow> None
     | Some it \<Rightarrow> map_option (\<lambda>it. iw_Update I it w) (f it))"

definition iw_Next :: "'i Iterator \<Rightarrow> 'i IteratorWrapper \<Rightarrow> 'i IteratorWrapper option" where
  "iw_Next I = iw_do I (it_Next I)"

definition iw_Prev :: "'i Iterator \<Rightarrow> 'i IteratorWrapper \<Rightarrow> 'i IteratorWrapper option" where
  "iw_Prev I = iw_do I (it_Prev I)"

definition iw_Seek :: "'i Iterator \<Rightarrow> slice \<Rightarrow> 'i IteratorWrapper \<Rightarrow> 'i IteratorWrapper option" where
  "iw_Seek I k = iw_do I (it_Seek I k)"

definition iw_SeekToFirst :: "'i Iterator \<Rightarrow> 'i IteratorWrapper \<Rightarrow> 'i IteratorWrapper option" where
  "iw_SeekToFirst I = iw_do I (it_SeekToFirst I)"

definition iw_SeekToLast :: "'i Iterator \<Rightarrow> 'i IteratorWrapper \<Rightarrow> 'i IteratorWrapper option" where
  "iw_SeekToLast I = iw_do I (it_SeekToLast I)"

section \<open>Positions in a sorted list\<close>

type_synonym kv = "slice \<times> slice"

definition at_pos :: "'a list \<Rightarrow> nat \<Rightarrow> nat option" where
  "at_pos xs n = (if n < length xs then Some n else None)"

definition last_pos :: "'a list \<Rightarrow> nat option" where
  "last_pos xs = (if xs = [] then None else Some (length xs - 1))"

definition prev_pos :: "nat \<Rightarrow> nat option" where
  "prev_pos i = (if i = 0 then None else Some (i - 1))"

definition lower :: "(slice \<Rightarrow> slice \<Rightarrow> int) \<Rightarrow> slice \<Rightarrow> kv list \<Rightarrow> nat" where
  "lower cmp k xs = length (takeWhile (\<lambda>e. cmp (fst e) k < 0) xs)"

definition kv_sorted :: "(slice \<Rightarrow> slice \<Rightarrow> int) \<Rightarrow> (slice \<Rightarrow> bool) \<Rightarrow> kv list \<Rightarrow> bool" where
  "kv_sorted cmp ok xs \<longleftrightarrow> sorted_wrt (\<lambda>a b. cmp (fst a) (fst b) < 0) xs \<and> (\<forall>e \<in> set xs. ok (fst e))"

lemma lower_le: "lower cmp k xs \<le> length xs"
  by (simp add: lower_def length_takeWhile_le)

lemma lower_less: "i < lower cmp k xs \<Longrightarrow> cmp (fst (xs ! i)) k < 0"
  unfolding lower_def by (metis nth_mem set_takeWhileD takeWhile_nth)

lemma lower_not_less: "lower cmp k xs < length xs \<Longrightarrow> \<not> cmp (fst (xs ! lower cmp k xs)) k < 0"
  unfolding lower_def by (rule nth_length_takeWhile)

lemma lower_eqI:
  assumes "n \<le> length xs" "\<And>i. i < n \<Longrightarrow> cmp (fst (xs ! i)) k < 0" "n < length xs \<Longrightarrow> \<not> cmp (fst (xs ! n)) k < 0"
  shows "lower cmp k xs = n"
proof (rule linorder_cases [of "lower cmp k xs" n])
  assume less: "lower cmp k xs < n"
  then have "\<not> cmp (fst (xs ! lower cmp k xs)) k < 0" using lower_not_less assms(1) by (meson less_le_trans)
  then show ?thesis using assms(2) [OF less] by simp
next
  assume less: "n < lower cmp k xs"
  then have "n < length xs" using lower_le by (meson less_le_trans)
  then show ?thesis using assms(3) lower_less [OF less] by simp
qed

lemma kv_sorted_nth:
  "kv_sorted cmp ok xs \<Longrightarrow> i < j \<Longrightarrow> j < length xs \<Longrightarrow> cmp (fst (xs ! i)) (fst (xs ! j)) < 0"
  "kv_sorted cmp ok xs \<Longrightarrow> i < length xs \<Longrightarrow> ok (fst (xs ! i))"
  by (auto simp: kv_sorted_def sorted_wrt_iff_nth_less)

section \<open>The contract\<close>

locale list_iterator = key_order cmp ok
  for cmp :: "slice \<Rightarrow> slice \<Rightarrow> int" and ok :: "slice \<Rightarrow> bool" +
  fixes I :: "'i Iterator" and at :: "'i \<Rightarrow> kv list \<Rightarrow> nat option \<Rightarrow> bool"
  assumes at_sorted: "at it xs p \<Longrightarrow> kv_sorted cmp ok xs"
    and at_valid: "at it xs p \<Longrightarrow> it_Valid I it \<longleftrightarrow> p \<noteq> None"
    and at_bound: "at it xs (Some i) \<Longrightarrow> i < length xs"
    and at_key: "at it xs (Some i) \<Longrightarrow> it_key I it = fst (xs ! i)"
    and at_value: "at it xs (Some i) \<Longrightarrow> it_value I it = snd (xs ! i)"
    and at_status: "at it xs p \<Longrightarrow> it_status I it = Status_OK"
    and at_SeekToFirst: "at it xs p \<Longrightarrow> \<exists>it'. it_SeekToFirst I it = Some it' \<and> at it' xs (at_pos xs 0)"
    and at_SeekToLast: "at it xs p \<Longrightarrow> \<exists>it'. it_SeekToLast I it = Some it' \<and> at it' xs (last_pos xs)"
    and at_Seek: "at it xs p \<Longrightarrow> ok k \<Longrightarrow> \<exists>it'. it_Seek I k it = Some it' \<and> at it' xs (at_pos xs (lower cmp k xs))"
    and at_Next: "at it xs (Some i) \<Longrightarrow> \<exists>it'. it_Next I it = Some it' \<and> at it' xs (at_pos xs (Suc i))"
    and at_Prev: "at it xs (Some i) \<Longrightarrow> \<exists>it'. it_Prev I it = Some it' \<and> at it' xs (prev_pos i)"
begin

text \<open>The wrapper keeps the contract, with its cached values.\<close>

definition wrap_at :: "'i IteratorWrapper \<Rightarrow> kv list \<Rightarrow> nat option \<Rightarrow> bool" where
  "wrap_at w xs p \<longleftrightarrow> (\<exists>it. iw_iter w = Some it \<and> at it xs p) \<and> (iw_valid w \<longleftrightarrow> p \<noteq> None) \<and>
     (\<forall>i. p = Some i \<longrightarrow> iw_key w = fst (xs ! i))"

lemma wrap_Set: "at it xs p \<Longrightarrow> wrap_at (iw_Set I (Some it) w) xs p"
  by (auto simp: wrap_at_def iw_Set_def iw_Update_def at_valid at_key)

lemma wrap_do:
  assumes "wrap_at w xs p" and "\<And>it. at it xs p \<Longrightarrow> \<exists>it'. f it = Some it' \<and> at it' xs q"
  shows "\<exists>w'. iw_do I f w = Some w' \<and> wrap_at w' xs q"
proof -
  obtain it where it: "iw_iter w = Some it" "at it xs p" using assms(1) by (auto simp: wrap_at_def)
  moreover obtain it' where "f it = Some it'" "at it' xs q" using assms(2) [OF it(2)] by blast
  ultimately show ?thesis by (auto simp: iw_do_def wrap_at_def iw_Update_def at_valid at_key)
qed

lemma wrap_SeekToFirst: "wrap_at w xs p \<Longrightarrow> \<exists>w'. iw_SeekToFirst I w = Some w' \<and> wrap_at w' xs (at_pos xs 0)"
  unfolding iw_SeekToFirst_def by (rule wrap_do) (auto intro: at_SeekToFirst)

lemma wrap_SeekToLast: "wrap_at w xs p \<Longrightarrow> \<exists>w'. iw_SeekToLast I w = Some w' \<and> wrap_at w' xs (last_pos xs)"
  unfolding iw_SeekToLast_def by (rule wrap_do) (auto intro: at_SeekToLast)

lemma wrap_Seek: "wrap_at w xs p \<Longrightarrow> ok k \<Longrightarrow> \<exists>w'. iw_Seek I k w = Some w' \<and> wrap_at w' xs (at_pos xs (lower cmp k xs))"
  unfolding iw_Seek_def by (rule wrap_do) (auto intro: at_Seek)

lemma wrap_Next: "wrap_at w xs (Some i) \<Longrightarrow> \<exists>w'. iw_Next I w = Some w' \<and> wrap_at w' xs (at_pos xs (Suc i))"
  unfolding iw_Next_def by (rule wrap_do) (auto intro: at_Next)

lemma wrap_Prev: "wrap_at w xs (Some i) \<Longrightarrow> \<exists>w'. iw_Prev I w = Some w' \<and> wrap_at w' xs (prev_pos i)"
  unfolding iw_Prev_def by (rule wrap_do) (auto intro: at_Prev)

lemma wrap_facts:
  "wrap_at w xs p \<Longrightarrow> iw_valid w \<longleftrightarrow> p \<noteq> None"
  "wrap_at w xs (Some i) \<Longrightarrow> iw_key w = fst (xs ! i)"
  "wrap_at w xs (Some i) \<Longrightarrow> iw_value I w = snd (xs ! i)"
  "wrap_at w xs (Some i) \<Longrightarrow> i < length xs"
  "wrap_at w xs p \<Longrightarrow> iw_status I w = Status_OK"
  "wrap_at w xs p \<Longrightarrow> kv_sorted cmp ok xs"
  "wrap_at w xs p \<Longrightarrow> iw_iter w \<noteq> None"
  by (auto simp: wrap_at_def iw_value_def iw_status_def at_value at_status dest: at_sorted at_bound)

end

interpretation empty_iterator: list_iterator "Compare BytewiseComparator" "\<lambda>_. True" EmptyIterator
    "\<lambda>s xs p. s = Status_OK \<and> xs = [] \<and> p = None"
  by unfold_locales (auto simp: EmptyIterator_def kv_sorted_def at_pos_def last_pos_def intro: bytewise.ord.ko_refl
      bytewise.ord.ko_antisym bytewise.ord.ko_trans)

end
