(* ===== verification/Block_Format.thy ===== *)
theory Block_Format
  imports LDB_Iterator
begin

text \<open>
  \<^verbatim>\<open>table/block_builder.cc\<close> and the entry decoder of \<^verbatim>\<open>table/block.cc\<close>. The builder's state is its members; the only
  option it reads is \<^verbatim>\<open>block_restart_interval\<close>. A block is described by its cells, one per entry with the number of key
  bytes shared with the entry before, and by the cells at which a restart begins.
\<close>

unbundle bit_operations_syntax

record BlockBuilder =
  bb_buffer :: slice
  bb_restarts :: "u32 list"
  bb_counter :: nat
  bb_finished :: bool
  bb_last_key :: slice

definition new_BlockBuilder :: BlockBuilder where
  "new_BlockBuilder = \<lparr> bb_buffer = [], bb_restarts = [0], bb_counter = 0, bb_finished = False, bb_last_key = [] \<rparr>"

definition BB_Reset :: "BlockBuilder \<Rightarrow> BlockBuilder" where
  "BB_Reset b = b\<lparr> bb_buffer := [], bb_restarts := [0], bb_counter := 0, bb_finished := False, bb_last_key := [] \<rparr>"

definition CurrentSizeEstimate :: "BlockBuilder \<Rightarrow> nat" where
  "CurrentSizeEstimate b = length (bb_buffer b) + length (bb_restarts b) * 4 + 4"

definition BB_empty :: "BlockBuilder \<Rightarrow> bool" where
  "BB_empty b = (bb_buffer b = [])"

definition BB_Finish :: "BlockBuilder \<Rightarrow> slice \<times> BlockBuilder" where
  "BB_Finish b =
     (let buffer = PutFixed32 (foldl PutFixed32 (bb_buffer b) (bb_restarts b)) (of_nat (length (bb_restarts b)))
      in (buffer, b\<lparr> bb_buffer := buffer, bb_finished := True \<rparr>))"

definition BB_Add :: "nat \<Rightarrow> slice \<Rightarrow> slice \<Rightarrow> BlockBuilder \<Rightarrow> BlockBuilder" where
  "BB_Add block_restart_interval key value b =
     (let (shared, b) =
        (if bb_counter b < block_restart_interval then (shared_prefix (bb_last_key b) key, b)
         else (0, b\<lparr> bb_restarts := bb_restarts b @ [of_nat (length (bb_buffer b))], bb_counter := 0 \<rparr>));
        non_shared = length key - shared;
        buffer = PutVarint32 (bb_buffer b) (of_nat shared);
        buffer = PutVarint32 buffer (of_nat non_shared);
        buffer = PutVarint32 buffer (of_nat (length value));
        buffer = buffer @ take non_shared (drop shared key);
        buffer = buffer @ value
      in b\<lparr> bb_buffer := buffer, bb_counter := bb_counter b + 1,
            bb_last_key := take shared (bb_last_key b) @ take non_shared (drop shared key) \<rparr>)"

text \<open>
  \<open>DecodeEntry\<close> gets the bytes from its pointer up to the limit. It returns the three lengths and the bytes after them.
\<close>

definition DecodeEntry :: "slice \<Rightarrow> (u32 \<times> u32 \<times> u32 \<times> slice) option" where
  "DecodeEntry p =
     (if length p < 3 then None
      else
        let shared = ucast (p ! 0) :: u32; non_shared = ucast (p ! 1) :: u32; value_length = ucast (p ! 2) :: u32 in
        case (if shared OR non_shared OR value_length < 128 then Some (shared, non_shared, value_length, drop 3 p)
              else case GetVarint32Ptr p of None \<Rightarrow> None | Some (shared, p) \<Rightarrow>
                   (case GetVarint32Ptr p of None \<Rightarrow> None | Some (non_shared, p) \<Rightarrow>
                    (case GetVarint32Ptr p of None \<Rightarrow> None | Some (value_length, p) \<Rightarrow>
                       Some (shared, non_shared, value_length, p)))) of
          None \<Rightarrow> None
        | Some (shared, non_shared, value_length, p) \<Rightarrow>
            if (of_nat (length p) :: u32) < non_shared + value_length then None
            else Some (shared, non_shared, value_length, p))"

section \<open>Cells\<close>

record cell =
  c_shared :: nat
  c_key :: slice
  c_value :: slice

definition cell_header :: "cell \<Rightarrow> slice" where
  "cell_header c = EncodeVarint32 (of_nat (c_shared c)) @ EncodeVarint32 (of_nat (length (c_key c) - c_shared c)) @
     EncodeVarint32 (of_nat (length (c_value c)))"

definition cell_bytes :: "cell \<Rightarrow> slice" where
  "cell_bytes c = cell_header c @ drop (c_shared c) (c_key c) @ c_value c"

definition cells_bytes :: "cell list \<Rightarrow> slice" where
  "cells_bytes cs = concat (map cell_bytes cs)"

definition cell_off :: "cell list \<Rightarrow> nat \<Rightarrow> nat" where
  "cell_off cs i = length (cells_bytes (take i cs))"

text \<open>The cell before a cell gives its shared bytes.\<close>

definition shares :: "slice \<Rightarrow> cell \<Rightarrow> bool" where
  "shares k c \<longleftrightarrow> c_shared c \<le> length k \<and> c_shared c \<le> length (c_key c) \<and> take (c_shared c) k = take (c_shared c) (c_key c)"

fun cells_ok :: "slice \<Rightarrow> cell list \<Rightarrow> bool" where
  "cells_ok k [] \<longleftrightarrow> True"
| "cells_ok k (c # cs) \<longleftrightarrow> shares k c \<and> cells_ok (c_key c) cs"

definition cell_kv :: "cell \<Rightarrow> kv" where
  "cell_kv c = (c_key c, c_value c)"

definition restarts_ok :: "cell list \<Rightarrow> nat list \<Rightarrow> bool" where
  "restarts_ok cs rs \<longleftrightarrow> rs \<noteq> [] \<and> rs ! 0 = 0 \<and> sorted_wrt (<) rs \<and>
     (\<forall>r \<in> set rs. r = 0 \<or> r < length cs) \<and> (\<forall>r \<in> set rs. r < length cs \<longrightarrow> c_shared (cs ! r) = 0)"

definition restart_array :: "cell list \<Rightarrow> nat list \<Rightarrow> slice" where
  "restart_array cs rs = concat (map (\<lambda>r. EncodeFixed32 (of_nat (cell_off cs r))) rs) @ EncodeFixed32 (of_nat (length rs))"

definition block_bytes :: "cell list \<Rightarrow> nat list \<Rightarrow> slice" where
  "block_bytes cs rs = cells_bytes cs @ restart_array cs rs"

definition last_cell_key :: "cell list \<Rightarrow> slice" where
  "last_cell_key cs = (if cs = [] then [] else c_key (last cs))"

section \<open>What the builder builds\<close>

definition bb_rep :: "cell list \<Rightarrow> nat list \<Rightarrow> BlockBuilder \<Rightarrow> bool" where
  "bb_rep cs rs b \<longleftrightarrow> bb_buffer b = cells_bytes cs \<and> bb_restarts b = map (\<lambda>r. of_nat (cell_off cs r)) rs \<and>
     bb_last_key b = last_cell_key cs \<and> cells_ok [] cs \<and> restarts_ok cs rs \<and> (cs = [] \<longrightarrow> bb_counter b = 0)"

lemma shared_prefix_shares:
  "shared_prefix k key \<le> length k" "shared_prefix k key \<le> length key"
  "take (shared_prefix k key) k = take (shared_prefix k key) key"
  using shared_prefix_le [of k key] shared_prefix_take [of k key] by simp_all

lemma cells_bytes_append [simp]: "cells_bytes (cs @ ds) = cells_bytes cs @ cells_bytes ds"
  by (simp add: cells_bytes_def)

lemma cells_ok_snoc: "cells_ok k (cs @ [c]) \<longleftrightarrow> cells_ok k cs \<and> shares (if cs = [] then k else c_key (last cs)) c"
  by (induction cs arbitrary: k) auto

lemma cell_off_append: "i \<le> length cs \<Longrightarrow> cell_off (cs @ ds) i = cell_off cs i"
  by (simp add: cell_off_def)

lemma restarts_ok_bound: "restarts_ok cs rs \<Longrightarrow> r \<in> set rs \<Longrightarrow> r \<le> length cs"
  by (auto simp: restarts_ok_def)

lemma restarts_ok_snoc:
  assumes "restarts_ok cs rs" "cs = [] \<longrightarrow> c_shared c = 0"
  shows "restarts_ok (cs @ [c]) rs"
  using assms unfolding restarts_ok_def
  by (auto simp: nth_append less_Suc_eq) 

lemma restarts_ok_new:
  assumes "restarts_ok cs rs" "cs \<noteq> []" "c_shared c = 0"
  shows "restarts_ok (cs @ [c]) (rs @ [length cs])"
  using assms unfolding restarts_ok_def by (auto simp: nth_append sorted_wrt_append)

lemma bb_rep_new: "bb_rep [] [0] new_BlockBuilder"
  by (simp add: bb_rep_def new_BlockBuilder_def cells_bytes_def cell_off_def last_cell_key_def restarts_ok_def)

lemma bb_rep_Reset: "bb_rep [] [0] (BB_Reset b)"
  by (simp add: bb_rep_def BB_Reset_def cells_bytes_def cell_off_def last_cell_key_def restarts_ok_def)

lemma bb_rep_Add:
  assumes rep: "bb_rep cs rs b" and ri: "1 \<le> ri"
  shows "\<exists>c rs'. bb_rep (cs @ [c]) rs' (BB_Add ri key value b) \<and> cell_kv c = (key, value)"
proof -
  have b: "bb_buffer b = cells_bytes cs" "bb_restarts b = map (\<lambda>r. of_nat (cell_off cs r)) rs"
    "bb_last_key b = last_cell_key cs" "cells_ok [] cs" "restarts_ok cs rs" "cs = [] \<longrightarrow> bb_counter b = 0"
    using rep by (auto simp: bb_rep_def)
  have off: "map (\<lambda>r. of_nat (cell_off (cs @ [c]) r) :: u32) rs = map (\<lambda>r. of_nat (cell_off cs r)) rs" for c
    using restarts_ok_bound [OF b(5)] by (simp add: cell_off_append)
  show ?thesis
  proof (cases "bb_counter b < ri")
    case True
    define c where "c = \<lparr> c_shared = shared_prefix (bb_last_key b) key, c_key = key, c_value = value \<rparr>"
    have c: "shares (bb_last_key b) c" by (simp add: c_def shares_def shared_prefix_shares)
    have key: "take (c_shared c) (bb_last_key b) @ drop (c_shared c) key = key" by (simp add: c_def shared_prefix_shares)
    have "bb_rep (cs @ [c]) rs (BB_Add ri key value b)"
      using True b c key restarts_ok_snoc [OF b(5), of c] off [of c]
      by (auto simp: bb_rep_def BB_Add_def Let_def cells_ok_snoc last_cell_key_def c_def cells_bytes_def cell_bytes_def
          cell_header_def PutVarint32_def split: if_splits)
    then show ?thesis by (auto simp: c_def cell_kv_def)
  next
    case False
    define c where "c = \<lparr> c_shared = 0, c_key = key, c_value = value \<rparr>"
    have ne: "cs \<noteq> []" using False b(6) ri by auto
    have "bb_rep (cs @ [c]) (rs @ [length cs]) (BB_Add ri key value b)"
      using False b restarts_ok_new [OF b(5) ne, of c] off [of c]
      by (auto simp: bb_rep_def BB_Add_def Let_def cells_ok_snoc last_cell_key_def c_def cells_bytes_def cell_bytes_def
          cell_header_def PutVarint32_def cell_off_def shares_def split: if_splits)
    then show ?thesis by (auto simp: c_def cell_kv_def)
  qed
qed

lemma foldl_PutFixed32: "foldl PutFixed32 d xs = d @ concat (map EncodeFixed32 xs)"
  by (induction xs arbitrary: d) (simp_all add: PutFixed32_def)

lemma bb_rep_Finish: "bb_rep cs rs b \<Longrightarrow> fst (BB_Finish b) = block_bytes cs rs"
  by (simp add: bb_rep_def BB_Finish_def Let_def foldl_PutFixed32 PutFixed32_def block_bytes_def restart_array_def comp_def)

text \<open>The builder run on a list of entries.\<close>

definition build_block :: "nat \<Rightarrow> kv list \<Rightarrow> BlockBuilder \<Rightarrow> BlockBuilder" where
  "build_block ri xs b = foldl (\<lambda>b (k, v). BB_Add ri k v b) b xs"

lemma bb_rep_build:
  assumes "bb_rep cs rs b" "1 \<le> ri"
  shows "\<exists>cs' rs'. bb_rep cs' rs' (build_block ri xs b) \<and> map cell_kv cs' = map cell_kv cs @ xs"
  using assms(1)
proof (induction xs arbitrary: cs rs b)
  case (Cons x xs)
  obtain k v where x: "x = (k, v)" by (cases x)
  obtain c rs' where "bb_rep (cs @ [c]) rs' (BB_Add ri k v b)" "cell_kv c = (k, v)"
    using bb_rep_Add [OF Cons.prems assms(2)] by blast
  then show ?case using Cons.IH [of "cs @ [c]" rs' "BB_Add ri k v b"] by (simp add: build_block_def x)
qed (auto simp: build_block_def)

section \<open>Decoding an entry\<close>

lemma GetVarint32Ptr_Encode: "GetVarint32Ptr (EncodeVarint32 v @ rest) = Some (v, rest)"
  using GetVarint32_Encode [of v rest] by (simp add: GetVarint32_def)

lemma less_128_bits: "w < 128 \<longleftrightarrow> (\<forall>i \<ge> 7. \<not> bit w i)" for w :: u32
proof -
  have "w < 128 \<longleftrightarrow> take_bit 7 w = w"
    by (simp add: word_less_nat_alt word_unat_eq_iff unsigned_take_bit_eq take_bit_nat_eq_self_iff)
  also have "\<dots> \<longleftrightarrow> (\<forall>i \<ge> 7. \<not> bit w i)"
  proof
    assume eq: "take_bit 7 w = w"
    have "bit w i \<longleftrightarrow> i < 7 \<and> bit w i" for i using arg_cong [OF eq, of "\<lambda>w. bit w i"] by (simp only: bit_take_bit_iff)
    then show "\<forall>i \<ge> 7. \<not> bit w i" using not_le by blast
  qed (auto intro!: bit_word_eqI simp: bit_take_bit_iff not_le [symmetric])
  finally show ?thesis .
qed

lemma or_less_128: "(a OR b :: u32) < 128 \<longleftrightarrow> a < 128 \<and> b < 128"
  unfolding less_128_bits bit_or_iff by blast

lemma GetVarint32Ptr_one: "(ucast b :: u32) < 128 \<Longrightarrow> GetVarint32Ptr (b # q) = Some (ucast b, q)"
  by (simp add: less_128_bits GetVarint32Ptr_def and_128_bit)

text \<open>The fast path gives what the three varint reads give.\<close>

lemma DecodeEntry_slow:
  assumes "3 \<le> length p" "GetVarint32Ptr p = Some (s, p1)" "GetVarint32Ptr p1 = Some (n, p2)" "GetVarint32Ptr p2 = Some (v, p3)"
  shows "DecodeEntry p = (if (of_nat (length p3) :: u32) < n + v then None else Some (s, n, v, p3))"
proof -
  obtain a b c q where p: "p = a # b # c # q"
    using assms(1) by (cases p; cases "tl p"; cases "tl (tl p)") auto
  show ?thesis
  proof (cases "(ucast a OR ucast b OR ucast c :: u32) < 128")
    case True
    then have "s = ucast a" "n = ucast b" "v = ucast c" "p3 = q"
      using assms(2-4) by (auto simp: p or_less_128 GetVarint32Ptr_one)
    then show ?thesis using True by (simp add: DecodeEntry_def p)
  next
    case False
    then show ?thesis using assms by (simp add: DecodeEntry_def p)
  qed
qed

lemma EncodeVarint32_nonempty: "1 \<le> length (EncodeVarint32 v)"
  by (simp add: EncodeVarint32_varint varint_nat_not_Nil Suc_le_eq)

lemma DecodeEntry_cell:
  assumes "c_shared c \<le> length (c_key c)" "length (cell_bytes c @ rest) < 2 ^ 32" "length (c_key c) < 2 ^ 32"
  shows "DecodeEntry (cell_bytes c @ rest) =
    Some (of_nat (c_shared c), of_nat (length (c_key c) - c_shared c), of_nat (length (c_value c)),
      drop (c_shared c) (c_key c) @ c_value c @ rest)"
proof -
  define n v where "n = length (c_key c) - c_shared c" and "v = length (c_value c)"
  define p3 where "p3 = drop (c_shared c) (c_key c) @ c_value c @ rest"
  have len: "length p3 = n + v + length rest" by (simp add: p3_def n_def v_def)
  have b: "cell_bytes c @ rest = EncodeVarint32 (of_nat (c_shared c)) @ EncodeVarint32 (of_nat n) @ EncodeVarint32 (of_nat v) @ p3"
    by (simp add: cell_bytes_def cell_header_def p3_def n_def v_def)
  have "3 \<le> length (cell_bytes c @ rest)"
    using EncodeVarint32_nonempty [of "of_nat (c_shared c)"] EncodeVarint32_nonempty [of "of_nat n"]
      EncodeVarint32_nonempty [of "of_nat v"] unfolding b by simp
  from DecodeEntry_slow [OF this [unfolded b] GetVarint32Ptr_Encode GetVarint32Ptr_Encode GetVarint32Ptr_Encode]
  have "DecodeEntry (cell_bytes c @ rest) =
      (if (of_nat (length p3) :: u32) < of_nat n + of_nat v then None else Some (of_nat (c_shared c), of_nat n, of_nat v, p3))"
    unfolding b .
  moreover have "length p3 < 2 ^ 32" using assms(2) unfolding b by simp
  then have "\<not> (of_nat (length p3) :: u32) < of_nat n + of_nat v"
    using len by (simp add: word_less_nat_alt unat_of_nat_small flip: of_nat_add)
  ultimately show ?thesis by (simp add: p3_def n_def v_def)
qed

end
