(* ===== verification/Block_Iter.thy ===== *)
theory Block_Iter
  imports Block_Format
begin

text \<open>
  \<^verbatim>\<open>table/block.cc\<close>: blocks and their iterators. Offsets are natural numbers, reduced modulo \<open>2 ^ 32\<close> where the code
  stores them in a \<^verbatim>\<open>uint32_t\<close>; the value of the iterator is its offset and length in the block. An operation is \<open>None\<close>
  when the code would read outside the block or not return. For a block that the builder made, the iterator is shown to
  implement the list of the entries.
\<close>

record Block =
  blk_data :: slice
  blk_size :: nat
  blk_restart_offset :: nat

definition NumRestarts :: "slice \<Rightarrow> nat \<Rightarrow> u32" where
  "NumRestarts data n = DecodeFixed32 (drop (n - 4) data)"

definition new_Block :: "slice \<Rightarrow> Block" where
  "new_Block contents =
     (let b = \<lparr> blk_data = contents, blk_size = length contents, blk_restart_offset = 0 \<rparr> in
      if blk_size b < 4 then b\<lparr> blk_size := 0 \<rparr>
      else
        let max_restarts_allowed = (blk_size b - 4) div 4; n = NumRestarts (blk_data b) (blk_size b) in
        if unat n > max_restarts_allowed then b\<lparr> blk_size := 0 \<rparr>
        else b\<lparr> blk_restart_offset := (blk_size b - unat (1 + n) * 4) mod 2 ^ 32 \<rparr>)"

record BlockIter =
  bi_data :: slice
  bi_restarts :: nat
  bi_num_restarts :: nat
  bi_current :: nat
  bi_restart_index :: nat
  bi_key :: slice
  bi_value_at :: nat
  bi_value_length :: nat
  bi_status :: Status

definition new_BlockIter :: "slice \<Rightarrow> nat \<Rightarrow> nat \<Rightarrow> BlockIter" where
  "new_BlockIter data restarts num_restarts =
     \<lparr> bi_data = data, bi_restarts = restarts, bi_num_restarts = num_restarts, bi_current = restarts,
       bi_restart_index = num_restarts, bi_key = [], bi_value_at = 0, bi_value_length = 0, bi_status = Status_OK \<rparr>"

definition bi_Valid :: "BlockIter \<Rightarrow> bool" where
  "bi_Valid it = (bi_current it < bi_restarts it)"

definition bi_value :: "BlockIter \<Rightarrow> slice" where
  "bi_value it = take (bi_value_length it) (drop (bi_value_at it) (bi_data it))"

definition NextEntryOffset :: "BlockIter \<Rightarrow> nat" where
  "NextEntryOffset it = (bi_value_at it + bi_value_length it) mod 2 ^ 32"

definition GetRestartPoint :: "BlockIter \<Rightarrow> nat \<Rightarrow> nat" where
  "GetRestartPoint it index = unat (DecodeFixed32 (drop (bi_restarts it + index * 4) (bi_data it)))"

definition SeekToRestartPoint :: "nat \<Rightarrow> BlockIter \<Rightarrow> BlockIter" where
  "SeekToRestartPoint index it =
     it\<lparr> bi_restart_index := index, bi_key := [], bi_value_at := GetRestartPoint it index, bi_value_length := 0 \<rparr>"

definition CorruptionError :: "BlockIter \<Rightarrow> BlockIter" where
  "CorruptionError it =
     it\<lparr> bi_current := bi_restarts it, bi_restart_index := bi_num_restarts it, bi_key := [], bi_value_at := 0,
         bi_value_length := 0, bi_status := Corruption (bytes_of_string ''bad entry in block'') [] \<rparr>"

text \<open>The bytes from an offset up to the restart array, and a read that stays in the block.\<close>

definition entry_at :: "BlockIter \<Rightarrow> nat \<Rightarrow> slice" where
  "entry_at it off = take (bi_restarts it - off) (drop off (bi_data it))"

definition bi_read :: "BlockIter \<Rightarrow> nat \<Rightarrow> nat \<Rightarrow> slice option" where
  "bi_read it off n = (if off + n \<le> length (bi_data it) then Some (take n (drop off (bi_data it))) else None)"

function advance_restart :: "BlockIter \<Rightarrow> nat \<Rightarrow> nat" where
  "advance_restart it index =
     (if index + 1 < bi_num_restarts it \<and> GetRestartPoint it (index + 1) < bi_current it
      then advance_restart it (index + 1) else index)"
  by auto
termination by (relation "measure (\<lambda>(it, index). bi_num_restarts it - index)") auto

declare advance_restart.simps [simp del]

definition ParseNextKey :: "BlockIter \<Rightarrow> (bool \<times> BlockIter) option" where
  "ParseNextKey it =
     (let it = it\<lparr> bi_current := NextEntryOffset it \<rparr> in
      if bi_restarts it \<le> bi_current it
      then Some (False, it\<lparr> bi_current := bi_restarts it, bi_restart_index := bi_num_restarts it \<rparr>)
      else
        case DecodeEntry (entry_at it (bi_current it)) of
          None \<Rightarrow> Some (False, CorruptionError it)
        | Some (shared, non_shared, value_length, p) \<Rightarrow>
            if length (bi_key it) < unat shared then Some (False, CorruptionError it)
            else
              let p = bi_restarts it - length p in
              case bi_read it p (unat non_shared) of
                None \<Rightarrow> None
              | Some delta \<Rightarrow>
                  let it = it\<lparr> bi_key := take (unat shared) (bi_key it) @ delta,
                               bi_value_at := p + unat non_shared, bi_value_length := unat value_length \<rparr>
                  in Some (True, it\<lparr> bi_restart_index := advance_restart it (bi_restart_index it) \<rparr>))"

definition bi_Next :: "BlockIter \<Rightarrow> BlockIter option" where
  "bi_Next it = map_option snd (ParseNextKey it)"

text \<open>The loop of \<open>Prev\<close> over the restart points: \<open>None\<close> when there is none before the entry.\<close>

fun Prev_restart :: "BlockIter \<Rightarrow> nat \<Rightarrow> nat option" where
  "Prev_restart it index =
     (if GetRestartPoint it index \<ge> bi_current it
      then (case index of 0 \<Rightarrow> None | Suc i \<Rightarrow> Prev_restart it i) else Some index)"

declare Prev_restart.simps [simp del]

text \<open>Parse entries until one ends at or after a bound.\<close>

partial_function (option) parse_up_to :: "nat \<Rightarrow> BlockIter \<Rightarrow> BlockIter option" where
  "parse_up_to bound it =
     (case ParseNextKey it of None \<Rightarrow> None
      | Some (ok, it) \<Rightarrow> if ok \<and> NextEntryOffset it < bound then parse_up_to bound it else Some it)"

definition bi_Prev :: "BlockIter \<Rightarrow> BlockIter option" where
  "bi_Prev it =
     (let original = bi_current it in
      case Prev_restart it (bi_restart_index it) of
        None \<Rightarrow> Some (it\<lparr> bi_current := bi_restarts it, bi_restart_index := bi_num_restarts it \<rparr>)
      | Some index \<Rightarrow> parse_up_to original (SeekToRestartPoint index it))"

definition bi_SeekToFirst :: "BlockIter \<Rightarrow> BlockIter option" where
  "bi_SeekToFirst it = map_option snd (ParseNextKey (SeekToRestartPoint 0 it))"

definition bi_SeekToLast :: "BlockIter \<Rightarrow> BlockIter option" where
  "bi_SeekToLast it = parse_up_to (bi_restarts it) (SeekToRestartPoint (bi_num_restarts it - 1) it)"

text \<open>The binary search over the restart points; \<open>Some None\<close> is a corrupt entry.\<close>

partial_function (option) Seek_search :: "Comparator \<Rightarrow> BlockIter \<Rightarrow> slice \<Rightarrow> nat \<Rightarrow> nat \<Rightarrow> nat option option" where
  "Seek_search cmp it target left right =
     (if left < right then
        let mid = (left + right + 1) mod 2 ^ 32 div 2 in
        case DecodeEntry (entry_at it (GetRestartPoint it mid)) of
          None \<Rightarrow> Some None
        | Some (shared, non_shared, value_length, key_ptr) \<Rightarrow>
            if shared \<noteq> 0 then Some None
            else (case bi_read it (bi_restarts it - length key_ptr) (unat non_shared) of
                None \<Rightarrow> None
              | Some mid_key \<Rightarrow>
                  if Compare cmp mid_key target < 0 then Seek_search cmp it target mid right
                  else Seek_search cmp it target left (mid - 1))
      else Some (Some left))"

partial_function (option) Seek_linear :: "Comparator \<Rightarrow> slice \<Rightarrow> BlockIter \<Rightarrow> BlockIter option" where
  "Seek_linear cmp target it =
     (case ParseNextKey it of None \<Rightarrow> None
      | Some (ok, it) \<Rightarrow> if \<not> ok \<or> Compare cmp (bi_key it) target \<ge> 0 then Some it else Seek_linear cmp target it)"

definition bi_Seek :: "Comparator \<Rightarrow> slice \<Rightarrow> BlockIter \<Rightarrow> BlockIter option" where
  "bi_Seek cmp target it =
     (let valid = bi_Valid it; current_key_compare = (if valid then Compare cmp (bi_key it) target else 0) in
      if valid \<and> current_key_compare = 0 then Some it
      else
        let left = (if valid \<and> current_key_compare < 0 then bi_restart_index it else 0);
            right = (if valid \<and> current_key_compare > 0 then bi_restart_index it else bi_num_restarts it - 1) in
        case Seek_search cmp it target left right of
          None \<Rightarrow> None
        | Some None \<Rightarrow> Some (CorruptionError it)
        | Some (Some left) \<Rightarrow>
            let skip_seek = (left = bi_restart_index it \<and> current_key_compare < 0) in
            Seek_linear cmp target (if skip_seek then it else SeekToRestartPoint left it))"

definition block_Iter :: "Comparator \<Rightarrow> BlockIter Iterator" where
  "block_Iter cmp = \<lparr> it_Valid = bi_Valid, it_SeekToFirst = bi_SeekToFirst, it_SeekToLast = bi_SeekToLast,
     it_Seek = bi_Seek cmp, it_Next = bi_Next, it_Prev = bi_Prev, it_key = bi_key, it_value = bi_value,
     it_status = bi_status \<rparr>"

text \<open>An iterator over a block is an empty iterator or a block iterator.\<close>

definition Block_NewIterator :: "Block \<Rightarrow> Status + BlockIter" where
  "Block_NewIterator b =
     (if blk_size b < 4 then Inl (NewErrorIterator (Corruption (bytes_of_string ''bad block contents'') []))
      else let num_restarts = unat (NumRestarts (blk_data b) (blk_size b)) in
        if num_restarts = 0 then Inl NewEmptyIterator
        else Inr (new_BlockIter (blk_data b) (blk_restart_offset b) num_restarts))"

section \<open>Blocks made by the builder\<close>

definition bi_rep :: "cell list \<Rightarrow> nat list \<Rightarrow> BlockIter \<Rightarrow> bool" where
  "bi_rep cs rs it \<longleftrightarrow> bi_data it = block_bytes cs rs \<and> bi_restarts it = length (cells_bytes cs) \<and>
     bi_num_restarts it = length rs \<and> bi_status it = Status_OK \<and> cells_ok [] cs \<and> restarts_ok cs rs \<and>
     length (block_bytes cs rs) < 2 ^ 32"

definition in_restart :: "nat list \<Rightarrow> nat \<Rightarrow> nat \<Rightarrow> bool" where
  "in_restart rs r i \<longleftrightarrow> r < length rs \<and> rs ! r \<le> i"

definition bi_at :: "cell list \<Rightarrow> nat list \<Rightarrow> BlockIter \<Rightarrow> nat option \<Rightarrow> bool" where
  "bi_at cs rs it p \<longleftrightarrow> bi_rep cs rs it \<and>
     (case p of None \<Rightarrow> bi_current it = bi_restarts it
      | Some i \<Rightarrow> i < length cs \<and> bi_current it = cell_off cs i \<and> bi_key it = c_key (cs ! i) \<and>
          bi_value_at it + length (c_value (cs ! i)) = cell_off cs (Suc i) \<and>
          bi_value_length it = length (c_value (cs ! i)) \<and> in_restart rs (bi_restart_index it) i)"

definition bi_ready :: "cell list \<Rightarrow> nat list \<Rightarrow> BlockIter \<Rightarrow> nat \<Rightarrow> bool" where
  "bi_ready cs rs it j \<longleftrightarrow> bi_rep cs rs it \<and> j \<le> length cs \<and> NextEntryOffset it = cell_off cs j \<and>
     (j < length cs \<longrightarrow> shares (bi_key it) (cs ! j)) \<and> in_restart rs (bi_restart_index it) j"

lemma cells_split: "j < length cs \<Longrightarrow> cells_bytes cs = cells_bytes (take j cs) @ cell_bytes (cs ! j) @ cells_bytes (drop (Suc j) cs)"
  by (subst id_take_nth_drop) (simp_all add: cells_bytes_def)

lemma cell_bytes_pos: "3 \<le> length (cell_bytes c)"
  using EncodeVarint32_nonempty [of "of_nat (c_shared c)"] EncodeVarint32_nonempty [of "of_nat (length (c_key c) - c_shared c)"]
    EncodeVarint32_nonempty [of "of_nat (length (c_value c))"] by (simp add: cell_bytes_def cell_header_def)

lemma cell_off_Suc: "j < length cs \<Longrightarrow> cell_off cs (Suc j) = cell_off cs j + length (cell_bytes (cs ! j))"
  by (simp add: cell_off_def take_Suc_conv_app_nth cells_bytes_def)

lemma cell_off_all: "cell_off cs (length cs) = length (cells_bytes cs)"
  by (simp add: cell_off_def)

lemma cell_off_0 [simp]: "cell_off cs 0 = 0"
  by (simp add: cell_off_def cells_bytes_def)

lemma cell_off_mono: "i < j \<Longrightarrow> j \<le> length cs \<Longrightarrow> cell_off cs i < cell_off cs j"
proof (induction j)
  case (Suc j)
  then have j: "j < length cs" by simp
  have "cell_off cs j < cell_off cs (Suc j)" using cell_off_Suc [OF j] cell_bytes_pos [of "cs ! j"] by linarith
  then show ?case using Suc by (cases "i = j") auto
qed simp

lemma cell_off_less_iff: "i \<le> length cs \<Longrightarrow> j \<le> length cs \<Longrightarrow> cell_off cs i < cell_off cs j \<longleftrightarrow> i < j"
  using cell_off_mono [of i j cs] cell_off_mono [of j i cs] by (cases i j rule: linorder_cases) auto

lemma cell_off_le: "j \<le> length cs \<Longrightarrow> cell_off cs j \<le> length (cells_bytes cs)"
  using cell_off_mono [of j "length cs" cs] cell_off_all [of cs] by (cases "j = length cs") auto

lemma cells_ok_nth:
  assumes "cells_ok k cs" "j < length cs"
  shows "shares (if j = 0 then k else c_key (cs ! (j - 1))) (cs ! j)"
  using assms
proof (induction cs arbitrary: k j)
  case (Cons c cs)
  then show ?case using Cons.IH [of "c_key c" "j - 1"] by (cases j) (auto split: if_splits nat.splits simp: nth_Cons')
qed simp

lemma cell_key_length: "cells_ok k cs \<Longrightarrow> c \<in> set cs \<Longrightarrow> length (c_key c) \<le> length k + length (cells_bytes cs)"
proof (induction cs arbitrary: k)
  case (Cons d cs)
  have "length (c_key d) \<le> length k + length (cell_bytes d)" using Cons.prems(1) by (auto simp: shares_def cell_bytes_def)
  then show ?case using Cons.IH [of "c_key d"] Cons.prems by (auto simp: cells_bytes_def)
qed simp

lemma entry_at_cell:
  assumes "bi_rep cs rs it" "j < length cs"
  shows "entry_at it (cell_off cs j) = cell_bytes (cs ! j) @ cells_bytes (drop (Suc j) cs)"
  using assms cells_split [OF assms(2)] by (simp add: entry_at_def bi_rep_def block_bytes_def cell_off_def)

lemma DecodeEntry_at:
  assumes "bi_rep cs rs it" "j < length cs"
  shows "DecodeEntry (entry_at it (cell_off cs j)) =
    Some (of_nat (c_shared (cs ! j)), of_nat (length (c_key (cs ! j)) - c_shared (cs ! j)), of_nat (length (c_value (cs ! j))),
      drop (c_shared (cs ! j)) (c_key (cs ! j)) @ c_value (cs ! j) @ cells_bytes (drop (Suc j) cs))"
  unfolding entry_at_cell [OF assms]
proof (rule DecodeEntry_cell)
  show "c_shared (cs ! j) \<le> length (c_key (cs ! j))"
    using cells_ok_nth [of "[]" cs j] assms by (auto simp: bi_rep_def shares_def)
  show "length (cell_bytes (cs ! j) @ cells_bytes (drop (Suc j) cs)) < 2 ^ 32"
    using cells_split [OF assms(2)] assms(1) by (simp add: bi_rep_def block_bytes_def)
  show "length (c_key (cs ! j)) < 2 ^ 32"
    using cell_key_length [of "[]" cs "cs ! j"] assms by (auto simp: bi_rep_def block_bytes_def)
qed

lemma bi_rep_off_small: "bi_rep cs rs it \<Longrightarrow> j \<le> length cs \<Longrightarrow> cell_off cs j < 2 ^ 32"
  using cell_off_le [of j cs] by (simp add: bi_rep_def block_bytes_def)

lemma GetRestartPoint_rep:
  assumes "bi_rep cs rs it" "r < length rs"
  shows "GetRestartPoint it r = cell_off cs (rs ! r)"
proof -
  have "rs ! r \<le> length cs" using restarts_ok_bound [of cs rs] assms by (auto simp: bi_rep_def)
  moreover have "DecodeFixed32 (drop (bi_restarts it + r * 4) (bi_data it)) = of_nat (cell_off cs (rs ! r))"
    using assms concat_EncodeFixed32_drop [of r "map (\<lambda>r. of_nat (cell_off cs r)) rs" "EncodeFixed32 (of_nat (length rs))"]
    by (simp add: bi_rep_def block_bytes_def restart_array_def codec_simps comp_def mult.commute)
  ultimately show ?thesis using bi_rep_off_small [OF assms(1)] by (simp add: GetRestartPoint_def unat_of_nat_small)
qed

lemma bi_rep_upd [simp]:
  "bi_rep cs rs (it\<lparr> bi_current := a \<rparr>) = bi_rep cs rs it" "bi_rep cs rs (it\<lparr> bi_restart_index := b \<rparr>) = bi_rep cs rs it"
  "bi_rep cs rs (it\<lparr> bi_key := c \<rparr>) = bi_rep cs rs it" "bi_rep cs rs (it\<lparr> bi_value_at := d \<rparr>) = bi_rep cs rs it"
  "bi_rep cs rs (it\<lparr> bi_value_length := e \<rparr>) = bi_rep cs rs it"
  by (simp_all add: bi_rep_def)

lemma advance_restart_in:
  assumes "bi_rep cs rs it" "i < length cs" "bi_current it = cell_off cs i" "in_restart rs r i"
  shows "in_restart rs (advance_restart it r) i"
  using assms
proof (induction it r rule: advance_restart.induct)
  case (1 it r)
  show ?case
  proof (cases "r + 1 < bi_num_restarts it \<and> GetRestartPoint it (r + 1) < bi_current it")
    case True
    then have r: "r + 1 < length rs" using 1 by (simp add: bi_rep_def)
    then have "rs ! (r + 1) \<le> length cs" using restarts_ok_bound [of cs rs "rs ! (r + 1)"] 1 by (simp add: bi_rep_def)
    then have "rs ! (r + 1) < i" using True r 1 GetRestartPoint_rep [OF "1.prems"(1) r] cell_off_less_iff [of "rs ! (r + 1)" cs i] by simp
    then show ?thesis using 1(1) [OF True] 1 r True by (simp add: advance_restart.simps [of it r] in_restart_def)
  next
    case False
    then show ?thesis using "1.prems"(4) by (simp only: advance_restart.simps [of it r] if_False)
  qed
qed

lemma read_upd [simp]:
  "entry_at (it\<lparr> bi_current := x \<rparr>) = entry_at it" "bi_read (it\<lparr> bi_current := x \<rparr>) = bi_read it"
  by (auto simp: entry_at_def bi_read_def fun_eq_iff)

lemma ParseNextKey_entry:
  assumes "NextEntryOffset it = off" "off < bi_restarts it" "DecodeEntry (entry_at it off) = Some (s, n, v, q)"
    "unat s \<le> length (bi_key it)" "bi_restarts it - length q = p" "bi_read it p (unat n) = Some delta"
    "it1 = it\<lparr> bi_current := off, bi_key := take (unat s) (bi_key it) @ delta, bi_value_at := p + unat n, bi_value_length := unat v \<rparr>"
  shows "ParseNextKey it = Some (True, it1\<lparr> bi_restart_index := advance_restart it1 (bi_restart_index it) \<rparr>)"
  using assms by (simp add: ParseNextKey_def Let_def)

lemma ParseNextKey_ready:
  assumes ready: "bi_ready cs rs it j" and j: "j < length cs"
  shows "\<exists>it'. ParseNextKey it = Some (True, it') \<and> bi_at cs rs it' (Some j)"
proof -
  let ?c = "cs ! j"
  define rest where "rest = cells_bytes (drop (Suc j) cs)"
  have rep: "bi_rep cs rs it" and off: "NextEntryOffset it = cell_off cs j" and sh: "shares (bi_key it) ?c"
    and r: "in_restart rs (bi_restart_index it) j" using ready j by (auto simp: bi_ready_def)
  have lt: "cell_off cs j < bi_restarts it"
    using cell_off_mono [of j "length cs" cs] j rep by (simp add: cell_off_all bi_rep_def)
  have dec: "DecodeEntry (entry_at it (cell_off cs j)) = Some (of_nat (c_shared ?c), of_nat (length (c_key ?c) - c_shared ?c),
      of_nat (length (c_value ?c)), drop (c_shared ?c) (c_key ?c) @ c_value ?c @ rest)"
    using DecodeEntry_at [of cs rs it j] rep j by (simp add: rest_def del: of_nat_diff)
  have split: "cells_bytes cs = cells_bytes (take j cs) @ cell_header ?c @ drop (c_shared ?c) (c_key ?c) @ c_value ?c @ rest"
    using cells_split [OF j] by (simp add: cell_bytes_def rest_def)
  have small: "length (cells_bytes cs) < 2 ^ 32" using rep by (simp add: bi_rep_def block_bytes_def)
  have kl: "length (c_key ?c) < 2 ^ 32" using cell_key_length [of "[]" cs ?c] rep j small by (auto simp: bi_rep_def)
  have vl: "length (c_value ?c) < 2 ^ 32" using small unfolding split by simp
  have u: "unat (of_nat (c_shared ?c) :: u32) = c_shared ?c"
    "unat (of_nat (length (c_key ?c) - c_shared ?c) :: u32) = length (c_key ?c) - c_shared ?c"
    "unat (of_nat (length (c_value ?c)) :: u32) = length (c_value ?c)"
    using kl vl sh by (simp_all add: unat_of_nat_small shares_def del: of_nat_diff)
  define p where "p = bi_restarts it - length (drop (c_shared ?c) (c_key ?c) @ c_value ?c @ rest)"
  have p: "p = length (cells_bytes (take j cs)) + length (cell_header ?c)"
    using rep unfolding p_def bi_rep_def split by simp
  have data: "bi_data it = cells_bytes (take j cs) @ cell_header ?c @ drop (c_shared ?c) (c_key ?c) @ c_value ?c @ rest @ restart_array cs rs"
    using rep split by (simp add: bi_rep_def block_bytes_def)
  have rd: "bi_read it p (length (c_key ?c) - c_shared ?c) = Some (drop (c_shared ?c) (c_key ?c))"
    by (simp add: bi_read_def data p)
  have nx: "p + (length (c_key ?c) - c_shared ?c) + length (c_value ?c) = cell_off cs (Suc j)"
    using cell_off_Suc [OF j] by (simp add: p cell_off_def cell_bytes_def)
  have key: "take (c_shared ?c) (bi_key it) @ drop (c_shared ?c) (c_key ?c) = c_key ?c" using sh by (simp add: shares_def)
  have sh': "c_shared ?c \<le> length (bi_key it)" using sh by (simp add: shares_def)
  define it1 where "it1 = it\<lparr> bi_current := cell_off cs j, bi_key := take (c_shared ?c) (bi_key it) @ drop (c_shared ?c) (c_key ?c),
      bi_value_at := p + (length (c_key ?c) - c_shared ?c),
      bi_value_length := length (c_value ?c) \<rparr>"
  have parse: "ParseNextKey it = Some (True, it1\<lparr> bi_restart_index := advance_restart it1 (bi_restart_index it) \<rparr>)"
    by (rule ParseNextKey_entry [OF off lt dec _ p_def [symmetric]])
       (use rd sh' in \<open>simp_all only: u it1_def\<close>)
  have rep1: "bi_rep cs rs it1" using rep by (simp add: it1_def)
  have "in_restart rs (advance_restart it1 (bi_restart_index it)) j"
    using advance_restart_in [OF rep1 j _ r] by (simp add: it1_def)
  then have "bi_at cs rs (it1\<lparr> bi_restart_index := advance_restart it1 (bi_restart_index it) \<rparr>) (Some j)"
    using rep1 j nx by (simp add: bi_at_def) (simp add: it1_def key)
  then show ?thesis using parse by blast
qed

lemma ParseNextKey_end:
  assumes "bi_ready cs rs it (length cs)"
  shows "\<exists>it'. ParseNextKey it = Some (False, it') \<and> bi_at cs rs it' None"
proof -
  have "bi_restarts it \<le> NextEntryOffset it" using assms by (simp add: bi_ready_def cell_off_all bi_rep_def)
  then show ?thesis using assms by (simp add: ParseNextKey_def Let_def bi_at_def bi_ready_def)
qed

lemma bi_at_ready:
  assumes "bi_at cs rs it (Some i)"
  shows "bi_ready cs rs it (Suc i)"
proof -
  have i: "i < length cs" and rep: "bi_rep cs rs it" using assms by (simp_all add: bi_at_def)
  then have "NextEntryOffset it = cell_off cs (Suc i)"
    using assms bi_rep_off_small [OF rep, of "Suc i"] by (simp add: bi_at_def NextEntryOffset_def)
  then show ?thesis
    using assms i cells_ok_nth [of "[]" cs "Suc i"] by (auto simp: bi_at_def bi_ready_def bi_rep_def in_restart_def)
qed

lemma ready_at_restart:
  assumes "bi_rep cs rs it" "r < length rs"
  shows "bi_ready cs rs (SeekToRestartPoint r it) (rs ! r)"
proof -
  have le: "rs ! r \<le> length cs" using restarts_ok_bound [of cs rs] assms by (simp add: bi_rep_def)
  have "rs ! r < length cs \<Longrightarrow> c_shared (cs ! (rs ! r)) = 0"
    using assms by (auto simp: bi_rep_def restarts_ok_def)
  then show ?thesis
    using assms le GetRestartPoint_rep [OF assms] bi_rep_off_small [OF assms(1) le]
    by (simp add: bi_ready_def SeekToRestartPoint_def NextEntryOffset_def shares_def in_restart_def)
qed

section \<open>The operations on such blocks\<close>

lemma bi_at_Valid: "bi_at cs rs it p \<Longrightarrow> bi_Valid it \<longleftrightarrow> p \<noteq> None"
  using cell_off_mono [of "the p" "length cs" cs]
  by (auto simp: bi_at_def bi_Valid_def bi_rep_def cell_off_all split: option.splits)

lemma parse_ready_pos:
  assumes "bi_ready cs rs it j"
  shows "\<exists>it'. ParseNextKey it = Some (j < length cs, it') \<and> bi_at cs rs it' (at_pos cs j)"
proof (cases "j < length cs")
  case True
  then show ?thesis using ParseNextKey_ready [OF assms] by (simp add: at_pos_def)
next
  case False
  then have "j = length cs" using assms by (simp add: bi_ready_def)
  then show ?thesis using ParseNextKey_end assms by (simp add: at_pos_def)
qed

lemma parse_up_to_cell:
  assumes "bi_ready cs rs it j" "j \<le> i" "i < length cs"
  shows "\<exists>it'. parse_up_to (cell_off cs (Suc i)) it = Some it' \<and> bi_at cs rs it' (Some i)"
  using assms
proof (induction "i - j" arbitrary: it j)
  case 0
  then have j: "j = i" by simp
  obtain it' where it': "ParseNextKey it = Some (True, it')" "bi_at cs rs it' (Some i)"
    using ParseNextKey_ready [OF 0(2)] 0 j by auto
  then have "NextEntryOffset it' = cell_off cs (Suc i)" using bi_at_ready by (auto simp: bi_ready_def)
  then show ?case using it' by (subst parse_up_to.simps) simp
next
  case (Suc n)
  then have j: "j < i" "j < length cs" by simp_all
  obtain it' where it': "ParseNextKey it = Some (True, it')" "bi_at cs rs it' (Some j)"
    using ParseNextKey_ready [OF Suc(3) j(2)] by auto
  have r: "bi_ready cs rs it' (Suc j)" by (rule bi_at_ready [OF it'(2)])
  then have "NextEntryOffset it' < cell_off cs (Suc i)"
    using cell_off_mono [of "Suc j" "Suc i" cs] j Suc.prems by (auto simp: bi_ready_def)
  then show ?case using it' Suc(1) [OF _ r] Suc(2) j Suc.prems by (subst parse_up_to.simps) simp
qed

lemma Prev_restart_spec:
  assumes "bi_rep cs rs it" "bi_current it = cell_off cs i" "i < length cs" "in_restart rs r i"
  shows "case Prev_restart it r of None \<Rightarrow> i = 0 | Some r' \<Rightarrow> r' < length rs \<and> rs ! r' < i"
  using assms(4)
proof (induction r)
  case 0
  have "rs ! 0 = 0" "0 < length rs" using assms(1) by (auto simp: bi_rep_def restarts_ok_def)
  then show ?case
    using GetRestartPoint_rep [OF assms(1), of 0] cell_off_less_iff [of 0 cs i] assms by (auto simp: Prev_restart.simps)
next
  case (Suc r)
  then have r: "Suc r < length rs" "rs ! Suc r \<le> i" by (simp_all add: in_restart_def)
  have "rs ! r < rs ! Suc r" using assms(1) r(1) by (auto simp: bi_rep_def restarts_ok_def sorted_wrt_iff_nth_less)
  then have "in_restart rs r i" using r by (simp add: in_restart_def)
  then show ?case
    using Suc.IH GetRestartPoint_rep [OF assms(1) r(1)] cell_off_less_iff [of "rs ! Suc r" cs i] r assms
    by (simp add: Prev_restart.simps [of it "Suc r"] not_le)
qed

lemma bi_Prev_at:
  assumes "bi_at cs rs it (Some i)"
  shows "\<exists>it'. bi_Prev it = Some it' \<and> bi_at cs rs it' (prev_pos i)"
proof -
  have at: "bi_rep cs rs it" "bi_current it = cell_off cs i" "i < length cs" "in_restart rs (bi_restart_index it) i"
    using assms by (simp_all add: bi_at_def)
  show ?thesis
  proof (cases "Prev_restart it (bi_restart_index it)")
    case None
    then have "i = 0" using Prev_restart_spec [OF at] by simp
    then show ?thesis using None at(1) by (simp add: bi_Prev_def Let_def prev_pos_def bi_at_def)
  next
    case (Some r)
    then have r: "r < length rs" "rs ! r < i" using Prev_restart_spec [OF at] by auto
    have "\<exists>it'. parse_up_to (cell_off cs (Suc (i - 1))) (SeekToRestartPoint r it) = Some it' \<and> bi_at cs rs it' (Some (i - 1))"
      using parse_up_to_cell [OF ready_at_restart [OF at(1) r(1)], of "i - 1"] r(2) at(3) by simp
    then show ?thesis using Some r(2) at(2) by (simp add: bi_Prev_def Let_def prev_pos_def)
  qed
qed

lemma bi_SeekToFirst_at:
  assumes "bi_rep cs rs it"
  shows "\<exists>it'. bi_SeekToFirst it = Some it' \<and> bi_at cs rs it' (at_pos cs 0)"
proof -
  have "0 < length rs" "rs ! 0 = 0" using assms by (auto simp: bi_rep_def restarts_ok_def)
  then have "bi_ready cs rs (SeekToRestartPoint 0 it) 0" using ready_at_restart [OF assms, of 0] by simp
  from parse_ready_pos [OF this] show ?thesis by (auto simp: bi_SeekToFirst_def)
qed

lemma bi_SeekToLast_at:
  assumes "bi_rep cs rs it"
  shows "\<exists>it'. bi_SeekToLast it = Some it' \<and> bi_at cs rs it' (last_pos cs)"
proof -
  have rs: "length rs - 1 < length rs" "bi_num_restarts it = length rs" using assms by (auto simp: bi_rep_def restarts_ok_def)
  note ready = ready_at_restart [OF assms rs(1)]
  show ?thesis
  proof (cases "cs = []")
    case True
    then have "rs ! (length rs - 1) = length cs" using ready by (simp add: bi_ready_def)
    then obtain it' where "ParseNextKey (SeekToRestartPoint (length rs - 1) it) = Some (False, it')" "bi_at cs rs it' None"
      using ParseNextKey_end ready by fastforce
    then show ?thesis using True rs(2) by (simp add: bi_SeekToLast_def last_pos_def parse_up_to.simps)
  next
    case False
    have "\<forall>r \<in> set rs. r = 0 \<or> r < length cs" "0 < length cs" using assms False by (auto simp: bi_rep_def restarts_ok_def)
    then have "rs ! (length rs - 1) < length cs" using nth_mem [OF rs(1)] by metis
    then have "\<exists>it'. parse_up_to (cell_off cs (Suc (length cs - 1))) (SeekToRestartPoint (length rs - 1) it) = Some it' \<and>
        bi_at cs rs it' (Some (length cs - 1))"
      using parse_up_to_cell [OF ready, of "length cs - 1"] False by simp
    then show ?thesis using False rs(2) assms by (simp add: bi_SeekToLast_def last_pos_def cell_off_all bi_rep_def)
  qed
qed

lemma Seek_search_spec:
  assumes rep: "bi_rep cs rs it" and "left \<le> right" "right < length rs"
  shows "\<exists>l. Seek_search cmp it target left right = Some (Some l) \<and> l < length rs \<and>
    (l = left \<or> rs ! l < length cs \<and> Compare cmp (c_key (cs ! (rs ! l))) target < 0)"
  using assms(2,3)
proof (induction "right - left" arbitrary: left right rule: less_induct)
  case less
  show ?case
  proof (cases "left < right")
    case False
    then show ?thesis using less.prems by (subst Seek_search.simps) auto
  next
    case True
    define mid where "mid = (left + right + 1) div 2"
    have "4 * length rs \<le> length (block_bytes cs rs)" by (simp add: block_bytes_def restart_array_def length_concat comp_def sum_list_const_mult sum_list_triv)
    then have small: "length rs < 2 ^ 30" using rep by (simp add: bi_rep_def)
    then have mid: "(left + right + 1) mod 2 ^ 32 div 2 = mid" using less.prems by (simp add: mid_def)
    have m: "left < mid" "mid \<le> right" "mid < length rs" using True less.prems by (auto simp: mid_def)
    have "rs ! 0 < rs ! mid" using m rep by (intro sorted_wrt_nth_less [of "(<)"]) (auto simp: bi_rep_def restarts_ok_def)
    moreover have "rs ! mid = 0 \<or> rs ! mid < length cs" "rs ! mid < length cs \<longrightarrow> c_shared (cs ! (rs ! mid)) = 0"
      using rep nth_mem [OF m(3)] by (simp_all add: bi_rep_def restarts_ok_def)
    ultimately have rm: "rs ! mid < length cs" "c_shared (cs ! (rs ! mid)) = 0" by auto
    let ?c = "cs ! (rs ! mid)"
    define q where "q = c_key ?c @ c_value ?c @ cells_bytes (drop (Suc (rs ! mid)) cs)"
    have dec: "DecodeEntry (entry_at it (GetRestartPoint it mid)) = Some (0, of_nat (length (c_key ?c)), of_nat (length (c_value ?c)), q)"
      using DecodeEntry_at [OF rep rm(1)] GetRestartPoint_rep [OF rep m(3)] rm(2) by (simp add: q_def)
    have split: "cells_bytes cs = cells_bytes (take (rs ! mid) cs) @ cell_header ?c @ q"
      using cells_split [OF rm(1)] rm(2) by (simp add: cell_bytes_def q_def)
    have kl: "unat (of_nat (length (c_key ?c)) :: u32) = length (c_key ?c)"
      using cell_key_length [of "[]" cs ?c] rep rm(1) by (simp add: bi_rep_def block_bytes_def unat_of_nat_small)
    have rd: "bi_read it (bi_restarts it - length q) (length (c_key ?c)) = Some (c_key ?c)"
      using rep split by (simp add: bi_read_def bi_rep_def block_bytes_def q_def)
    have step: "Seek_search cmp it target left right =
        (if Compare cmp (c_key ?c) target < 0 then Seek_search cmp it target mid right
         else Seek_search cmp it target left (mid - 1))"
      by (subst Seek_search.simps) (simp only: True mid dec rd kl if_True Let_def option.simps prod.case simp_thms if_False)
    show ?thesis
    proof (cases "Compare cmp (c_key ?c) target < 0")
      case True
      have "right - mid < right - left" using m by simp
      from less.hyps [OF this m(2) less.prems(2)] show ?thesis using True step rm(1) by auto
    next
      case False
      have "mid - 1 - left < right - left" "left \<le> mid - 1" "mid - 1 < length rs" using m by auto
      from less.hyps [OF this] show ?thesis using False step by auto
    qed
  qed
qed

lemma Seek_linear_spec:
  assumes "bi_ready cs rs it j" "\<And>i. i < j \<Longrightarrow> Compare cmp (c_key (cs ! i)) target < 0"
  shows "\<exists>it'. Seek_linear cmp target it = Some it' \<and>
    bi_at cs rs it' (at_pos cs (lower (Compare cmp) target (map cell_kv cs)))"
  using assms
proof (induction "length cs - j" arbitrary: it j)
  case 0
  then have j: "j = length cs" by (simp add: bi_ready_def)
  obtain it' where "ParseNextKey it = Some (False, it')" "bi_at cs rs it' None" using ParseNextKey_end "0.prems" j by blast
  moreover have "lower (Compare cmp) target (map cell_kv cs) = length cs"
    using "0.prems" j by (intro lower_eqI) (auto simp: cell_kv_def)
  ultimately show ?case by (subst Seek_linear.simps) (simp add: at_pos_def)
next
  case (Suc n)
  then have j: "j < length cs" by simp
  obtain it' where it': "ParseNextKey it = Some (True, it')" "bi_at cs rs it' (Some j)"
    using ParseNextKey_ready [OF Suc(3) j] by blast
  then have key: "bi_key it' = c_key (cs ! j)" by (simp add: bi_at_def)
  show ?case
  proof (cases "Compare cmp (c_key (cs ! j)) target < 0")
    case True
    then have "\<And>i. i < Suc j \<Longrightarrow> Compare cmp (c_key (cs ! i)) target < 0" using Suc.prems(2) by (auto simp: less_Suc_eq)
    then show ?thesis using True it' key Suc(1) [OF _ bi_at_ready [OF it'(2)]] Suc(2)
      by (subst Seek_linear.simps) (simp add: not_le [THEN iffD2, OF True])
  next
    case False
    then have "lower (Compare cmp) target (map cell_kv cs) = j"
      using Suc.prems(2) j by (intro lower_eqI) (auto simp: cell_kv_def)
    then show ?thesis using False it' key j by (subst Seek_linear.simps) (simp add: at_pos_def)
  qed
qed

definition block_at :: "Comparator \<Rightarrow> (slice \<Rightarrow> bool) \<Rightarrow> BlockIter \<Rightarrow> kv list \<Rightarrow> nat option \<Rightarrow> bool" where
  "block_at cmp ok it xs p \<longleftrightarrow> (\<exists>cs rs. bi_at cs rs it p \<and> xs = map cell_kv cs \<and> kv_sorted (Compare cmp) ok xs)"

lemma bi_at_rep: "bi_at cs rs it p \<Longrightarrow> bi_rep cs rs it"
  by (simp add: bi_at_def)

lemma at_pos_map [simp]: "at_pos (map f xs) n = at_pos xs n" "last_pos (map f xs) = last_pos xs"
  by (simp_all add: at_pos_def last_pos_def)

lemma bi_at_value:
  assumes "bi_at cs rs it (Some i)" shows "bi_value it = c_value (cs ! i)"
proof -
  have i: "i < length cs" using assms by (simp add: bi_at_def)
  have d: "bi_data it = cells_bytes (take i cs) @ cell_header (cs ! i) @ drop (c_shared (cs ! i)) (c_key (cs ! i)) @
      c_value (cs ! i) @ cells_bytes (drop (Suc i) cs) @ restart_array cs rs"
    using assms cells_split [OF i] by (simp add: bi_at_def bi_rep_def block_bytes_def cell_bytes_def)
  have "bi_value_at it = length (cells_bytes (take i cs)) + length (cell_header (cs ! i)) + (length (c_key (cs ! i)) - c_shared (cs ! i))"
    using assms cell_off_Suc [OF i] by (simp add: bi_at_def cell_off_def cell_bytes_def)
  then show ?thesis using assms by (simp add: bi_value_def d bi_at_def)
qed

context comparator_law
begin

lemma bi_Seek_at:
  assumes at: "bi_at cs rs it p" and sorted: "kv_sorted (Compare cmp) ok (map cell_kv cs)" and k: "ok target"
  shows "\<exists>it'. bi_Seek cmp target it = Some it' \<and>
    bi_at cs rs it' (at_pos cs (lower (Compare cmp) target (map cell_kv cs)))"
proof -
  note rep = bi_at_rep [OF at]
  have rs: "0 < length rs" "rs ! 0 = 0" "bi_num_restarts it = length rs" using rep by (auto simp: bi_rep_def restarts_ok_def)
  have oks: "ok (c_key (cs ! i))" if "i < length cs" for i
    using kv_sorted_nth(2) [OF sorted, of i] that by (simp add: cell_kv_def)
  have before: "Compare cmp (c_key (cs ! i)) target < 0"
    if "i \<le> j" "j < length cs" "Compare cmp (c_key (cs ! j)) target < 0" for i j
    using kv_sorted_nth(1) [OF sorted, of i j] that oks ord.ko_less_trans [of "c_key (cs ! i)" "c_key (cs ! j)" target] k
    by (cases "i = j") (auto simp: cell_kv_def)
  have scan: "\<exists>it'. Seek_linear cmp target (SeekToRestartPoint l it) = Some it' \<and>
      bi_at cs rs it' (at_pos cs (lower (Compare cmp) target (map cell_kv cs)))"
    if "l < length rs" "l = 0 \<or> rs ! l < length cs \<and> Compare cmp (c_key (cs ! (rs ! l))) target < 0" for l
    using that rs before [of _ "rs ! l"] by (intro Seek_linear_spec [OF ready_at_restart [OF rep that(1)]]) auto
  show ?thesis
  proof (cases p)
    case None
    then have nv: "\<not> bi_Valid it" using bi_at_Valid [OF at] by simp
    obtain l where l: "Seek_search cmp it target 0 (length rs - 1) = Some (Some l)" "l < length rs"
      "l = 0 \<or> rs ! l < length cs \<and> Compare cmp (c_key (cs ! (rs ! l))) target < 0"
      using Seek_search_spec [OF rep, of 0 "length rs - 1" cmp target] rs(1) by auto
    then show ?thesis using scan [OF l(2,3)] nv rs(3) by (simp add: bi_Seek_def Let_def)
  next
    case (Some i)
    let ?r = "bi_restart_index it"
    have v: "bi_Valid it" using bi_at_Valid [OF at] Some by simp
    have i: "i < length cs" "bi_key it = c_key (cs ! i)" "?r < length rs" "rs ! ?r \<le> i"
      using at Some by (simp_all add: bi_at_def in_restart_def)
    have r': "?r \<le> length rs - 1" "length rs - 1 < length rs" using i(3) by simp_all
    consider (less) "Compare cmp (c_key (cs ! i)) target < 0" | (eq) "Compare cmp (c_key (cs ! i)) target = 0"
      | (more) "Compare cmp (c_key (cs ! i)) target > 0" by linarith
    then show ?thesis
    proof cases
      case less
      obtain l where l: "Seek_search cmp it target ?r (length rs - 1) = Some (Some l)" "l < length rs"
        "l = ?r \<or> rs ! l < length cs \<and> Compare cmp (c_key (cs ! (rs ! l))) target < 0"
        using Seek_search_spec [OF rep r', of cmp target] by auto
      have all: "\<And>i'. i' < Suc i \<Longrightarrow> Compare cmp (c_key (cs ! i')) target < 0" using before [OF _ i(1) less] by auto
      show ?thesis
      proof (cases "l = ?r")
        case True
        then show ?thesis using Seek_linear_spec [OF bi_at_ready [OF at [unfolded Some]] all] l(1) less v i(2) rs(3)
          by (simp add: bi_Seek_def Let_def)
      next
        case False
        then show ?thesis using scan [OF l(2)] l(1,3) less v i(2) rs(3) by (simp add: bi_Seek_def Let_def)
      qed
    next
      case eq
      have "lower (Compare cmp) target (map cell_kv cs) = i"
      proof (rule lower_eqI)
        fix i' assume "i' < i"
        then show "Compare cmp (fst (map cell_kv cs ! i')) target < 0"
          using kv_sorted_nth(1) [OF sorted, of i' i] i(1) eq oks [of i'] oks [of i] k
            ord.ko_less_le [of "c_key (cs ! i')" "c_key (cs ! i)" target] by (simp add: cell_kv_def)
      qed (use i eq in \<open>auto simp: cell_kv_def\<close>)
      then show ?thesis using eq v i at Some by (simp add: bi_Seek_def Let_def at_pos_def)
    next
      case more
      obtain l where l: "Seek_search cmp it target 0 ?r = Some (Some l)" "l < length rs"
        "l = 0 \<or> rs ! l < length cs \<and> Compare cmp (c_key (cs ! (rs ! l))) target < 0"
        using Seek_search_spec [OF rep, of 0 ?r cmp target] i(3) by auto
      then show ?thesis using scan [OF l(2,3)] more v i(2) rs(3) by (simp add: bi_Seek_def Let_def)
    qed
  qed
qed

end

sublocale comparator_law \<subseteq> block: list_iterator "Compare cmp" ok "block_Iter cmp" "block_at cmp ok"
proof
  fix it xs p
  assume at: "block_at cmp ok it xs p"
  then obtain cs rs where cs: "bi_at cs rs it p" "xs = map cell_kv cs" "kv_sorted (Compare cmp) ok (map cell_kv cs)"
    by (auto simp: block_at_def)
  have I: "\<exists>it'. e = Some it' \<and> block_at cmp ok it' xs q" if "\<exists>it'. e = Some it' \<and> bi_at cs rs it' q" for e q
    using that cs by (auto simp: block_at_def)
  show "kv_sorted (Compare cmp) ok xs" using cs by simp
  show "it_Valid (block_Iter cmp) it = (p \<noteq> None)" using bi_at_Valid [OF cs(1)] by (simp add: block_Iter_def)
  show "it_status (block_Iter cmp) it = Status_OK" using cs by (simp add: block_Iter_def bi_at_def bi_rep_def)
  show "\<exists>it'. it_SeekToFirst (block_Iter cmp) it = Some it' \<and> block_at cmp ok it' xs (at_pos xs 0)"
    using I [OF bi_SeekToFirst_at [OF bi_at_rep [OF cs(1)]]] cs(2) by (simp add: block_Iter_def)
  show "\<exists>it'. it_SeekToLast (block_Iter cmp) it = Some it' \<and> block_at cmp ok it' xs (last_pos xs)"
    using I [OF bi_SeekToLast_at [OF bi_at_rep [OF cs(1)]]] cs(2) by (simp add: block_Iter_def)
  show "\<exists>it'. it_Seek (block_Iter cmp) k it = Some it' \<and> block_at cmp ok it' xs (at_pos xs (lower (Compare cmp) k xs))"
    if "ok k" for k
    using I [OF bi_Seek_at [OF cs(1,3) that]] cs(2) by (simp add: block_Iter_def)
next
  fix it xs i
  assume at: "block_at cmp ok it xs (Some i)"
  then obtain cs rs where cs: "bi_at cs rs it (Some i)" "xs = map cell_kv cs" "kv_sorted (Compare cmp) ok (map cell_kv cs)"
    by (auto simp: block_at_def)
  have I: "\<exists>it'. e = Some it' \<and> block_at cmp ok it' xs q" if "\<exists>it'. e = Some it' \<and> bi_at cs rs it' q" for e q
    using that cs by (auto simp: block_at_def)
  show "i < length xs" "it_key (block_Iter cmp) it = fst (xs ! i)"
    using cs by (simp_all add: bi_at_def block_Iter_def cell_kv_def)
  show "it_value (block_Iter cmp) it = snd (xs ! i)"
    using bi_at_value [OF cs(1)] cs by (simp add: bi_at_def block_Iter_def cell_kv_def)
  show "\<exists>it'. it_Next (block_Iter cmp) it = Some it' \<and> block_at cmp ok it' xs (at_pos xs (Suc i))"
    using I [of "bi_Next it" "at_pos cs (Suc i)"] parse_ready_pos [OF bi_at_ready [OF cs(1)]] cs(2) by (auto simp: block_Iter_def bi_Next_def)
  show "\<exists>it'. it_Prev (block_Iter cmp) it = Some it' \<and> block_at cmp ok it' xs (prev_pos i)"
    using I [OF bi_Prev_at [OF cs(1)]] cs(2) by (simp add: block_Iter_def)
qed

section \<open>A whole block\<close>

text \<open>The entries an iterator delivers from its position to the end.\<close>

partial_function (option) it_scan :: "'i Iterator \<Rightarrow> 'i \<Rightarrow> kv list \<Rightarrow> kv list option" where
  "it_scan I it acc =
     (if it_Valid I it
      then (case it_Next I it of None \<Rightarrow> None | Some it' \<Rightarrow> it_scan I it' (acc @ [(it_key I it, it_value I it)]))
      else Some acc)"

context list_iterator
begin

lemma scan_from: "at it xs (at_pos xs j) \<Longrightarrow> it_scan I it acc = Some (acc @ drop j xs)"
proof (induction "length xs - j" arbitrary: it j acc)
  case 0
  then have "\<not> it_Valid I it" using at_valid [OF "0.prems"] by (simp add: at_pos_def)
  then show ?case using 0 by (subst it_scan.simps) simp
next
  case (Suc n)
  then have j: "j < length xs" by simp
  then have at: "at it xs (Some j)" using Suc.prems by (simp add: at_pos_def)
  obtain it' where it': "it_Next I it = Some it'" "at it' xs (at_pos xs (Suc j))" using at_Next [OF at] by blast
  have "it_Valid I it" "(it_key I it, it_value I it) = xs ! j"
    using at_valid [OF at] at_key [OF at] at_value [OF at] by simp_all
  then show ?case using Suc(1) [OF _ it'(2)] Suc(2) it'(1) j by (subst it_scan.simps) (simp add: Cons_nth_drop_Suc)
qed

end

lemma length_restart_array: "length (restart_array cs rs) = 4 * length rs + 4"
  by (simp add: restart_array_def length_concat comp_def sum_list_triv)

lemma NewIterator_rep:
  assumes "cells_ok [] cs" "restarts_ok cs rs" "length (block_bytes cs rs) < 2 ^ 32"
  shows "Block_NewIterator (new_Block (block_bytes cs rs)) =
      Inr (new_BlockIter (block_bytes cs rs) (length (cells_bytes cs)) (length rs))" (is ?new)
    and "bi_at cs rs (new_BlockIter (block_bytes cs rs) (length (cells_bytes cs)) (length rs)) None" (is ?at)
proof -
  have len: "length (block_bytes cs rs) = length (cells_bytes cs) + 4 * length rs + 4"
    by (simp add: block_bytes_def length_restart_array)
  have "drop (length (block_bytes cs rs) - 4) (block_bytes cs rs) = EncodeFixed32 (of_nat (length rs))"
    by (simp add: len) (simp add: block_bytes_def restart_array_def length_concat comp_def sum_list_triv)
  then have n: "NumRestarts (block_bytes cs rs) (length (block_bytes cs rs)) = of_nat (length rs)"
    by (simp add: NumRestarts_def codec_simps)
  have u: "unat (of_nat (length rs) :: u32) = length rs" using assms(3) len by (simp add: unat_of_nat_small)
  have u1: "unat (1 + of_nat (length rs) :: u32) = Suc (length rs)"
    using unat_of_nat_small [where 'a = 32, of "Suc (length rs)"] assms(3) len by simp
  have "rs \<noteq> []" using assms(2) by (simp add: restarts_ok_def)
  then show ?new using assms(3) unfolding new_Block_def Block_NewIterator_def Let_def
    by (simp add: n u u1) (simp add: len)
  show ?at using assms by (simp add: bi_at_def bi_rep_def new_BlockIter_def)
qed

definition block_of :: "nat \<Rightarrow> kv list \<Rightarrow> slice" where
  "block_of ri xs = fst (BB_Finish (build_block ri xs new_BlockBuilder))"

lemma block_of_iterator:
  assumes "kv_sorted (Compare cmp) ok xs" "1 \<le> ri" "length (block_of ri xs) < 2 ^ 32"
  shows "\<exists>it. Block_NewIterator (new_Block (block_of ri xs)) = Inr it \<and> block_at cmp ok it xs None"
proof -
  obtain cs rs where rep: "bb_rep cs rs (build_block ri xs new_BlockBuilder)" and xs: "map cell_kv cs = xs"
    using bb_rep_build [OF bb_rep_new assms(2), of xs] by auto
  then have b: "block_of ri xs = block_bytes cs rs" using bb_rep_Finish by (simp add: block_of_def)
  have "cells_ok [] cs" "restarts_ok cs rs" using rep by (simp_all add: bb_rep_def)
  from NewIterator_rep [OF this] show ?thesis using assms b xs by (auto simp: block_at_def)
qed



section \<open>Properties\<close>

text \<open>C35. A block built from any list of entries with increasing keys, for any restart interval, and opened again gives an
  iterator that delivers exactly the entries: scanning from the first returns the list, and seeking any key and scanning
  from there returns the entries from the first one at or past the key. None of these reads outside the block.\<close>

theorem block_roundtrip:
  assumes "kv_sorted (Compare BytewiseComparator) (\<lambda>_. True) xs" "1 \<le> ri" "length (block_of ri xs) < 2 ^ 32"
  shows "\<exists>it it1 it2. Block_NewIterator (new_Block (block_of ri xs)) = Inr it \<and>
    bi_SeekToFirst it = Some it1 \<and> it_scan (block_Iter BytewiseComparator) it1 [] = Some xs \<and>
    bi_Seek BytewiseComparator k it = Some it2 \<and>
    it_scan (block_Iter BytewiseComparator) it2 [] = Some (drop (lower (Compare BytewiseComparator) k xs) xs)"
proof -
  obtain it where it: "Block_NewIterator (new_Block (block_of ri xs)) = Inr it" "block_at BytewiseComparator (\<lambda>_. True) it xs None"
    using block_of_iterator [OF assms] by blast
  obtain it1 it2 where "bi_SeekToFirst it = Some it1" "block_at BytewiseComparator (\<lambda>_. True) it1 xs (at_pos xs 0)"
    "bi_Seek BytewiseComparator k it = Some it2"
    "block_at BytewiseComparator (\<lambda>_. True) it2 xs (at_pos xs (lower (Compare BytewiseComparator) k xs))"
    using bytewise.block.at_SeekToFirst [OF it(2)] bytewise.block.at_Seek [OF it(2), of k] by (auto simp: block_Iter_def)
  then show ?thesis using it(1) bytewise.block.scan_from [of it1 xs 0 "[]"] bytewise.block.scan_from [of it2 xs _ "[]"] by auto
qed

theorem block_roundtrip_witness:
  "\<exists>it it1 it2. Block_NewIterator (new_Block (block_of 2 [([1], [7]), ([1, 2], [8]), ([3], [9])])) = Inr it \<and>
    bi_SeekToFirst it = Some it1 \<and>
    it_scan (block_Iter BytewiseComparator) it1 [] = Some [([1], [7]), ([1, 2], [8]), ([3], [9])] \<and>
    bi_Seek BytewiseComparator [1, 1] it = Some it2 \<and>
    it_scan (block_Iter BytewiseComparator) it2 [] = Some [([1, 2], [8]), ([3], [9])]"
proof -
  have "kv_sorted (Compare BytewiseComparator) (\<lambda>_. True) [([1], [7]), ([1, 2], [8]), ([3], [9])]" by code_simp
  moreover have "length (block_of 2 [([1], [7]), ([1, 2], [8]), ([3], [9])]) = 27" by code_simp
  moreover have "lower (Compare BytewiseComparator) [1, 1] [([1], [7]), ([1, 2], [8]), ([3], [9])] = 1" by code_simp
  ultimately show ?thesis using block_roundtrip [of "[([1], [7]), ([1, 2], [8]), ([3], [9])]" 2 "[1, 1]"] by simp
qed



end
