(* ===== verification/Merger.thy ===== *)
theory Merger
  imports Block_Iter "HOL-Library.Multiset"
begin

text \<open>
  \<^verbatim>\<open>table/merger.cc\<close>: the merging iterator over an array of children. The current child is its index. Over children that
  implement sorted lists without common keys it is shown to implement the sorted list of all their entries, in both
  directions and with changes of direction.
\<close>

datatype Direction = kForward | kReverse

record 'i MergingIterator =
  mg_children :: "'i IteratorWrapper list"
  mg_current :: "nat option"
  mg_direction :: Direction

definition new_MergingIterator :: "'i Iterator \<Rightarrow> 'i list \<Rightarrow> 'i MergingIterator" where
  "new_MergingIterator I children =
     \<lparr> mg_children = map (\<lambda>c. iw_Set I (Some c) new_IteratorWrapper) children, mg_current = None, mg_direction = kForward \<rparr>"

text \<open>The loop body of \<open>FindSmallest\<close> and \<open>FindLargest\<close>: the better of the best so far and a valid child.\<close>

definition better :: "(slice \<Rightarrow> slice \<Rightarrow> bool) \<Rightarrow> 'i IteratorWrapper list \<Rightarrow> nat option \<Rightarrow> nat \<Rightarrow> nat option" where
  "better beats children best i =
     (let child = children ! i in
      if iw_valid child then
        (case best of None \<Rightarrow> Some i
         | Some b \<Rightarrow> if beats (iw_key child) (iw_key (children ! b)) then Some i else Some b)
      else best)"

definition FindSmallest :: "(slice \<Rightarrow> slice \<Rightarrow> int) \<Rightarrow> 'i MergingIterator \<Rightarrow> 'i MergingIterator" where
  "FindSmallest cmp m = m\<lparr> mg_current :=
     foldl (better (\<lambda>a b. cmp a b < 0) (mg_children m)) None [0..<length (mg_children m)] \<rparr>"

definition FindLargest :: "(slice \<Rightarrow> slice \<Rightarrow> int) \<Rightarrow> 'i MergingIterator \<Rightarrow> 'i MergingIterator" where
  "FindLargest cmp m = m\<lparr> mg_current :=
     foldl (better (\<lambda>a b. cmp a b > 0) (mg_children m)) None (rev [0..<length (mg_children m)]) \<rparr>"

text \<open>An operation on every child, with its index.\<close>

fun children_do :: "(nat \<Rightarrow> 'w \<Rightarrow> 'w option) \<Rightarrow> nat \<Rightarrow> 'w list \<Rightarrow> 'w list option" where
  "children_do f i [] = Some []"
| "children_do f i (w # ws) =
     (case f i w of None \<Rightarrow> None | Some w' \<Rightarrow> map_option (\<lambda>ws'. w' # ws') (children_do f (Suc i) ws))"

definition mg_all :: "(nat \<Rightarrow> 'i IteratorWrapper \<Rightarrow> 'i IteratorWrapper option) \<Rightarrow> 'i MergingIterator \<Rightarrow> 'i MergingIterator option" where
  "mg_all f m = map_option (\<lambda>ws. m\<lparr> mg_children := ws \<rparr>) (children_do f 0 (mg_children m))"

definition mg_SeekToFirst :: "(slice \<Rightarrow> slice \<Rightarrow> int) \<Rightarrow> 'i Iterator \<Rightarrow> 'i MergingIterator \<Rightarrow> 'i MergingIterator option" where
  "mg_SeekToFirst cmp I m = map_option (\<lambda>m. (FindSmallest cmp m)\<lparr> mg_direction := kForward \<rparr>) (mg_all (\<lambda>_. iw_SeekToFirst I) m)"

definition mg_SeekToLast :: "(slice \<Rightarrow> slice \<Rightarrow> int) \<Rightarrow> 'i Iterator \<Rightarrow> 'i MergingIterator \<Rightarrow> 'i MergingIterator option" where
  "mg_SeekToLast cmp I m = map_option (\<lambda>m. (FindLargest cmp m)\<lparr> mg_direction := kReverse \<rparr>) (mg_all (\<lambda>_. iw_SeekToLast I) m)"

definition mg_Seek :: "(slice \<Rightarrow> slice \<Rightarrow> int) \<Rightarrow> 'i Iterator \<Rightarrow> slice \<Rightarrow> 'i MergingIterator \<Rightarrow> 'i MergingIterator option" where
  "mg_Seek cmp I target m =
     map_option (\<lambda>m. (FindSmallest cmp m)\<lparr> mg_direction := kForward \<rparr>) (mg_all (\<lambda>_. iw_Seek I target) m)"

definition mg_key :: "'i MergingIterator \<Rightarrow> slice" where
  "mg_key m = iw_key (mg_children m ! the (mg_current m))"

definition mg_value :: "'i Iterator \<Rightarrow> 'i MergingIterator \<Rightarrow> slice" where
  "mg_value I m = iw_value I (mg_children m ! the (mg_current m))"

text \<open>Positioning the other children after the current key, before it.\<close>

definition child_after :: "(slice \<Rightarrow> slice \<Rightarrow> int) \<Rightarrow> 'i Iterator \<Rightarrow> nat \<Rightarrow> slice \<Rightarrow> nat \<Rightarrow> 'i IteratorWrapper \<Rightarrow> 'i IteratorWrapper option" where
  "child_after cmp I current key i child =
     (if i \<noteq> current then
        (case iw_Seek I key child of None \<Rightarrow> None
         | Some child \<Rightarrow> if iw_valid child \<and> cmp key (iw_key child) = 0 then iw_Next I child else Some child)
      else Some child)"

definition child_before :: "'i Iterator \<Rightarrow> nat \<Rightarrow> slice \<Rightarrow> nat \<Rightarrow> 'i IteratorWrapper \<Rightarrow> 'i IteratorWrapper option" where
  "child_before I current key i child =
     (if i \<noteq> current then
        (case iw_Seek I key child of None \<Rightarrow> None
         | Some child \<Rightarrow> if iw_valid child then iw_Prev I child else iw_SeekToLast I child)
      else Some child)"

definition mg_step_current :: "('i IteratorWrapper \<Rightarrow> 'i IteratorWrapper option) \<Rightarrow> 'i MergingIterator \<Rightarrow> 'i MergingIterator option" where
  "mg_step_current f m =
     (case mg_current m of None \<Rightarrow> None
      | Some c \<Rightarrow> map_option (\<lambda>w. m\<lparr> mg_children := (mg_children m)[c := w] \<rparr>) (f (mg_children m ! c)))"

definition mg_Next :: "(slice \<Rightarrow> slice \<Rightarrow> int) \<Rightarrow> 'i Iterator \<Rightarrow> 'i MergingIterator \<Rightarrow> 'i MergingIterator option" where
  "mg_Next cmp I m =
     (case (if mg_direction m \<noteq> kForward
            then map_option (\<lambda>m. m\<lparr> mg_direction := kForward \<rparr>) (mg_all (child_after cmp I (the (mg_current m)) (mg_key m)) m)
            else Some m) of
        None \<Rightarrow> None
      | Some m \<Rightarrow> map_option (FindSmallest cmp) (mg_step_current (iw_Next I) m))"

definition mg_Prev :: "(slice \<Rightarrow> slice \<Rightarrow> int) \<Rightarrow> 'i Iterator \<Rightarrow> 'i MergingIterator \<Rightarrow> 'i MergingIterator option" where
  "mg_Prev cmp I m =
     (case (if mg_direction m \<noteq> kReverse
            then map_option (\<lambda>m. m\<lparr> mg_direction := kReverse \<rparr>) (mg_all (child_before I (the (mg_current m)) (mg_key m)) m)
            else Some m) of
        None \<Rightarrow> None
      | Some m \<Rightarrow> map_option (FindLargest cmp) (mg_step_current (iw_Prev I) m))"

fun mg_status_loop :: "'i Iterator \<Rightarrow> 'i IteratorWrapper list \<Rightarrow> Status \<Rightarrow> Status" where
  "mg_status_loop I [] st = st"
| "mg_status_loop I (w # ws) st =
     (let st = iw_status I w in if \<not> status_ok st then st else mg_status_loop I ws st)"

definition mg_status :: "'i Iterator \<Rightarrow> 'i MergingIterator \<Rightarrow> Status" where
  "mg_status I m = mg_status_loop I (mg_children m) Status_OK"

definition Merging :: "(slice \<Rightarrow> slice \<Rightarrow> int) \<Rightarrow> 'i Iterator \<Rightarrow> 'i MergingIterator Iterator" where
  "Merging cmp I = \<lparr> it_Valid = (\<lambda>m. mg_current m \<noteq> None), it_SeekToFirst = mg_SeekToFirst cmp I, it_SeekToLast = mg_SeekToLast cmp I,
     it_Seek = mg_Seek cmp I, it_Next = mg_Next cmp I, it_Prev = mg_Prev cmp I, it_key = mg_key, it_value = mg_value I,
     it_status = mg_status I \<rparr>"

text \<open>\<open>NewMergingIterator\<close> merges only two or more children.\<close>

datatype 'i merged = MEmpty Status | MChild 'i | MMany "'i MergingIterator"

definition NewMergingIterator :: "'i Iterator \<Rightarrow> 'i list \<Rightarrow> 'i merged" where
  "NewMergingIterator I children =
     (case children of [] \<Rightarrow> MEmpty NewEmptyIterator | [c] \<Rightarrow> MChild c | _ \<Rightarrow> MMany (new_MergingIterator I children))"

section \<open>Choosing a child\<close>

definition best_of :: "'i IteratorWrapper list \<Rightarrow> nat \<Rightarrow> nat set \<Rightarrow> nat option \<Rightarrow> bool" where
  "best_of ws c S r \<longleftrightarrow> (if c \<in> S then r = Some c else case r of None \<Rightarrow> True | Some d \<Rightarrow> d \<in> S \<and> iw_valid (ws ! d))"

lemma better_step:
  assumes "best_of ws c S r" "iw_valid (ws ! c)"
    and "\<And>d. d \<in> insert i S \<Longrightarrow> d \<noteq> c \<Longrightarrow> iw_valid (ws ! d) \<Longrightarrow>
      beats (iw_key (ws ! c)) (iw_key (ws ! d)) \<and> \<not> beats (iw_key (ws ! d)) (iw_key (ws ! c))"
  shows "best_of ws c (insert i S) (better beats ws r i)"
proof (cases "c \<in> S")
  case True
  then show ?thesis using assms by (cases "i = c") (auto simp: best_of_def better_def Let_def)
next
  case False
  then show ?thesis using assms by (cases "i = c") (auto simp: best_of_def better_def Let_def split: option.splits)
qed

lemma better_fold:
  assumes "c \<in> set is" "iw_valid (ws ! c)"
    and wins: "\<And>d. d \<in> set is \<Longrightarrow> d \<noteq> c \<Longrightarrow> iw_valid (ws ! d) \<Longrightarrow>
      beats (iw_key (ws ! c)) (iw_key (ws ! d)) \<and> \<not> beats (iw_key (ws ! d)) (iw_key (ws ! c))"
  shows "foldl (better beats ws) None is = Some c"
proof -
  have "best_of ws c (set is) (foldl (better beats ws) None is)" using wins
  proof (induction "is" rule: rev_induct)
    case (snoc i "is")
    then show ?case using better_step [OF _ assms(2), of "set is" _ i beats] by simp
  qed (simp add: best_of_def)
  then show ?thesis using assms(1) by (simp add: best_of_def)
qed

lemma better_fold_none: "(\<And>d. d \<in> set is \<Longrightarrow> \<not> iw_valid (ws ! d)) \<Longrightarrow> foldl (better beats ws) None is = None"
  by (induction "is" rule: rev_induct) (simp_all add: better_def Let_def)

lemma children_do_all:
  assumes "length ws = n" "\<And>d. d < n \<Longrightarrow> \<exists>w'. f (i + d) (ws ! d) = Some w' \<and> P d w'"
  shows "\<exists>ws'. children_do f i ws = Some ws' \<and> length ws' = n \<and> (\<forall>d < n. P d (ws' ! d))"
  using assms
proof (induction ws arbitrary: i n P)
  case (Cons w ws)
  obtain k where n: "n = Suc k" "length ws = k" using Cons.prems(1) by (cases n) auto
  obtain w' where w': "f i w = Some w'" "P 0 w'" using Cons.prems(2) [of 0] n by auto
  have "\<exists>ws'. children_do f (Suc i) ws = Some ws' \<and> length ws' = k \<and> (\<forall>d < k. P (Suc d) (ws' ! d))"
    using Cons.prems(2) [of "Suc _"] n by (intro Cons.IH) auto
  then show ?case using w' n by (auto simp: less_Suc_eq_0_disj)
qed simp

lemma mg_status_loop_OK: "\<forall>w \<in> set ws. iw_status I w = Status_OK \<Longrightarrow> mg_status_loop I ws Status_OK = Status_OK"
  by (induction ws) (auto simp: Let_def status_ok_def Status_OK_def)

section \<open>Ranks in the merged list\<close>

locale merging = list_iterator cmp ok I at
  for cmp :: "slice \<Rightarrow> slice \<Rightarrow> int" and ok :: "slice \<Rightarrow> bool" and I :: "'i Iterator" and at
begin

text \<open>The rank of an entry in the merged list, and the number of entries of a child that come before a rank.\<close>

definition rank :: "kv list \<Rightarrow> kv \<Rightarrow> nat" where
  "rank xs e = lower cmp (fst e) xs"

definition before_rank :: "kv list \<Rightarrow> kv list \<Rightarrow> nat \<Rightarrow> nat" where
  "before_rank xs ys n = length (takeWhile (\<lambda>e. rank xs e < n) ys)"

lemma rank_nth:
  assumes "kv_sorted cmp ok xs" "i < length xs"
  shows "rank xs (xs ! i) = i"
  unfolding rank_def
  using assms kv_sorted_nth(1) [OF assms(1)] ko_refl [OF kv_sorted_nth(2) [OF assms]] by (intro lower_eqI) auto

lemma rank_mem:
  assumes "kv_sorted cmp ok xs" "e \<in> set xs"
  shows "rank xs e < length xs" "xs ! rank xs e = e"
  using assms rank_nth [OF assms(1)] by (auto simp: in_set_conv_nth)

lemma rank_less_iff:
  assumes s: "kv_sorted cmp ok xs" and "a \<in> set xs" "b \<in> set xs"
  shows "cmp (fst a) (fst b) < 0 \<longleftrightarrow> rank xs a < rank xs b"
proof -
  note a = rank_mem [OF s assms(2)] and b = rank_mem [OF s assms(3)]
  have ok: "ok (fst a)" "ok (fst b)" using s assms(2,3) by (auto simp: kv_sorted_def)
  show ?thesis
  proof (cases "rank xs a" "rank xs b" rule: linorder_cases)
    case less
    then show ?thesis using kv_sorted_nth(1) [OF s less b(1)] a b by simp
  next
    case equal
    then have "a = b" using a b by metis
    then show ?thesis using ko_refl ok by simp
  next
    case greater
    then have "cmp (fst b) (fst a) < 0" using kv_sorted_nth(1) [OF s greater a(1)] a b by simp
    then show ?thesis using ko_antisym [of "fst a" "fst b"] ko_antisym [of "fst b" "fst a"] ok greater by simp
  qed
qed

lemma before_rank_iff:
  assumes s: "kv_sorted cmp ok xs" "kv_sorted cmp ok ys" and sub: "set ys \<subseteq> set xs" and i: "i < length ys"
  shows "i < before_rank xs ys n \<longleftrightarrow> rank xs (ys ! i) < n"
proof
  show "i < before_rank xs ys n \<Longrightarrow> rank xs (ys ! i) < n"
    unfolding before_rank_def by (metis (mono_tags, lifting) nth_mem set_takeWhileD takeWhile_nth)
  assume less: "rank xs (ys ! i) < n"
  show "i < before_rank xs ys n"
  proof (rule ccontr)
    let ?j = "before_rank xs ys n"
    assume "\<not> i < ?j"
    then have j: "?j \<le> i" "?j < length ys" using i by simp_all
    then have "\<not> rank xs (ys ! ?j) < n" unfolding before_rank_def by (metis nth_length_takeWhile)
    moreover have mem: "ys ! ?j \<in> set xs" "ys ! i \<in> set xs" using j i sub by auto
    have "rank xs (ys ! ?j) \<le> rank xs (ys ! i)"
      using kv_sorted_nth(1) [OF s(2), of ?j i] j i rank_less_iff [OF s(1) mem]
      by (cases "?j = i") auto
    ultimately show False using less by simp
  qed
qed

lemma before_rank_le: "before_rank xs ys n \<le> length ys"
  by (simp add: before_rank_def length_takeWhile_le)

lemma before_rank_eqI:
  assumes "kv_sorted cmp ok xs" "kv_sorted cmp ok ys" "set ys \<subseteq> set xs" "j \<le> length ys"
    and "\<And>i. i < length ys \<Longrightarrow> i < j \<longleftrightarrow> rank xs (ys ! i) < n"
  shows "before_rank xs ys n = j"
  using before_rank_iff [OF assms(1-3), of _ n] before_rank_le [of xs ys n] assms(4,5)
  by (metis le_less_trans linorder_neqE_nat order_less_irrefl less_le_trans)

lemma before_rank_own:
  assumes s: "kv_sorted cmp ok xs" "kv_sorted cmp ok ys" "set ys \<subseteq> set xs" and n: "n < length xs" "xs ! n \<in> set ys"
  shows "before_rank xs ys n < length ys" "ys ! before_rank xs ys n = xs ! n" "before_rank xs ys (Suc n) = Suc (before_rank xs ys n)"
proof -
  obtain j where j: "j < length ys" "ys ! j = xs ! n" using n(2) by (auto simp: in_set_conv_nth)
  have r: "rank xs (ys ! i) < n \<longleftrightarrow> i < j" "rank xs (ys ! i) < Suc n \<longleftrightarrow> i < Suc j" if i: "i < length ys" for i
  proof -
    have mem: "ys ! i \<in> set xs" "ys ! j \<in> set xs" using i j(1) s(3) by auto
    have rj: "rank xs (ys ! j) = n" using rank_nth [OF s(1) n(1)] j(2) by simp
    have lt: "a < b \<Longrightarrow> b < length ys \<Longrightarrow> rank xs (ys ! a) < rank xs (ys ! b)" for a b
      using kv_sorted_nth(1) [OF s(2), of a b] rank_less_iff [OF s(1), of "ys ! a" "ys ! b"] s(3) by (meson less_trans nth_mem subsetD)
    show "rank xs (ys ! i) < n \<longleftrightarrow> i < j" "rank xs (ys ! i) < Suc n \<longleftrightarrow> i < Suc j"
      using lt [of i j] lt [of j i] i j(1) rj by (cases i j rule: linorder_cases; auto)+
  qed
  have "before_rank xs ys n = j" by (rule before_rank_eqI [OF s]) (use j r in auto)
  moreover have "before_rank xs ys (Suc n) = Suc j" by (rule before_rank_eqI [OF s]) (use j r in auto)
  ultimately show "before_rank xs ys n < length ys" "ys ! before_rank xs ys n = xs ! n"
    "before_rank xs ys (Suc n) = Suc (before_rank xs ys n)" using j by simp_all
qed

lemma before_rank_other:
  assumes s: "kv_sorted cmp ok xs" "kv_sorted cmp ok ys" "set ys \<subseteq> set xs" and n: "xs ! n \<notin> set ys"
  shows "before_rank xs ys (Suc n) = before_rank xs ys n"
proof (rule before_rank_eqI [OF s before_rank_le])
  fix i assume i: "i < length ys"
  have "rank xs (ys ! i) \<noteq> n" using rank_mem(2) [OF s(1), of "ys ! i"] s(3) i n by (metis nth_mem subsetD)
  then show "i < before_rank xs ys n \<longleftrightarrow> rank xs (ys ! i) < Suc n" using before_rank_iff [OF s i, of n] by auto
qed

lemma before_rank_0 [simp]: "before_rank xs ys 0 = 0"
  by (simp add: before_rank_def takeWhile_eq_Nil_iff)

lemma before_rank_all:
  assumes "kv_sorted cmp ok xs" "kv_sorted cmp ok ys" "set ys \<subseteq> set xs" "length xs \<le> n"
  shows "before_rank xs ys n = length ys"
proof (rule before_rank_eqI [OF assms(1-3)])
  fix i assume i: "i < length ys"
  then have "ys ! i \<in> set xs" using assms(3) by auto
  then show "i < length ys \<longleftrightarrow> rank xs (ys ! i) < n" using rank_mem(1) [OF assms(1)] assms(4) i by (meson less_le_trans)
qed simp

lemma lower_before_rank:
  assumes s: "kv_sorted cmp ok xs" "kv_sorted cmp ok ys" "set ys \<subseteq> set xs" and k: "ok k"
  shows "lower cmp k ys = before_rank xs ys (lower cmp k xs)"
proof (rule sym, rule before_rank_eqI [OF s lower_le])
  fix i assume i: "i < length ys"
  let ?m = "rank xs (ys ! i)"
  have mem: "ys ! i \<in> set xs" using i s(3) by auto
  note m = rank_mem [OF s(1) mem]
  have "cmp (fst (ys ! i)) k < 0 \<longleftrightarrow> ?m < lower cmp k xs"
  proof
    show "?m < lower cmp k xs \<Longrightarrow> cmp (fst (ys ! i)) k < 0" using lower_less [of ?m cmp k xs] m(2) by simp
    assume c: "cmp (fst (ys ! i)) k < 0"
    show "?m < lower cmp k xs"
    proof (rule ccontr)
      assume "\<not> ?m < lower cmp k xs"
      then have l: "lower cmp k xs \<le> ?m" "lower cmp k xs < length xs" using m(1) by simp_all
      have okm: "ok (fst (xs ! lower cmp k xs))" "ok (fst (ys ! i))"
        using kv_sorted_nth(2) [OF s(1) l(2)] kv_sorted_nth(2) [OF s(2) i] by simp_all
      have "cmp (fst (xs ! lower cmp k xs)) k < 0"
        using kv_sorted_nth(1) [OF s(1), of "lower cmp k xs" ?m] l(1) m c ko_less_trans [OF okm k] by (cases "lower cmp k xs = ?m") auto
      then show False using lower_not_less [OF l(2)] by simp
    qed
  qed
  moreover have "i < lower cmp k ys \<longleftrightarrow> cmp (fst (ys ! i)) k < 0"
  proof
    assume c: "cmp (fst (ys ! i)) k < 0"
    show "i < lower cmp k ys"
    proof (rule ccontr)
      assume "\<not> i < lower cmp k ys"
      then have l: "lower cmp k ys \<le> i" "lower cmp k ys < length ys" using i by simp_all
      have "cmp (fst (ys ! lower cmp k ys)) k < 0"
        using kv_sorted_nth(1) [OF s(2), of "lower cmp k ys" i] l(1) i c
          ko_less_trans [OF kv_sorted_nth(2) [OF s(2) l(2)] kv_sorted_nth(2) [OF s(2) i] k] by (cases "lower cmp k ys = i") auto
      then show False using lower_not_less [OF l(2)] by simp
    qed
  qed (rule lower_less)
  ultimately show "i < lower cmp k ys \<longleftrightarrow> ?m < lower cmp k xs" by simp
qed

section \<open>States of the merging iterator\<close>

definition mg_lists :: "kv list list \<Rightarrow> kv list \<Rightarrow> bool" where
  "mg_lists xss xs \<longleftrightarrow> kv_sorted cmp ok xs \<and> set xs = \<Union> (set ` set xss) \<and> (\<forall>ys \<in> set xss. kv_sorted cmp ok ys) \<and>
     (\<forall>c < length xss. \<forall>d < length xss. c \<noteq> d \<longrightarrow> (\<forall>a \<in> set (xss ! c). \<forall>b \<in> set (xss ! d). cmp (fst a) (fst b) \<noteq> 0))"

definition placed :: "kv list list \<Rightarrow> 'i MergingIterator \<Rightarrow> (nat \<Rightarrow> nat option) \<Rightarrow> bool" where
  "placed xss m f \<longleftrightarrow> length (mg_children m) = length xss \<and> (\<forall>d < length xss. wrap_at (mg_children m ! d) (xss ! d) (f d))"

abbreviation (input) fwd :: "kv list list \<Rightarrow> kv list \<Rightarrow> nat \<Rightarrow> nat \<Rightarrow> nat option" where
  "fwd xss xs n \<equiv> \<lambda>d. at_pos (xss ! d) (before_rank xs (xss ! d) n)"

abbreviation (input) bwd :: "kv list list \<Rightarrow> kv list \<Rightarrow> nat \<Rightarrow> nat \<Rightarrow> nat option" where
  "bwd xss xs n \<equiv> \<lambda>d. prev_pos (before_rank xs (xss ! d) n)"

definition mg_at :: "'i MergingIterator \<Rightarrow> kv list \<Rightarrow> nat option \<Rightarrow> bool" where
  "mg_at m xs p \<longleftrightarrow> (\<exists>xss. mg_lists xss xs \<and>
     (case p of None \<Rightarrow> mg_current m = None \<and> (\<exists>f. placed xss m f)
      | Some n \<Rightarrow> n < length xs \<and> (\<exists>c < length xss. mg_current m = Some c \<and> xs ! n \<in> set (xss ! c) \<and>
          (mg_direction m = kForward \<and> placed xss m (fwd xss xs n) \<or> mg_direction m = kReverse \<and> placed xss m (bwd xss xs (Suc n))))))"

lemma mg_lists_child:
  assumes "mg_lists xss xs" "d < length xss"
  shows "kv_sorted cmp ok xs" "kv_sorted cmp ok (xss ! d)" "set (xss ! d) \<subseteq> set xs"
  using assms by (auto simp: mg_lists_def)

lemma owner:
  assumes "mg_lists xss xs" "n < length xs"
  obtains c where "c < length xss" "xs ! n \<in> set (xss ! c)"
proof -
  have "xs ! n \<in> \<Union> (set ` set xss)" using assms by (metis mg_lists_def nth_mem)
  then show thesis using that by (auto simp: in_set_conv_nth) (metis in_set_conv_nth)
qed

lemma owner_unique:
  assumes "mg_lists xss xs" "c < length xss" "d < length xss" "c \<noteq> d" "e \<in> set (xss ! c)"
  shows "e \<notin> set (xss ! d)"
proof
  assume "e \<in> set (xss ! d)"
  then have "cmp (fst e) (fst e) \<noteq> 0" using assms by (auto simp: mg_lists_def)
  moreover have "ok (fst e)" using mg_lists_child(2) [OF assms(1,2)] assms(5) by (auto simp: kv_sorted_def)
  ultimately show False using ko_refl by simp
qed

text \<open>Every valid child is at an entry of rank at least \<open>n\<close>, or below \<open>n\<close>.\<close>

lemma placed_fwd:
  assumes l: "mg_lists xss xs" and p: "placed xss m (fwd xss xs n)" and d: "d < length xss"
  shows "iw_valid (mg_children m ! d) \<Longrightarrow>
    \<exists>e \<in> set (xss ! d). iw_key (mg_children m ! d) = fst e \<and> n \<le> rank xs e"
proof -
  let ?j = "before_rank xs (xss ! d) n"
  have w: "wrap_at (mg_children m ! d) (xss ! d) (at_pos (xss ! d) ?j)" using p d by (simp add: placed_def)
  assume "iw_valid (mg_children m ! d)"
  then have j: "?j < length (xss ! d)" using wrap_facts(1) [OF w] by (simp add: at_pos_def split: if_splits)
  then have "iw_key (mg_children m ! d) = fst (xss ! d ! ?j)" using wrap_facts(2) [of "mg_children m ! d" "xss ! d" ?j] w by (simp add: at_pos_def)
  moreover have "n \<le> rank xs (xss ! d ! ?j)" using before_rank_iff [OF mg_lists_child [OF l d] j, of n] by simp
  ultimately show ?thesis using j nth_mem by blast
qed

lemma placed_bwd:
  assumes l: "mg_lists xss xs" and p: "placed xss m (bwd xss xs n)" and d: "d < length xss"
  shows "iw_valid (mg_children m ! d) \<Longrightarrow>
    \<exists>e \<in> set (xss ! d). iw_key (mg_children m ! d) = fst e \<and> rank xs e < n"
proof -
  let ?j = "before_rank xs (xss ! d) n"
  have w: "wrap_at (mg_children m ! d) (xss ! d) (prev_pos ?j)" using p d by (simp add: placed_def)
  assume "iw_valid (mg_children m ! d)"
  then have j0: "0 < ?j" using wrap_facts(1) [OF w] by (simp add: prev_pos_def split: if_splits)
  then have j: "?j - 1 < length (xss ! d)" "?j - 1 < ?j" using before_rank_le [of xs "xss ! d" n] by linarith+
  then have "iw_key (mg_children m ! d) = fst (xss ! d ! (?j - 1))"
    using wrap_facts(2) [of "mg_children m ! d" "xss ! d" "?j - 1"] w j0 by (simp add: prev_pos_def)
  moreover have "rank xs (xss ! d ! (?j - 1)) < n" using before_rank_iff [OF mg_lists_child [OF l d] j(1), of n] j(2) by simp
  ultimately show ?thesis using j(1) nth_mem by blast
qed

lemma placed_own:
  assumes l: "mg_lists xss xs" and c: "c < length xss" "xs ! n \<in> set (xss ! c)" and n: "n < length xs"
  shows "fwd xss xs n c = Some (before_rank xs (xss ! c) n)" "bwd xss xs (Suc n) c = Some (before_rank xs (xss ! c) n)"
    "placed xss m (fwd xss xs n) \<or> placed xss m (bwd xss xs (Suc n)) \<Longrightarrow>
      iw_valid (mg_children m ! c) \<and> iw_key (mg_children m ! c) = fst (xs ! n) \<and> iw_value I (mg_children m ! c) = snd (xs ! n)"
proof -
  note o = before_rank_own [OF mg_lists_child [OF l c(1)] n c(2)]
  show f: "fwd xss xs n c = Some (before_rank xs (xss ! c) n)" "bwd xss xs (Suc n) c = Some (before_rank xs (xss ! c) n)"
    using o by (simp_all add: at_pos_def prev_pos_def)
  assume "placed xss m (fwd xss xs n) \<or> placed xss m (bwd xss xs (Suc n))"
  then have "wrap_at (mg_children m ! c) (xss ! c) (Some (before_rank xs (xss ! c) n))" using f c(1) by (auto simp: placed_def)
  then show "iw_valid (mg_children m ! c) \<and> iw_key (mg_children m ! c) = fst (xs ! n) \<and> iw_value I (mg_children m ! c) = snd (xs ! n)"
    using wrap_facts(1-3) o(2) by fastforce
qed

lemma rank_owner:
  assumes l: "mg_lists xss xs" and c: "c < length xss" "xs ! n \<in> set (xss ! c)" and n: "n < length xs"
    and d: "d < length xss" "d \<noteq> c" "e \<in> set (xss ! d)"
  shows "rank xs e \<noteq> n" "cmp (fst (xs ! n)) (fst e) < 0 \<longleftrightarrow> n < rank xs e" "cmp (fst e) (fst (xs ! n)) < 0 \<longleftrightarrow> rank xs e < n"
proof -
  note s = mg_lists_child [OF l d(1)]
  have mem: "e \<in> set xs" "xs ! n \<in> set xs" using s(3) d(3) n by auto
  show "rank xs e \<noteq> n" using rank_mem(2) [OF s(1) mem(1)] owner_unique [OF l d(1) c(1) d(2,3)] c(2) by auto
  show "cmp (fst (xs ! n)) (fst e) < 0 \<longleftrightarrow> n < rank xs e" "cmp (fst e) (fst (xs ! n)) < 0 \<longleftrightarrow> rank xs e < n"
    using rank_less_iff [OF s(1) mem(2,1)] rank_less_iff [OF s(1) mem] rank_nth [OF s(1) n] by simp_all
qed

lemma placed_upd [simp]:
  "placed xss (m\<lparr> mg_current := x \<rparr>) f = placed xss m f" "placed xss (m\<lparr> mg_direction := y \<rparr>) f = placed xss m f"
  by (simp_all add: placed_def)

lemma mg_at_None: "mg_lists xss xs \<Longrightarrow> placed xss m f \<Longrightarrow> mg_current m = None \<Longrightarrow> mg_at m xs None"
  unfolding mg_at_def option.case by blast

lemma FindSmallest_at:
  assumes l: "mg_lists xss xs" and p: "placed xss m (fwd xss xs n)" and dir: "mg_direction m = kForward"
  shows "mg_at (FindSmallest cmp m) xs (at_pos xs n)"
proof (cases "n < length xs")
  case True
  obtain c where c: "c < length xss" "xs ! n \<in> set (xss ! c)" using owner [OF l True] .
  have len: "length (mg_children m) = length xss" using p by (simp add: placed_def)
  note own = placed_own(3) [OF l c True disjI1 [OF p]]
  have "foldl (better (\<lambda>a b. cmp a b < 0) (mg_children m)) None [0..<length (mg_children m)] = Some c"
  proof (rule better_fold)
    fix d assume d: "d \<in> set [0..<length (mg_children m)]" "d \<noteq> c" "iw_valid (mg_children m ! d)"
    then have d': "d < length xss" by (simp add: len)
    obtain e where e: "e \<in> set (xss ! d)" "iw_key (mg_children m ! d) = fst e" "n \<le> rank xs e"
      using placed_fwd [OF l p d' d(3)] by blast
    show "cmp (iw_key (mg_children m ! c)) (iw_key (mg_children m ! d)) < 0 \<and>
        \<not> cmp (iw_key (mg_children m ! d)) (iw_key (mg_children m ! c)) < 0"
      using rank_owner [OF l c True d' d(2) e(1)] e(2,3) own by simp
  qed (use c len own in auto)
  then show ?thesis using l c True p dir by (auto simp: mg_at_def FindSmallest_def at_pos_def)
next
  case False
  have "foldl (better (\<lambda>a b. cmp a b < 0) (mg_children m)) None [0..<length (mg_children m)] = None"
  proof (rule better_fold_none)
    fix d assume "d \<in> set [0..<length (mg_children m)]"
    then have d: "d < length xss" using p by (simp add: placed_def)
    show "\<not> iw_valid (mg_children m ! d)"
      using placed_fwd [OF l p d] rank_mem(1) [OF mg_lists_child(1) [OF l d]] mg_lists_child(3) [OF l d] False by (meson le_trans not_less subsetD)
  qed
  then show ?thesis using mg_at_None [OF l, of "FindSmallest cmp m"] p False by (simp add: FindSmallest_def at_pos_def [of xs])
qed

lemma FindLargest_at:
  assumes l: "mg_lists xss xs" and p: "placed xss m (bwd xss xs n)" and dir: "mg_direction m = kReverse" and n: "n \<le> length xs"
  shows "mg_at (FindLargest cmp m) xs (prev_pos n)"
proof (cases n)
  case (Suc n')
  then have n': "n' < length xs" using n by simp
  obtain c where c: "c < length xss" "xs ! n' \<in> set (xss ! c)" using owner [OF l n'] .
  have len: "length (mg_children m) = length xss" using p by (simp add: placed_def)
  note own = placed_own(3) [OF l c n' disjI2 [OF p [unfolded Suc]]]
  have "foldl (better (\<lambda>a b. cmp a b > 0) (mg_children m)) None (rev [0..<length (mg_children m)]) = Some c"
  proof (rule better_fold)
    fix d assume d: "d \<in> set (rev [0..<length (mg_children m)])" "d \<noteq> c" "iw_valid (mg_children m ! d)"
    then have d': "d < length xss" by (simp add: len)
    obtain e where e: "e \<in> set (xss ! d)" "iw_key (mg_children m ! d) = fst e" "rank xs e < Suc n'"
      using placed_bwd [OF l p d' d(3)] Suc by blast
    note r = rank_owner [OF l c n' d' d(2) e(1)]
    have "ok (fst e)" "ok (fst (xs ! n'))"
      using mg_lists_child [OF l d'] e(1) n' by (auto simp: kv_sorted_def)
    then show "cmp (iw_key (mg_children m ! c)) (iw_key (mg_children m ! d)) > 0 \<and>
        \<not> cmp (iw_key (mg_children m ! d)) (iw_key (mg_children m ! c)) > 0"
      using r e(2,3) own ko_antisym [of "fst e" "fst (xs ! n')"] ko_antisym [of "fst (xs ! n')" "fst e"] by simp
  qed (use c len own in auto)
  then show ?thesis using l c n' p dir Suc by (auto simp: mg_at_def FindLargest_def prev_pos_def)
next
  case 0
  have "foldl (better (\<lambda>a b. cmp a b > 0) (mg_children m)) None (rev [0..<length (mg_children m)]) = None"
  proof (rule better_fold_none)
    fix d assume "d \<in> set (rev [0..<length (mg_children m)])"
    then have d: "d < length xss" using p by (simp add: placed_def)
    show "\<not> iw_valid (mg_children m ! d)" using placed_bwd [OF l p d] 0 by auto
  qed
  then show ?thesis using mg_at_None [OF l, of "FindLargest cmp m"] p 0 by (simp add: FindLargest_def prev_pos_def [of 0])
qed

lemma mg_all_placed:
  assumes "placed xss m f"
    and "\<And>d w. d < length xss \<Longrightarrow> wrap_at w (xss ! d) (f d) \<Longrightarrow> \<exists>w'. g d w = Some w' \<and> wrap_at w' (xss ! d) (f' d)"
  shows "\<exists>m'. mg_all g m = Some m' \<and> placed xss m' f' \<and> mg_current m' = mg_current m \<and> mg_direction m' = mg_direction m"
proof -
  have "\<exists>ws'. children_do g 0 (mg_children m) = Some ws' \<and> length ws' = length xss \<and> (\<forall>d < length xss. wrap_at (ws' ! d) (xss ! d) (f' d))"
    using assms by (intro children_do_all) (auto simp: placed_def)
  then show ?thesis by (auto simp: mg_all_def placed_def)
qed

lemma mg_at_placed: "mg_at m xs p \<Longrightarrow> \<exists>xss f. mg_lists xss xs \<and> placed xss m f"
  by (cases p) (simp_all add: mg_at_def, blast+)

lemma placed_cong: "placed xss m f \<Longrightarrow> (\<And>d. d < length xss \<Longrightarrow> f d = f' d) \<Longrightarrow> placed xss m f'"
  by (simp add: placed_def)

lemma mg_seek_forward:
  assumes at: "mg_at m xs p"
    and g: "\<And>ys w q. kv_sorted cmp ok ys \<Longrightarrow> set ys \<subseteq> set xs \<Longrightarrow> wrap_at w ys q \<Longrightarrow>
      \<exists>w'. g w = Some w' \<and> wrap_at w' ys (at_pos ys (before_rank xs ys n))"
  shows "\<exists>m'. map_option (\<lambda>m. (FindSmallest cmp m)\<lparr> mg_direction := kForward \<rparr>) (mg_all (\<lambda>_. g) m) = Some m' \<and> mg_at m' xs (at_pos xs n)"
proof -
  obtain xss f where l: "mg_lists xss xs" "placed xss m f" using mg_at_placed [OF at] by blast
  obtain m' where m': "mg_all (\<lambda>_. g) m = Some m'" "placed xss m' (fwd xss xs n)"
    using mg_all_placed [OF l(2), of "\<lambda>_. g" "fwd xss xs n"] g mg_lists_child [OF l(1)] by blast
  have "(FindSmallest cmp m')\<lparr> mg_direction := kForward \<rparr> = FindSmallest cmp (m'\<lparr> mg_direction := kForward \<rparr>)" by (simp add: FindSmallest_def)
  then show ?thesis using m' FindSmallest_at [OF l(1), of "m'\<lparr> mg_direction := kForward \<rparr>" n] by simp
qed

lemma mg_SeekToFirst_at: "mg_at m xs p \<Longrightarrow> \<exists>m'. mg_SeekToFirst cmp I m = Some m' \<and> mg_at m' xs (at_pos xs 0)"
  unfolding mg_SeekToFirst_def by (rule mg_seek_forward) (auto dest: wrap_SeekToFirst)

lemma mg_Seek_at: "mg_at m xs p \<Longrightarrow> ok k \<Longrightarrow> \<exists>m'. mg_Seek cmp I k m = Some m' \<and> mg_at m' xs (at_pos xs (lower cmp k xs))"
proof -
  assume at: "mg_at m xs p" and k: "ok k"
  have s: "kv_sorted cmp ok xs" using at by (auto simp: mg_at_def mg_lists_def split: option.splits)
  show ?thesis
    unfolding mg_Seek_def
  proof (rule mg_seek_forward [OF at])
    fix ys w q assume a: "kv_sorted cmp ok ys" "set ys \<subseteq> set xs" "wrap_at w ys q"
    show "\<exists>w'. iw_Seek I k w = Some w' \<and> wrap_at w' ys (at_pos ys (before_rank xs ys (lower cmp k xs)))"
      using wrap_Seek [OF a(3) k] lower_before_rank [OF s a(1,2) k] by simp
  qed
qed

lemma mg_SeekToLast_at:
  assumes at: "mg_at m xs p" shows "\<exists>m'. mg_SeekToLast cmp I m = Some m' \<and> mg_at m' xs (last_pos xs)"
proof -
  obtain xss f where l: "mg_lists xss xs" "placed xss m f" using mg_at_placed [OF at] by blast
  have "last_pos (xss ! d) = bwd xss xs (length xs) d" if "d < length xss" for d
    using before_rank_all [OF mg_lists_child [OF l(1) that]] by (simp add: last_pos_def prev_pos_def)
  then obtain m' where m': "mg_all (\<lambda>_. iw_SeekToLast I) m = Some m'" "placed xss m' (bwd xss xs (length xs))"
    using mg_all_placed [OF l(2), of "\<lambda>_. iw_SeekToLast I" "bwd xss xs (length xs)"] wrap_SeekToLast by metis
  have "(FindLargest cmp m')\<lparr> mg_direction := kReverse \<rparr> = FindLargest cmp (m'\<lparr> mg_direction := kReverse \<rparr>)" by (simp add: FindLargest_def)
  moreover have "last_pos xs = prev_pos (length xs)" by (simp add: last_pos_def prev_pos_def)
  ultimately show ?thesis
    using m' FindLargest_at [OF l(1), of "m'\<lparr> mg_direction := kReverse \<rparr>" "length xs"] by (simp add: mg_SeekToLast_def)
qed

lemma step_placed:
  assumes p: "placed xss m f" and c: "mg_current m = Some c" "c < length xss"
    and g: "\<And>w. wrap_at w (xss ! c) (f c) \<Longrightarrow> \<exists>w'. g w = Some w' \<and> wrap_at w' (xss ! c) (f' c)"
    and o: "\<And>d. d < length xss \<Longrightarrow> d \<noteq> c \<Longrightarrow> f' d = f d"
  shows "\<exists>m'. mg_step_current g m = Some m' \<and> placed xss m' f' \<and> mg_direction m' = mg_direction m"
proof -
  obtain w' where w': "g (mg_children m ! c) = Some w'" "wrap_at w' (xss ! c) (f' c)"
    using g [of "mg_children m ! c"] p c(2) by (auto simp: placed_def)
  have "placed xss (m\<lparr> mg_children := (mg_children m)[c := w'] \<rparr>) f'"
    using p w'(2) c(2) o by (auto simp: placed_def nth_list_update)
  then show ?thesis using w'(1) c(1) by (simp add: mg_step_current_def)
qed

lemma Next_forward:
  assumes l: "mg_lists xss xs" and n: "n < length xs" and c: "c < length xss" "mg_current m = Some c" "xs ! n \<in> set (xss ! c)"
    and p: "placed xss m (fwd xss xs n)" and dir: "mg_direction m = kForward"
  shows "\<exists>m'. map_option (FindSmallest cmp) (mg_step_current (iw_Next I) m) = Some m' \<and> mg_at m' xs (at_pos xs (Suc n))"
proof -
  note own = before_rank_own [OF mg_lists_child [OF l c(1)] n c(3)]
  have "\<exists>m'. mg_step_current (iw_Next I) m = Some m' \<and> placed xss m' (fwd xss xs (Suc n)) \<and> mg_direction m' = mg_direction m"
  proof (rule step_placed [OF p c(2,1)])
    show "\<exists>w'. iw_Next I w = Some w' \<and> wrap_at w' (xss ! c) (fwd xss xs (Suc n) c)" if w: "wrap_at w (xss ! c) (fwd xss xs n c)" for w
      using wrap_Next [of w "xss ! c"] w own by (simp add: at_pos_def [of "xss ! c" "before_rank xs (xss ! c) n"])
    show "fwd xss xs (Suc n) d = fwd xss xs n d" if d: "d < length xss" "d \<noteq> c" for d
      using before_rank_other [OF mg_lists_child [OF l d(1)]] owner_unique [OF l c(1) d(1) not_sym [OF d(2)] c(3)] by simp
  qed
  then obtain m' where m': "mg_step_current (iw_Next I) m = Some m'" "placed xss m' (fwd xss xs (Suc n))" "mg_direction m' = kForward"
    using dir by auto
  then show ?thesis using FindSmallest_at [OF l m'(2,3)] by simp
qed

lemma Prev_reverse:
  assumes l: "mg_lists xss xs" and n: "n < length xs" and c: "c < length xss" "mg_current m = Some c" "xs ! n \<in> set (xss ! c)"
    and p: "placed xss m (bwd xss xs (Suc n))" and dir: "mg_direction m = kReverse"
  shows "\<exists>m'. map_option (FindLargest cmp) (mg_step_current (iw_Prev I) m) = Some m' \<and> mg_at m' xs (prev_pos n)"
proof -
  note own = before_rank_own [OF mg_lists_child [OF l c(1)] n c(3)]
  have "\<exists>m'. mg_step_current (iw_Prev I) m = Some m' \<and> placed xss m' (bwd xss xs n) \<and> mg_direction m' = mg_direction m"
  proof (rule step_placed [OF p c(2,1)])
    show "\<exists>w'. iw_Prev I w = Some w' \<and> wrap_at w' (xss ! c) (bwd xss xs n c)" if w: "wrap_at w (xss ! c) (bwd xss xs (Suc n) c)" for w
      using wrap_Prev [of w "xss ! c" "before_rank xs (xss ! c) n"] w own by (simp add: prev_pos_def [of "Suc _"])
    show "bwd xss xs n d = bwd xss xs (Suc n) d" if d: "d < length xss" "d \<noteq> c" for d
      using before_rank_other [OF mg_lists_child [OF l d(1)]] owner_unique [OF l c(1) d(1) not_sym [OF d(2)] c(3)] by simp
  qed
  then obtain m' where m': "mg_step_current (iw_Prev I) m = Some m'" "placed xss m' (bwd xss xs n)" "mg_direction m' = kReverse"
    using dir by auto
  then show ?thesis using FindLargest_at [OF l m'(2,3)] n by simp
qed

text \<open>A change of direction.\<close>

lemma child_after_placed:
  assumes l: "mg_lists xss xs" and n: "n < length xs" and c: "c < length xss" "xs ! n \<in> set (xss ! c)"
    and d: "d < length xss" and w: "wrap_at w (xss ! d) (bwd xss xs (Suc n) d)"
  shows "\<exists>w'. child_after cmp I c (fst (xs ! n)) d w = Some w' \<and> wrap_at w' (xss ! d) (fwd xss xs n d)"
proof (cases "d = c")
  case True
  then show ?thesis using w placed_own(1,2) [OF l c n] by (simp add: child_after_def)
next
  case False
  note s = mg_lists_child [OF l d]
  have k: "ok (fst (xs ! n))" using kv_sorted_nth(2) [OF s(1) n] .
  have low: "lower cmp (fst (xs ! n)) (xss ! d) = before_rank xs (xss ! d) n"
    using lower_before_rank [OF s k] rank_nth [OF s(1) n] by (simp add: rank_def)
  obtain w' where w': "iw_Seek I (fst (xs ! n)) w = Some w'" "wrap_at w' (xss ! d) (fwd xss xs n d)"
    using wrap_Seek [OF w k] low by auto
  have "cmp (fst (xs ! n)) (iw_key w') \<noteq> 0" if "iw_valid w'"
  proof -
    have j: "before_rank xs (xss ! d) n < length (xss ! d)"
      using that wrap_facts(1) [OF w'(2)] by (simp add: at_pos_def split: if_splits)
    then have "iw_key w' = fst (xss ! d ! before_rank xs (xss ! d) n)"
      using wrap_facts(2) [of w' "xss ! d"] w'(2) by (simp add: at_pos_def)
    then show ?thesis using l c d False nth_mem [OF j] by (auto simp: mg_lists_def)
  qed
  then show ?thesis using w' False by (auto simp: child_after_def)
qed

lemma child_before_placed:
  assumes l: "mg_lists xss xs" and n: "n < length xs" and c: "c < length xss" "xs ! n \<in> set (xss ! c)"
    and d: "d < length xss" and w: "wrap_at w (xss ! d) (fwd xss xs n d)"
  shows "\<exists>w'. child_before I c (fst (xs ! n)) d w = Some w' \<and> wrap_at w' (xss ! d) (bwd xss xs (Suc n) d)"
proof (cases "d = c")
  case True
  then show ?thesis using w placed_own(1,2) [OF l c n] by (simp add: child_before_def)
next
  case False
  note s = mg_lists_child [OF l d]
  let ?j = "before_rank xs (xss ! d) n"
  have k: "ok (fst (xs ! n))" using kv_sorted_nth(2) [OF s(1) n] .
  have low: "lower cmp (fst (xs ! n)) (xss ! d) = ?j"
    using lower_before_rank [OF s k] rank_nth [OF s(1) n] by (simp add: rank_def)
  obtain w' where w': "iw_Seek I (fst (xs ! n)) w = Some w'" "wrap_at w' (xss ! d) (at_pos (xss ! d) ?j)"
    using wrap_Seek [OF w k] low by auto
  have same: "bwd xss xs (Suc n) d = prev_pos ?j"
    using before_rank_other [OF s] owner_unique [OF l c(1) d not_sym [OF False] c(2)] by simp
  show ?thesis
  proof (cases "?j < length (xss ! d)")
    case True
    then have w1: "wrap_at w' (xss ! d) (Some ?j)" using w'(2) by (simp add: at_pos_def)
    then show ?thesis using wrap_Prev [OF w1] wrap_facts(1) [OF w1] w'(1) False same by (simp add: child_before_def)
  next
    case jl: False
    then have "?j = length (xss ! d)" using before_rank_le [of xs "xss ! d" n] by simp
    then have "prev_pos ?j = last_pos (xss ! d)" by (simp add: prev_pos_def last_pos_def)
    then show ?thesis
      using wrap_SeekToLast [OF w'(2)] wrap_facts(1) [OF w'(2)] jl w'(1) False same by (simp add: child_before_def at_pos_def)
  qed
qed

lemma mg_Next_at:
  assumes at: "mg_at m xs (Some n)"
  shows "\<exists>m'. mg_Next cmp I m = Some m' \<and> mg_at m' xs (at_pos xs (Suc n))"
proof -
  obtain xss c where l: "mg_lists xss xs" and n: "n < length xs" and c: "c < length xss" "mg_current m = Some c" "xs ! n \<in> set (xss ! c)"
    and p: "mg_direction m = kForward \<and> placed xss m (fwd xss xs n) \<or> mg_direction m = kReverse \<and> placed xss m (bwd xss xs (Suc n))"
    using at by (auto simp: mg_at_def)
  have key: "mg_key m = fst (xs ! n)" using placed_own(3) [OF l c(1,3) n, of m] p c(2) by (auto simp: mg_key_def)
  show ?thesis
  proof (cases "mg_direction m = kForward")
    case True
    then show ?thesis using Next_forward [OF l n c] p by (simp add: mg_Next_def)
  next
    case False
    then have "placed xss m (bwd xss xs (Suc n))" using p by auto
    then have "\<exists>m'. mg_all (child_after cmp I c (fst (xs ! n))) m = Some m' \<and> placed xss m' (fwd xss xs n) \<and>
        mg_current m' = mg_current m \<and> mg_direction m' = mg_direction m"
      by (rule mg_all_placed) (rule child_after_placed [OF l n c(1,3)])
    then obtain m' where m': "mg_all (child_after cmp I c (fst (xs ! n))) m = Some m'" "placed xss m' (fwd xss xs n)" "mg_current m' = Some c"
      using c(2) by auto
    then show ?thesis
      using False key c(2) Next_forward [OF l n c(1) _ c(3), of "m'\<lparr> mg_direction := kForward \<rparr>"] by (simp add: mg_Next_def)
  qed
qed

lemma mg_Prev_at:
  assumes at: "mg_at m xs (Some n)"
  shows "\<exists>m'. mg_Prev cmp I m = Some m' \<and> mg_at m' xs (prev_pos n)"
proof -
  obtain xss c where l: "mg_lists xss xs" and n: "n < length xs" and c: "c < length xss" "mg_current m = Some c" "xs ! n \<in> set (xss ! c)"
    and p: "mg_direction m = kForward \<and> placed xss m (fwd xss xs n) \<or> mg_direction m = kReverse \<and> placed xss m (bwd xss xs (Suc n))"
    using at by (auto simp: mg_at_def)
  have key: "mg_key m = fst (xs ! n)" using placed_own(3) [OF l c(1,3) n, of m] p c(2) by (auto simp: mg_key_def)
  show ?thesis
  proof (cases "mg_direction m = kReverse")
    case True
    then show ?thesis using Prev_reverse [OF l n c] p by (simp add: mg_Prev_def)
  next
    case False
    then have "placed xss m (fwd xss xs n)" using p by auto
    then have "\<exists>m'. mg_all (child_before I c (fst (xs ! n))) m = Some m' \<and> placed xss m' (bwd xss xs (Suc n)) \<and>
        mg_current m' = mg_current m \<and> mg_direction m' = mg_direction m"
      by (rule mg_all_placed) (rule child_before_placed [OF l n c(1,3)])
    then obtain m' where m': "mg_all (child_before I c (fst (xs ! n))) m = Some m'" "placed xss m' (bwd xss xs (Suc n))" "mg_current m' = Some c"
      using c(2) by auto
    then show ?thesis
      using False key c(2) Prev_reverse [OF l n c(1) _ c(3), of "m'\<lparr> mg_direction := kReverse \<rparr>"] by (simp add: mg_Prev_def)
  qed
qed

lemma mg_status_at:
  assumes p: "placed xss m f" shows "mg_status I m = Status_OK"
  unfolding mg_status_def
proof (rule mg_status_loop_OK)
  show "\<forall>w \<in> set (mg_children m). iw_status I w = Status_OK"
  proof
    fix w assume "w \<in> set (mg_children m)"
    then obtain d where "d < length xss" "w = mg_children m ! d" using p by (auto simp: placed_def in_set_conv_nth)
    then show "iw_status I w = Status_OK" using wrap_facts(5) [of w "xss ! d" "f d"] p by (simp add: placed_def)
  qed
qed

lemma new_MergingIterator_at:
  assumes "mg_lists xss xs" "length its = length xss" "\<And>d. d < length xss \<Longrightarrow> at (its ! d) (xss ! d) (f d)"
  shows "mg_at (new_MergingIterator I its) xs None"
proof (rule mg_at_None [OF assms(1)])
  show "placed xss (new_MergingIterator I its) f" using assms(2,3) wrap_Set by (auto simp: placed_def new_MergingIterator_def)
qed (simp add: new_MergingIterator_def)

end

sublocale merging \<subseteq> mg: list_iterator cmp ok "Merging cmp I" mg_at
proof
  fix m xs p
  assume at: "mg_at m xs p"
  obtain xss f where l: "mg_lists xss xs" "placed xss m f" using mg_at_placed [OF at] by blast
  show "kv_sorted cmp ok xs" using l by (simp add: mg_lists_def)
  show "it_Valid (Merging cmp I) m = (p \<noteq> None)" using at by (auto simp: mg_at_def Merging_def split: option.splits)
  show "it_status (Merging cmp I) m = Status_OK" using mg_status_at [OF l(2)] by (simp add: Merging_def)
  show "\<exists>m'. it_SeekToFirst (Merging cmp I) m = Some m' \<and> mg_at m' xs (at_pos xs 0)"
    using mg_SeekToFirst_at [OF at] by (simp add: Merging_def)
  show "\<exists>m'. it_SeekToLast (Merging cmp I) m = Some m' \<and> mg_at m' xs (last_pos xs)"
    using mg_SeekToLast_at [OF at] by (simp add: Merging_def)
  show "\<exists>m'. it_Seek (Merging cmp I) k m = Some m' \<and> mg_at m' xs (at_pos xs (lower cmp k xs))" if "ok k" for k
    using mg_Seek_at [OF at that] by (simp add: Merging_def)
next
  fix m xs n
  assume at: "mg_at m xs (Some n)"
  then obtain xss c where l: "mg_lists xss xs" and n: "n < length xs" and c: "c < length xss" "mg_current m = Some c" "xs ! n \<in> set (xss ! c)"
    and p: "placed xss m (fwd xss xs n) \<or> placed xss m (bwd xss xs (Suc n))"
    by (auto simp: mg_at_def)
  show "n < length xs" by (rule n)
  show "it_key (Merging cmp I) m = fst (xs ! n)" "it_value (Merging cmp I) m = snd (xs ! n)"
    using placed_own(3) [OF l c(1,3) n p] c(2) by (simp_all add: Merging_def mg_key_def mg_value_def)
  show "\<exists>m'. it_Next (Merging cmp I) m = Some m' \<and> mg_at m' xs (at_pos xs (Suc n))"
    using mg_Next_at [OF at] by (simp add: Merging_def)
  show "\<exists>m'. it_Prev (Merging cmp I) m = Some m' \<and> mg_at m' xs (prev_pos n)"
    using mg_Prev_at [OF at] by (simp add: Merging_def)
qed

interpretation block_merge: merging "Compare BytewiseComparator" "\<lambda>_. True" "block_Iter BytewiseComparator" "block_at BytewiseComparator (\<lambda>_. True)"
  by unfold_locales

section \<open>Properties\<close>

text \<open>Inserting an entry into a sorted list.\<close>

definition kv_insert :: "(slice \<Rightarrow> slice \<Rightarrow> int) \<Rightarrow> kv \<Rightarrow> kv list \<Rightarrow> kv list" where
  "kv_insert cmp e xs = take (lower cmp (fst e) xs) xs @ e # drop (lower cmp (fst e) xs) xs"

definition kv_sort :: "(slice \<Rightarrow> slice \<Rightarrow> int) \<Rightarrow> kv list \<Rightarrow> kv list" where
  "kv_sort cmp xs = foldr (kv_insert cmp) xs []"

lemma mset_kv_sort: "mset (kv_sort cmp xs) = mset xs"
proof (induction xs)
  case (Cons e xs)
  have "mset (kv_insert cmp e ys) = add_mset e (mset (take (lower cmp (fst e) ys) ys @ drop (lower cmp (fst e) ys) ys))" for ys
    by (simp add: kv_insert_def del: append_take_drop_id)
  then show ?case using Cons by (simp add: kv_sort_def)
qed (simp add: kv_sort_def)

lemma set_kv_sort [simp]: "set (kv_sort cmp xs) = set xs"
  using mset_kv_sort [of cmp xs] by (metis set_mset_mset)

lemma kv_sorted_insert:
  assumes s: "kv_sorted (Compare BytewiseComparator) (\<lambda>_. True) xs" and new: "fst e \<notin> fst ` set xs"
  shows "kv_sorted (Compare BytewiseComparator) (\<lambda>_. True) (kv_insert (Compare BytewiseComparator) e xs)"
proof -
  let ?c = "Compare BytewiseComparator" and ?n = "lower (Compare BytewiseComparator) (fst e) xs"
  have sorted: "sorted_wrt (\<lambda>a b. ?c (fst a) (fst b) < 0) xs" using s by (simp add: kv_sorted_def)
  have 1: "?c (fst a) (fst e) < 0" if "a \<in> set (take ?n xs)" for a
    using that lower_less [of _ ?c "fst e" xs] by (auto simp: in_set_conv_nth)
  have 2: "?c (fst e) (fst b) < 0" if b: "b \<in> set (drop ?n xs)" for b
  proof -
    obtain i where "i < length xs - ?n" "b = xs ! (?n + i)" using b by (auto simp: in_set_conv_nth)
    then have i: "?n + i < length xs" "b = xs ! (?n + i)" by simp_all
    have "\<not> ?c (fst (xs ! ?n)) (fst e) < 0" using lower_not_less [of ?c "fst e" xs] i(1) by simp
    then have "\<not> ?c (fst b) (fst e) < 0"
      using kv_sorted_nth(1) [OF s, of ?n "?n + i"] i bytewise.ord.ko_less_trans [of "fst (xs ! ?n)" "fst b" "fst e"] by (cases "i = 0") auto
    moreover have "fst b \<noteq> fst e" using new b by (metis image_eqI in_set_dropD)
    then have "?c (fst b) (fst e) \<noteq> 0" by (simp add: bytewise_compare_eq)
    ultimately show ?thesis using bytewise.ord.ko_antisym [of "fst e" "fst b"] by simp
  qed
  have "sorted_wrt (\<lambda>a b. ?c (fst a) (fst b) < 0) (take ?n xs @ drop ?n xs)" using sorted by (simp only: append_take_drop_id)
  then show ?thesis using 1 2 by (auto simp: kv_sorted_def kv_insert_def sorted_wrt_append simp del: append_take_drop_id)
qed

lemma kv_sorted_sort:
  "distinct (map fst xs) \<Longrightarrow> kv_sorted (Compare BytewiseComparator) (\<lambda>_. True) (kv_sort (Compare BytewiseComparator) xs)"
proof (induction xs)
  case (Cons e xs)
  then show ?case using kv_sorted_insert [of "kv_sort (Compare BytewiseComparator) xs" e] by (simp add: kv_sort_def) (simp add: kv_sort_def [symmetric])
qed (simp add: kv_sort_def kv_sorted_def)

lemma distinct_concat_disjoint:
  "distinct (concat yss) \<Longrightarrow> c < d \<Longrightarrow> d < length yss \<Longrightarrow> set (yss ! c) \<inter> set (yss ! d) = {}"
proof (induction yss arbitrary: c d)
  case (Cons ys yss)
  obtain d' where d: "d = Suc d'" "d' < length yss" using Cons.prems by (cases d) auto
  show ?case
  proof (cases c)
    case 0
    have "set (yss ! d') \<subseteq> set (concat yss)" using nth_mem [OF d(2)] by auto
    then show ?thesis using Cons.prems(1) 0 d by auto
  qed (use Cons d in auto)
qed simp

lemma block_merge_lists:
  assumes "\<forall>ys \<in> set xss. kv_sorted (Compare BytewiseComparator) (\<lambda>_. True) ys" "distinct (map fst (concat xss))"
  shows "block_merge.mg_lists xss (kv_sort (Compare BytewiseComparator) (concat xss))"
proof -
  have "fst a \<noteq> fst b" if "c < length xss" "d < length xss" "c \<noteq> d" "a \<in> set (xss ! c)" "b \<in> set (xss ! d)" for c d a b
  proof -
    have "distinct (concat (map (map fst) xss))" using assms(2) by (simp add: map_concat)
    then have "set (map (map fst) xss ! min c d) \<inter> set (map (map fst) xss ! max c d) = {}"
      using that(1-3) by (intro distinct_concat_disjoint) (auto simp: min_def max_def)
    then have "fst ` set (xss ! c) \<inter> fst ` set (xss ! d) = {}"
      using that(1-3) by (cases "c \<le> d") (auto simp: min_def max_def)
    then show ?thesis using that(4,5) by blast
  qed
  then show ?thesis
    using assms kv_sorted_sort [OF assms(2)] by (auto simp: block_merge.mg_lists_def bytewise_compare_eq)
qed

text \<open>C37. Merging any number of blocks with pairwise different keys: scanning the merging iterator from the first entry
  delivers all the entries in the order of their keys; seeking any key and scanning from there delivers those from the
  first entry at or past it; and stepping back after stepping forward, which changes the direction of every child, returns
  to the entry the iterator came from.\<close>

theorem merge_scan:
  assumes "\<forall>ys \<in> set xss. kv_sorted (Compare BytewiseComparator) (\<lambda>_. True) ys \<and> length (block_of ri ys) < 2 ^ 32"
    and "distinct (map fst (concat xss))" "1 \<le> ri"
  defines "I \<equiv> block_Iter BytewiseComparator" and "cmp \<equiv> Compare BytewiseComparator"
  shows "\<exists>its m1 m2. map (\<lambda>ys. Block_NewIterator (new_Block (block_of ri ys))) xss = map Inr its \<and>
    mg_SeekToFirst cmp I (new_MergingIterator I its) = Some m1 \<and> it_scan (Merging cmp I) m1 [] = Some (kv_sort cmp (concat xss)) \<and>
    mg_Seek cmp I k (new_MergingIterator I its) = Some m2 \<and>
    it_scan (Merging cmp I) m2 [] = Some (drop (lower cmp k (kv_sort cmp (concat xss))) (kv_sort cmp (concat xss))) \<and>
    (\<forall>m3. mg_current m2 \<noteq> None \<and> mg_Next cmp I m2 = Some m3 \<and> mg_current m3 \<noteq> None \<longrightarrow>
      (\<exists>m4. mg_Prev cmp I m3 = Some m4 \<and> mg_key m4 = mg_key m2 \<and> mg_value I m4 = mg_value I m2))"
proof -
  let ?xs = "kv_sort cmp (concat xss)" and ?at = "block_at BytewiseComparator (\<lambda>_. True)"
  have ex: "\<exists>it. Block_NewIterator (new_Block (block_of ri ys)) = Inr it \<and> ?at it ys None" if "ys \<in> set xss" for ys
    using block_of_iterator [of BytewiseComparator "\<lambda>_. True" ys ri] assms(1,3) that by auto
  define its where "its = map (\<lambda>ys. projr (Block_NewIterator (new_Block (block_of ri ys)))) xss"
  have its: "map (\<lambda>ys. Block_NewIterator (new_Block (block_of ri ys))) xss = map Inr its"
    by (auto simp: its_def dest!: ex)
  have "?at (its ! d) (xss ! d) None" if "d < length xss" for d
    using ex [of "xss ! d"] that by (auto simp: its_def)
  then have at: "block_merge.mg_at (new_MergingIterator I its) ?xs None"
    using block_merge.new_MergingIterator_at [OF block_merge_lists, of xss its "\<lambda>_. None"] assms(1,2)
    by (simp add: I_def cmp_def its_def)
  obtain m1 where m1: "mg_SeekToFirst cmp I (new_MergingIterator I its) = Some m1" "block_merge.mg_at m1 ?xs (at_pos ?xs 0)"
    using block_merge.mg_SeekToFirst_at [OF at] by (auto simp: I_def cmp_def)
  obtain m2 where m2: "mg_Seek cmp I k (new_MergingIterator I its) = Some m2" "block_merge.mg_at m2 ?xs (at_pos ?xs (lower cmp k ?xs))"
    using block_merge.mg_Seek_at [OF at, of k] by (auto simp: I_def cmp_def)
  have returns: "\<exists>m4. mg_Prev cmp I m3 = Some m4 \<and> mg_key m4 = mg_key m2 \<and> mg_value I m4 = mg_value I m2"
    if "mg_current m2 \<noteq> None" "mg_Next cmp I m2 = Some m3" "mg_current m3 \<noteq> None" for m3
  proof -
    define n where "n = lower cmp k ?xs"
    have a2: "block_merge.mg_at m2 ?xs (Some n)"
      using m2(2) that(1) block_merge.mg.at_valid [OF m2(2)] by (auto simp: Merging_def n_def at_pos_def split: if_splits)
    have a3: "block_merge.mg_at m3 ?xs (at_pos ?xs (Suc n))" using block_merge.mg_Next_at [OF a2] that(2) by (auto simp: I_def cmp_def)
    then have "block_merge.mg_at m3 ?xs (Some (Suc n))"
      using that(3) block_merge.mg.at_valid [OF a3] by (auto simp: Merging_def at_pos_def split: if_splits)
    from block_merge.mg_Prev_at [OF this]
    obtain m4 where m4: "mg_Prev cmp I m3 = Some m4" "block_merge.mg_at m4 ?xs (Some n)" by (auto simp: I_def cmp_def prev_pos_def)
    then show ?thesis
      using block_merge.mg.at_key [OF m4(2)] block_merge.mg.at_key [OF a2] block_merge.mg.at_value [OF m4(2)] block_merge.mg.at_value [OF a2]
      by (simp add: Merging_def I_def)
  qed
  show ?thesis
    using its m1 m2 returns block_merge.mg.scan_from [OF m1(2), of "[]"] block_merge.mg.scan_from [OF m2(2), of "[]"]
    by (intro exI [of _ its] exI [of _ m1] exI [of _ m2]) (auto simp: I_def cmp_def)
qed

theorem merge_scan_witness:
  "\<exists>its m1. map (\<lambda>ys. Block_NewIterator (new_Block (block_of 16 ys))) [[([1], [10]), ([4], [40])], [([2], [20])]] = map Inr its \<and>
    mg_SeekToFirst (Compare BytewiseComparator) (block_Iter BytewiseComparator) (new_MergingIterator (block_Iter BytewiseComparator) its) = Some m1 \<and>
    it_scan (Merging (Compare BytewiseComparator) (block_Iter BytewiseComparator)) m1 [] = Some [([1], [10]), ([2], [20]), ([4], [40])]"
proof -
  have 1: "kv_sorted (Compare BytewiseComparator) (\<lambda>_. True) [([1], [10]), ([4], [40])]"
    "kv_sorted (Compare BytewiseComparator) (\<lambda>_. True) [([2], [20])]" by code_simp+
  have 2: "length (block_of 16 [([1], [10]), ([4], [40])]) = 18" "length (block_of 16 [([2], [20])]) = 13" by code_simp+
  have 3: "kv_sort (Compare BytewiseComparator) (concat [[([1], [10]), ([4], [40])], [([2], [20])]]) = [([1], [10]), ([2], [20]), ([4], [40])]"
    by code_simp
  have p: "\<forall>ys \<in> set [[([1], [10]), ([4], [40])], [([2], [20])]].
      kv_sorted (Compare BytewiseComparator) (\<lambda>_. True) ys \<and> length (block_of 16 ys) < 2 ^ 32" using 1 2 by simp
  have d: "distinct (map fst (concat [[([1 :: byte], [10 :: byte]), ([4], [40])], [([2], [20])]]))" "1 \<le> (16 :: nat)" by simp_all
  from merge_scan [OF p d, of "[]", unfolded 3] show ?thesis by (elim exE conjE) (intro exI conjI, assumption+)
qed

end
