(* ===== verification/Two_Level.thy ===== *)
theory Two_Level
  imports Block_Iter
begin

text \<open>
  \<^verbatim>\<open>table/two_level_iterator.cc\<close>: an iterator over an index whose values name blocks, and a function from such a value to an
  iterator over the block. The block function is an argument; over iterators that implement lists the two-level iterator is
  shown to implement the concatenation of the blocks.
\<close>

record ('a, 'd) TwoLevel =
  tl_status :: Status
  tl_index :: "'a IteratorWrapper"
  tl_data :: "'d IteratorWrapper"
  tl_handle :: slice

definition new_TwoLevel :: "'a Iterator \<Rightarrow> 'd Iterator \<Rightarrow> 'a \<Rightarrow> ('a, 'd) TwoLevel" where
  "new_TwoLevel A D index_iter =
     \<lparr> tl_status = Status_OK, tl_index = iw_Set A (Some index_iter) new_IteratorWrapper,
       tl_data = iw_Set D None new_IteratorWrapper, tl_handle = [] \<rparr>"

definition SaveError :: "Status \<Rightarrow> ('a, 'd) TwoLevel \<Rightarrow> ('a, 'd) TwoLevel" where
  "SaveError s t = (if status_ok (tl_status t) \<and> \<not> status_ok s then t\<lparr> tl_status := s \<rparr> else t)"

definition SetDataIterator :: "'d Iterator \<Rightarrow> 'd option \<Rightarrow> ('a, 'd) TwoLevel \<Rightarrow> ('a, 'd) TwoLevel" where
  "SetDataIterator D data_iter t =
     (let t = (if iw_iter (tl_data t) \<noteq> None then SaveError (iw_status D (tl_data t)) t else t)
      in t\<lparr> tl_data := iw_Set D data_iter (tl_data t) \<rparr>)"

definition InitDataBlock :: "'a Iterator \<Rightarrow> 'd Iterator \<Rightarrow> (slice \<Rightarrow> 'd) \<Rightarrow> ('a, 'd) TwoLevel \<Rightarrow> ('a, 'd) TwoLevel" where
  "InitDataBlock A D block_function t =
     (if \<not> iw_valid (tl_index t) then SetDataIterator D None t
      else
        let handle = iw_value A (tl_index t) in
        if iw_iter (tl_data t) \<noteq> None \<and> Slice_compare handle (tl_handle t) = 0 then t
        else SetDataIterator D (Some (block_function handle)) (t\<lparr> tl_handle := handle \<rparr>))"

text \<open>An operation on the data iterator when there is one.\<close>

definition on_data :: "('d IteratorWrapper \<Rightarrow> 'd IteratorWrapper option) \<Rightarrow> ('a, 'd) TwoLevel \<Rightarrow> ('a, 'd) TwoLevel option" where
  "on_data f t = (if iw_iter (tl_data t) \<noteq> None then map_option (\<lambda>w. t\<lparr> tl_data := w \<rparr>) (f (tl_data t)) else Some t)"

definition on_index :: "('a IteratorWrapper \<Rightarrow> 'a IteratorWrapper option) \<Rightarrow> ('a, 'd) TwoLevel \<Rightarrow> ('a, 'd) TwoLevel option" where
  "on_index f t = map_option (\<lambda>w. t\<lparr> tl_index := w \<rparr>) (f (tl_index t))"

partial_function (option) SkipEmptyDataBlocksForward ::
    "'a Iterator \<Rightarrow> 'd Iterator \<Rightarrow> (slice \<Rightarrow> 'd) \<Rightarrow> ('a, 'd) TwoLevel \<Rightarrow> ('a, 'd) TwoLevel option" where
  "SkipEmptyDataBlocksForward A D bf t =
     (if iw_iter (tl_data t) = None \<or> \<not> iw_valid (tl_data t) then
        if \<not> iw_valid (tl_index t) then Some (SetDataIterator D None t)
        else (case on_index (iw_Next A) t of None \<Rightarrow> None
          | Some t1 \<Rightarrow> (case on_data (iw_SeekToFirst D) (InitDataBlock A D bf t1) of None \<Rightarrow> None
              | Some t2 \<Rightarrow> SkipEmptyDataBlocksForward A D bf t2))
      else Some t)"

partial_function (option) SkipEmptyDataBlocksBackward ::
    "'a Iterator \<Rightarrow> 'd Iterator \<Rightarrow> (slice \<Rightarrow> 'd) \<Rightarrow> ('a, 'd) TwoLevel \<Rightarrow> ('a, 'd) TwoLevel option" where
  "SkipEmptyDataBlocksBackward A D bf t =
     (if iw_iter (tl_data t) = None \<or> \<not> iw_valid (tl_data t) then
        if \<not> iw_valid (tl_index t) then Some (SetDataIterator D None t)
        else (case on_index (iw_Prev A) t of None \<Rightarrow> None
          | Some t1 \<Rightarrow> (case on_data (iw_SeekToLast D) (InitDataBlock A D bf t1) of None \<Rightarrow> None
              | Some t2 \<Rightarrow> SkipEmptyDataBlocksBackward A D bf t2))
      else Some t)"

text \<open>Position the index, open its block, position in the block, skip what is empty.\<close>

definition tl_position ::
    "('a IteratorWrapper \<Rightarrow> 'a IteratorWrapper option) \<Rightarrow> ('d IteratorWrapper \<Rightarrow> 'd IteratorWrapper option) \<Rightarrow>
     (('a, 'd) TwoLevel \<Rightarrow> ('a, 'd) TwoLevel option) \<Rightarrow> 'a Iterator \<Rightarrow> 'd Iterator \<Rightarrow> (slice \<Rightarrow> 'd) \<Rightarrow>
     ('a, 'd) TwoLevel \<Rightarrow> ('a, 'd) TwoLevel option" where
  "tl_position f g skip A D bf t =
     (case on_index f t of None \<Rightarrow> None
      | Some t1 \<Rightarrow> (case on_data g (InitDataBlock A D bf t1) of None \<Rightarrow> None | Some t2 \<Rightarrow> skip t2))"

definition tl_Seek :: "'a Iterator \<Rightarrow> 'd Iterator \<Rightarrow> (slice \<Rightarrow> 'd) \<Rightarrow> slice \<Rightarrow> ('a, 'd) TwoLevel \<Rightarrow> ('a, 'd) TwoLevel option" where
  "tl_Seek A D bf target t = tl_position (iw_Seek A target) (iw_Seek D target) (SkipEmptyDataBlocksForward A D bf) A D bf t"

definition tl_SeekToFirst :: "'a Iterator \<Rightarrow> 'd Iterator \<Rightarrow> (slice \<Rightarrow> 'd) \<Rightarrow> ('a, 'd) TwoLevel \<Rightarrow> ('a, 'd) TwoLevel option" where
  "tl_SeekToFirst A D bf t = tl_position (iw_SeekToFirst A) (iw_SeekToFirst D) (SkipEmptyDataBlocksForward A D bf) A D bf t"

definition tl_SeekToLast :: "'a Iterator \<Rightarrow> 'd Iterator \<Rightarrow> (slice \<Rightarrow> 'd) \<Rightarrow> ('a, 'd) TwoLevel \<Rightarrow> ('a, 'd) TwoLevel option" where
  "tl_SeekToLast A D bf t = tl_position (iw_SeekToLast A) (iw_SeekToLast D) (SkipEmptyDataBlocksBackward A D bf) A D bf t"

definition tl_Next :: "'a Iterator \<Rightarrow> 'd Iterator \<Rightarrow> (slice \<Rightarrow> 'd) \<Rightarrow> ('a, 'd) TwoLevel \<Rightarrow> ('a, 'd) TwoLevel option" where
  "tl_Next A D bf t =
     (case iw_Next D (tl_data t) of None \<Rightarrow> None | Some w \<Rightarrow> SkipEmptyDataBlocksForward A D bf (t\<lparr> tl_data := w \<rparr>))"

definition tl_Prev :: "'a Iterator \<Rightarrow> 'd Iterator \<Rightarrow> (slice \<Rightarrow> 'd) \<Rightarrow> ('a, 'd) TwoLevel \<Rightarrow> ('a, 'd) TwoLevel option" where
  "tl_Prev A D bf t =
     (case iw_Prev D (tl_data t) of None \<Rightarrow> None | Some w \<Rightarrow> SkipEmptyDataBlocksBackward A D bf (t\<lparr> tl_data := w \<rparr>))"

definition tl_get_status :: "'a Iterator \<Rightarrow> 'd Iterator \<Rightarrow> ('a, 'd) TwoLevel \<Rightarrow> Status" where
  "tl_get_status A D t =
     (if \<not> status_ok (iw_status A (tl_index t)) then iw_status A (tl_index t)
      else if iw_iter (tl_data t) \<noteq> None \<and> \<not> status_ok (iw_status D (tl_data t)) then iw_status D (tl_data t)
      else tl_status t)"

definition TwoLevelIterator :: "'a Iterator \<Rightarrow> 'd Iterator \<Rightarrow> (slice \<Rightarrow> 'd) \<Rightarrow> ('a, 'd) TwoLevel Iterator" where
  "TwoLevelIterator A D bf = \<lparr> it_Valid = (\<lambda>t. iw_valid (tl_data t)), it_SeekToFirst = tl_SeekToFirst A D bf,
     it_SeekToLast = tl_SeekToLast A D bf, it_Seek = tl_Seek A D bf, it_Next = tl_Next A D bf, it_Prev = tl_Prev A D bf,
     it_key = (\<lambda>t. iw_key (tl_data t)), it_value = (\<lambda>t. iw_value D (tl_data t)), it_status = tl_get_status A D \<rparr>"

section \<open>Positions in a concatenation\<close>

definition tl_total :: "(slice \<Rightarrow> kv list) \<Rightarrow> kv list \<Rightarrow> kv list" where
  "tl_total blocks ixs = concat (map (\<lambda>e. blocks (snd e)) ixs)"

definition tl_start :: "(slice \<Rightarrow> kv list) \<Rightarrow> kv list \<Rightarrow> nat \<Rightarrow> nat" where
  "tl_start blocks ixs i = length (tl_total blocks (take i ixs))"

lemma tl_total_split:
  "i < length ixs \<Longrightarrow> tl_total blocks ixs =
     tl_total blocks (take i ixs) @ blocks (snd (ixs ! i)) @ tl_total blocks (drop (Suc i) ixs)"
  by (subst id_take_nth_drop) (simp_all add: tl_total_def)

lemma tl_start_0 [simp]: "tl_start blocks ixs 0 = 0"
  by (simp add: tl_start_def tl_total_def)

lemma tl_start_Suc: "i < length ixs \<Longrightarrow> tl_start blocks ixs (Suc i) = tl_start blocks ixs i + length (blocks (snd (ixs ! i)))"
  by (simp add: tl_start_def tl_total_def take_Suc_conv_app_nth)

lemma tl_start_all: "length ixs \<le> i \<Longrightarrow> tl_start blocks ixs i = length (tl_total blocks ixs)"
  by (simp add: tl_start_def)

lemma tl_total_nth:
  assumes "i < length ixs" "j < length (blocks (snd (ixs ! i)))"
  shows "tl_total blocks ixs ! (tl_start blocks ixs i + j) = blocks (snd (ixs ! i)) ! j"
    and "tl_start blocks ixs i + j < length (tl_total blocks ixs)"
  using assms tl_total_split [OF assms(1), of blocks] by (simp_all add: tl_start_def nth_append)

lemma lower_append_less: "\<forall>e \<in> set xs. cmp (fst e) k < 0 \<Longrightarrow> lower cmp k (xs @ ys) = length xs + lower cmp k ys"
  by (simp add: lower_def takeWhile_append)

lemma lower_append_ge: "\<forall>e \<in> set ys. \<not> cmp (fst e) k < 0 \<Longrightarrow> lower cmp k (xs @ ys) = lower cmp k xs"
  by (induction xs) (auto simp: lower_def takeWhile_eq_Nil_iff neq_Nil_conv)

section \<open>The contract\<close>

locale two_level = ix: list_iterator cmp ok A atA + dt: list_iterator cmp ok D atD
  for cmp :: "slice \<Rightarrow> slice \<Rightarrow> int" and ok :: "slice \<Rightarrow> bool" and A :: "'a Iterator" and atA and D :: "'d Iterator" and atD +
  fixes bf :: "slice \<Rightarrow> 'd" and blocks :: "slice \<Rightarrow> kv list" and handles :: "slice set"
  assumes bf_opens: "h \<in> handles \<Longrightarrow> \<exists>p. atD (bf h) (blocks h) p"
begin

text \<open>The keys of the index separate the blocks.\<close>

definition index_ok :: "kv list \<Rightarrow> bool" where
  "index_ok ixs \<longleftrightarrow> kv_sorted cmp ok (tl_total blocks ixs) \<and> snd ` set ixs \<subseteq> handles \<and>
     (\<forall>i < length ixs. \<forall>e \<in> set (blocks (snd (ixs ! i))). cmp (fst e) (fst (ixs ! i)) \<le> 0) \<and>
     (\<forall>j < length ixs. \<forall>i < j. \<forall>e \<in> set (blocks (snd (ixs ! j))). cmp (fst (ixs ! i)) (fst e) < 0)"

definition data_ok :: "('a, 'd) TwoLevel \<Rightarrow> bool" where
  "data_ok t \<longleftrightarrow> iw_iter (tl_data t) = None \<and> \<not> iw_valid (tl_data t) \<or> (\<exists>q. dt.wrap_at (tl_data t) (blocks (tl_handle t)) q)"

definition tl_state :: "kv list \<Rightarrow> ('a, 'd) TwoLevel \<Rightarrow> nat option \<Rightarrow> bool" where
  "tl_state ixs t p \<longleftrightarrow> index_ok ixs \<and> ix.wrap_at (tl_index t) ixs p \<and> data_ok t \<and> tl_status t = Status_OK"

text \<open>The data iterator is in the block of the index iterator, or there is none at the end of the index.\<close>

definition tl_in :: "kv list \<Rightarrow> ('a, 'd) TwoLevel \<Rightarrow> nat \<Rightarrow> nat option \<Rightarrow> bool" where
  "tl_in ixs t n q \<longleftrightarrow> n < length ixs \<and> tl_state ixs t (Some n) \<and> tl_handle t = snd (ixs ! n) \<and>
     dt.wrap_at (tl_data t) (blocks (snd (ixs ! n))) q"

definition tl_out :: "kv list \<Rightarrow> ('a, 'd) TwoLevel \<Rightarrow> bool" where
  "tl_out ixs t \<longleftrightarrow> (\<exists>p. tl_state ixs t p) \<and> iw_iter (tl_data t) = None \<and> \<not> iw_valid (tl_data t)"

definition tl_at :: "('a, 'd) TwoLevel \<Rightarrow> kv list \<Rightarrow> nat option \<Rightarrow> bool" where
  "tl_at t xs p \<longleftrightarrow> (\<exists>ixs. xs = tl_total blocks ixs \<and>
     (case p of None \<Rightarrow> tl_out ixs t | Some m \<Rightarrow> \<exists>n j. tl_in ixs t n (Some j) \<and> m = tl_start blocks ixs n + j))"

lemma data_status: "data_ok t \<Longrightarrow> iw_iter (tl_data t) \<noteq> None \<Longrightarrow> iw_status D (tl_data t) = Status_OK"
  by (auto simp: data_ok_def dt.wrap_facts)

lemma SaveError_OK: "SaveError Status_OK t = t"
  by (simp add: SaveError_def status_ok_def Status_OK_def)

lemma SetDataIterator_eq:
  "data_ok t \<Longrightarrow> SetDataIterator D d t = t\<lparr> tl_data := iw_Set D d (tl_data t) \<rparr>"
  using data_status [of t] by (simp add: SetDataIterator_def SaveError_OK)

lemma Set_None_out: "tl_state ixs t p \<Longrightarrow> tl_out ixs (SetDataIterator D None t)"
  by (auto simp: tl_state_def SetDataIterator_eq tl_out_def data_ok_def iw_Set_def)

lemma InitDataBlock_None:
  assumes "tl_state ixs t None"
  shows "tl_out ixs (InitDataBlock A D bf t) \<and> tl_state ixs (InitDataBlock A D bf t) None"
proof -
  have "InitDataBlock A D bf t = SetDataIterator D None t"
    using assms ix.wrap_facts(1) by (auto simp: InitDataBlock_def tl_state_def)
  then show ?thesis using Set_None_out [OF assms] assms by (auto simp: tl_state_def SetDataIterator_eq data_ok_def iw_Set_def)
qed

lemma InitDataBlock_Some:
  assumes st: "tl_state ixs t (Some n)"
  shows "\<exists>q. tl_in ixs (InitDataBlock A D bf t) n q"
proof -
  have n: "n < length ixs" "iw_valid (tl_index t)" "iw_value A (tl_index t) = snd (ixs ! n)" and d: "data_ok t"
    using st ix.wrap_facts [of "tl_index t" ixs] by (auto simp: tl_state_def)
  let ?h = "snd (ixs ! n)"
  have "?h \<in> handles" using st n(1) by (auto simp: tl_state_def index_ok_def)
  then obtain q where q: "atD (bf ?h) (blocks ?h) q" using bf_opens by blast
  show ?thesis
  proof (cases "iw_iter (tl_data t) \<noteq> None \<and> Slice_compare ?h (tl_handle t) = 0")
    case True
    then have "tl_handle t = ?h" using bytewise_compare_eq [of ?h "tl_handle t"] by (simp add: BytewiseComparator_def)
    moreover have "\<exists>q. dt.wrap_at (tl_data t) (blocks (tl_handle t)) q" using d True by (auto simp: data_ok_def)
    ultimately show ?thesis using True n st by (auto simp: InitDataBlock_def tl_in_def)
  next
    case False
    have d': "data_ok t \<Longrightarrow> iw_iter (tl_data t) \<noteq> None \<Longrightarrow> iw_status D (tl_data t) = Status_OK" by (rule data_status)
    have "InitDataBlock A D bf t = t\<lparr> tl_handle := ?h, tl_data := iw_Set D (Some (bf ?h)) (tl_data t) \<rparr>"
      using False n d d' by (auto simp: InitDataBlock_def SetDataIterator_def SaveError_OK Let_def)
    then show ?thesis
      using dt.wrap_Set [OF q, of "tl_data t"] st n(1) by (auto simp: tl_in_def tl_state_def data_ok_def)
  qed
qed

lemma tl_in_do:
  assumes "tl_in ixs t n q" "dt.wrap_at w (blocks (snd (ixs ! n))) q'"
  shows "tl_in ixs (t\<lparr> tl_data := w \<rparr>) n q'"
  using assms by (auto simp: tl_in_def tl_state_def data_ok_def)

lemma tl_in_data:
  assumes "tl_in ixs t n q" "\<And>w. dt.wrap_at w (blocks (snd (ixs ! n))) q \<Longrightarrow> \<exists>w'. f w = Some w' \<and> dt.wrap_at w' (blocks (snd (ixs ! n))) q'"
  shows "\<exists>t'. on_data f t = Some t' \<and> tl_in ixs t' n q'"
proof -
  have w: "dt.wrap_at (tl_data t) (blocks (snd (ixs ! n))) q" using assms(1) by (simp add: tl_in_def)
  obtain w' where "f (tl_data t) = Some w'" "dt.wrap_at w' (blocks (snd (ixs ! n))) q'" using assms(2) [OF w] by blast
  then show ?thesis using dt.wrap_facts(7) [OF w] tl_in_do [OF assms(1)] by (auto simp: on_data_def)
qed

lemma tl_index_do:
  assumes "tl_state ixs t p" "\<And>w. ix.wrap_at w ixs p \<Longrightarrow> \<exists>w'. f w = Some w' \<and> ix.wrap_at w' ixs p'"
  shows "\<exists>t'. on_index f t = Some t' \<and> tl_state ixs t' p'"
proof -
  obtain w' where "f (tl_index t) = Some w'" "ix.wrap_at w' ixs p'" using assms by (auto simp: tl_state_def)
  then show ?thesis using assms(1) by (auto simp: on_index_def tl_state_def data_ok_def)
qed

lemma tl_in_at: "tl_in ixs t n (Some j) \<Longrightarrow> tl_at t (tl_total blocks ixs) (Some (tl_start blocks ixs n + j))"
  by (auto simp: tl_at_def)

lemma tl_out_at: "tl_out ixs t \<Longrightarrow> tl_at t (tl_total blocks ixs) None"
  by (auto simp: tl_at_def)

text \<open>Moving the index, opening the block and positioning in it.\<close>

lemma open_block:
  assumes "tl_state ixs t p"
    and "\<And>w. ix.wrap_at w ixs p \<Longrightarrow> \<exists>w'. f w = Some w' \<and> ix.wrap_at w' ixs p'"
    and "\<And>n w q. p' = Some n \<Longrightarrow> dt.wrap_at w (blocks (snd (ixs ! n))) q \<Longrightarrow>
      \<exists>w'. g w = Some w' \<and> dt.wrap_at w' (blocks (snd (ixs ! n))) (q' n)"
  shows "\<exists>t1 t2. on_index f t = Some t1 \<and> on_data g (InitDataBlock A D bf t1) = Some t2 \<and>
    (case p' of None \<Rightarrow> tl_out ixs t2 \<and> tl_state ixs t2 None | Some n \<Rightarrow> tl_in ixs t2 n (q' n))"
proof -
  obtain t1 where t1: "on_index f t = Some t1" "tl_state ixs t1 p'" using tl_index_do [OF assms(1), of f p'] assms(2) by blast
  show ?thesis
  proof (cases p')
    case None
    then show ?thesis using t1 InitDataBlock_None [of ixs t1] by (auto simp: on_data_def tl_out_def)
  next
    case (Some n)
    obtain q where q: "tl_in ixs (InitDataBlock A D bf t1) n q" using InitDataBlock_Some t1(2) Some by blast
    obtain t2 where "on_data g (InitDataBlock A D bf t1) = Some t2" "tl_in ixs t2 n (q' n)"
      using tl_in_data [OF q, of g] assms(3) [OF Some] by blast
    then show ?thesis using t1(1) Some by auto
  qed
qed

lemma SkipForward_in: "tl_in ixs t n (Some j) \<Longrightarrow> SkipEmptyDataBlocksForward A D bf t = Some t"
  by (subst SkipEmptyDataBlocksForward.simps) (auto simp: tl_in_def dt.wrap_facts)

lemma SkipForward_out:
  "tl_out ixs t \<Longrightarrow> tl_state ixs t None \<Longrightarrow>
   \<exists>t'. SkipEmptyDataBlocksForward A D bf t = Some t' \<and> tl_at t' (tl_total blocks ixs) None"
  using Set_None_out [of ixs t None] tl_out_at
  by (subst SkipEmptyDataBlocksForward.simps) (auto simp: tl_out_def tl_state_def dest: ix.wrap_facts(1))

lemma tl_in_invalid: "tl_in ixs t n None \<Longrightarrow> \<not> iw_valid (tl_data t) \<and> iw_valid (tl_index t) \<and> tl_state ixs t (Some n)"
  by (auto simp: tl_in_def tl_state_def dt.wrap_facts ix.wrap_facts)

lemma SkipForward_next:
  assumes "tl_in ixs t n None"
  shows "\<exists>t'. SkipEmptyDataBlocksForward A D bf t = Some t' \<and>
    tl_at t' (tl_total blocks ixs) (at_pos (tl_total blocks ixs) (tl_start blocks ixs (Suc n)))"
  using assms
proof (induction "length ixs - n" arbitrary: t n rule: less_induct)
  case less
  note inv = tl_in_invalid [OF less.prems]
  have n: "n < length ixs" using less.prems by (simp add: tl_in_def)
  obtain t1 t2 where t: "on_index (iw_Next A) t = Some t1" "on_data (iw_SeekToFirst D) (InitDataBlock A D bf t1) = Some t2"
    "case at_pos ixs (Suc n) of None \<Rightarrow> tl_out ixs t2 \<and> tl_state ixs t2 None
     | Some m \<Rightarrow> tl_in ixs t2 m (at_pos (blocks (snd (ixs ! m))) 0)"
    using open_block [of ixs t "Some n" "iw_Next A" "at_pos ixs (Suc n)" "iw_SeekToFirst D" "\<lambda>m. at_pos (blocks (snd (ixs ! m))) 0"]
      inv ix.wrap_Next dt.wrap_SeekToFirst by blast
  then have step: "SkipEmptyDataBlocksForward A D bf t = SkipEmptyDataBlocksForward A D bf t2"
    using inv by (subst SkipEmptyDataBlocksForward.simps) simp
  show ?case
  proof (cases "Suc n < length ixs")
    case False
    then have "at_pos (tl_total blocks ixs) (tl_start blocks ixs (Suc n)) = None" using tl_start_all [of ixs "Suc n" blocks] by (simp add: at_pos_def)
    then show ?thesis using t(3) step SkipForward_out [of ixs t2] False by (simp add: at_pos_def)
  next
    case True
    then have in2: "tl_in ixs t2 (Suc n) (at_pos (blocks (snd (ixs ! Suc n))) 0)" using t(3) by (simp add: at_pos_def)
    show ?thesis
    proof (cases "blocks (snd (ixs ! Suc n)) = []")
      case empty: True
      then have "tl_start blocks ixs (Suc (Suc n)) = tl_start blocks ixs (Suc n)" using tl_start_Suc [OF True, of blocks] by simp
      then show ?thesis using less.hyps [of "Suc n" t2] n True in2 empty step by (simp add: at_pos_def)
    next
      case False
      then have "tl_in ixs t2 (Suc n) (Some 0)" using in2 by (simp add: at_pos_def)
      then show ?thesis
        using SkipForward_in tl_in_at [of ixs t2 "Suc n" 0] tl_total_nth(2) [OF True, of 0 blocks] False step
        by (simp add: at_pos_def)
    qed
  qed
qed

lemma SkipForward_pos:
  assumes "tl_in ixs t n (at_pos (blocks (snd (ixs ! n))) j)" "j \<le> length (blocks (snd (ixs ! n)))"
  shows "\<exists>t'. SkipEmptyDataBlocksForward A D bf t = Some t' \<and>
    tl_at t' (tl_total blocks ixs) (at_pos (tl_total blocks ixs) (tl_start blocks ixs n + j))"
proof (cases "j < length (blocks (snd (ixs ! n)))")
  case True
  then have "tl_in ixs t n (Some j)" using assms by (simp add: at_pos_def)
  then show ?thesis
    using SkipForward_in tl_in_at tl_total_nth(2) [of n ixs j blocks] True by (auto simp: at_pos_def tl_in_def)
next
  case False
  then have "tl_start blocks ixs (Suc n) = tl_start blocks ixs n + j" "tl_in ixs t n None"
    using assms tl_start_Suc [of n ixs blocks] by (auto simp: at_pos_def tl_in_def)
  then show ?thesis using SkipForward_next [of ixs t n] by simp
qed

lemma SkipBackward_in: "tl_in ixs t n (Some j) \<Longrightarrow> SkipEmptyDataBlocksBackward A D bf t = Some t"
  by (subst SkipEmptyDataBlocksBackward.simps) (auto simp: tl_in_def dt.wrap_facts)

lemma SkipBackward_out:
  "tl_out ixs t \<Longrightarrow> tl_state ixs t None \<Longrightarrow>
   \<exists>t'. SkipEmptyDataBlocksBackward A D bf t = Some t' \<and> tl_at t' (tl_total blocks ixs) None"
  using Set_None_out [of ixs t None] tl_out_at
  by (subst SkipEmptyDataBlocksBackward.simps) (auto simp: tl_out_def tl_state_def dest: ix.wrap_facts(1))

lemma SkipBackward_last:
  assumes "tl_in ixs t n (last_pos (blocks (snd (ixs ! n))))"
    and "tl_in ixs t n None \<Longrightarrow> \<exists>t'. SkipEmptyDataBlocksBackward A D bf t = Some t' \<and>
      tl_at t' (tl_total blocks ixs) (prev_pos (tl_start blocks ixs n))"
  shows "\<exists>t'. SkipEmptyDataBlocksBackward A D bf t = Some t' \<and>
    tl_at t' (tl_total blocks ixs) (prev_pos (tl_start blocks ixs (Suc n)))"
proof -
  have n: "n < length ixs" using assms(1) by (simp add: tl_in_def)
  show ?thesis
  proof (cases "blocks (snd (ixs ! n)) = []")
    case True
    then show ?thesis using assms tl_start_Suc [OF n, of blocks] by (simp add: last_pos_def)
  next
    case False
    then have "tl_in ixs t n (Some (length (blocks (snd (ixs ! n))) - 1))" using assms(1) by (simp add: last_pos_def)
    moreover have "prev_pos (tl_start blocks ixs (Suc n)) = Some (tl_start blocks ixs n + (length (blocks (snd (ixs ! n))) - 1))"
      using False by (simp add: tl_start_Suc [OF n] prev_pos_def Suc_leI)
    ultimately show ?thesis using SkipBackward_in tl_in_at by simp
  qed
qed

lemma SkipBackward_prev:
  "tl_in ixs t n None \<Longrightarrow> \<exists>t'. SkipEmptyDataBlocksBackward A D bf t = Some t' \<and>
    tl_at t' (tl_total blocks ixs) (prev_pos (tl_start blocks ixs n))"
proof (induction n arbitrary: t)
  case (0 t)
  note inv = tl_in_invalid [OF 0]
  obtain t1 t2 where t: "on_index (iw_Prev A) t = Some t1" "on_data (iw_SeekToLast D) (InitDataBlock A D bf t1) = Some t2"
    "tl_out ixs t2 \<and> tl_state ixs t2 None"
    using open_block [of ixs t "Some 0" "iw_Prev A" None "iw_SeekToLast D" "\<lambda>m. last_pos (blocks (snd (ixs ! m)))"]
      inv ix.wrap_Prev [where i = 0] dt.wrap_SeekToLast by (auto simp: prev_pos_def)
  then have "SkipEmptyDataBlocksBackward A D bf t = SkipEmptyDataBlocksBackward A D bf t2"
    using inv by (subst SkipEmptyDataBlocksBackward.simps) simp
  then show ?case using SkipBackward_out [of ixs t2] t(3) by (simp add: prev_pos_def)
next
  case (Suc n t)
  note inv = tl_in_invalid [OF Suc.prems]
  obtain t1 t2 where t: "on_index (iw_Prev A) t = Some t1" "on_data (iw_SeekToLast D) (InitDataBlock A D bf t1) = Some t2"
    "tl_in ixs t2 n (last_pos (blocks (snd (ixs ! n))))"
    using open_block [of ixs t "Some (Suc n)" "iw_Prev A" "Some n" "iw_SeekToLast D" "\<lambda>m. last_pos (blocks (snd (ixs ! m)))"]
      inv ix.wrap_Prev [where i = "Suc n"] dt.wrap_SeekToLast by (auto simp: prev_pos_def)
  then have "SkipEmptyDataBlocksBackward A D bf t = SkipEmptyDataBlocksBackward A D bf t2"
    using inv by (subst SkipEmptyDataBlocksBackward.simps) simp
  then show ?case using SkipBackward_last [OF t(3)] Suc.IH [of t2] by simp
qed

lemma lower_total:
  assumes "index_ok ixs" "kv_sorted cmp ok ixs" "ok k"
  defines "n \<equiv> lower cmp k ixs"
  shows "lower cmp k (tl_total blocks ixs) =
    (if n < length ixs then tl_start blocks ixs n + lower cmp k (blocks (snd (ixs ! n))) else length (tl_total blocks ixs))"
proof -
  have okt: "ok (fst e)" if "e \<in> set (tl_total blocks ixs)" for e using assms(1) that by (auto simp: index_ok_def kv_sorted_def)
  have okb: "ok (fst e)" if "i < length ixs" "e \<in> set (blocks (snd (ixs ! i)))" for i e
    using okt [of e] tl_total_split [OF that(1), of blocks] that(2) by simp
  have n: "n \<le> length ixs" using lower_le [of cmp k ixs] by (simp add: n_def)
  have less: "cmp (fst e) k < 0" if e: "e \<in> set (tl_total blocks (take n ixs))" for e
  proof -
    obtain x where x: "x \<in> set (take n ixs)" "e \<in> set (blocks (snd x))" using e by (auto simp: tl_total_def)
    obtain i where "i < n" "x = ixs ! i" using x(1) n by (auto simp: in_set_conv_nth)
    with x have i: "i < n" "e \<in> set (blocks (snd (ixs ! i)))" by simp_all
    then have "cmp (fst e) (fst (ixs ! i)) \<le> 0" using assms(1) n by (auto simp: index_ok_def)
    moreover have "cmp (fst (ixs ! i)) k < 0" using i(1) lower_less [of i cmp k ixs] by (simp add: n_def)
    ultimately show ?thesis
      using ix.ko_le_less [of "fst e" "fst (ixs ! i)" k] okb [of i e] kv_sorted_nth(2) [OF assms(2), of i] i n assms(3) by simp
  qed
  show ?thesis
  proof (cases "n < length ixs")
    case False
    then have "take n ixs = ixs" by simp
    then show ?thesis using False lower_append_less [of "tl_total blocks ixs" cmp k "[]"] less by (simp add: lower_def)
  next
    case True
    have kn: "\<not> cmp (fst (ixs ! n)) k < 0" using lower_not_less [of cmp k ixs] True by (simp add: n_def)
    have "\<not> cmp (fst e) k < 0" if e: "e \<in> set (tl_total blocks (drop (Suc n) ixs))" for e
    proof
      assume ek: "cmp (fst e) k < 0"
      obtain x where x: "x \<in> set (drop (Suc n) ixs)" "e \<in> set (blocks (snd x))" using e by (auto simp: tl_total_def)
      obtain i where "i < length ixs - Suc n" "x = ixs ! (Suc n + i)" using x(1) by (auto simp: in_set_conv_nth)
      then have "Suc n + i < length ixs" "x = ixs ! (Suc n + i)" by simp_all
      with x obtain j where j: "n < j" "j < length ixs" "e \<in> set (blocks (snd (ixs ! j)))" by (metis less_add_Suc1 add_Suc)
      then have "cmp (fst (ixs ! n)) (fst e) < 0" using assms(1) by (auto simp: index_ok_def)
      then show False
        using ix.ko_less_trans [of "fst (ixs ! n)" "fst e" k] ek kn okb [OF j(2,3)] kv_sorted_nth(2) [OF assms(2) True] assms(3) by simp
    qed
    then have "lower cmp k (tl_total blocks ixs) = length (tl_total blocks (take n ixs)) + lower cmp k (blocks (snd (ixs ! n)))"
      unfolding tl_total_split [OF True, of blocks] using less lower_append_less lower_append_ge by metis
    then show ?thesis using True by (simp add: tl_start_def)
  qed
qed

lemma tl_at_state: "tl_at t xs p \<Longrightarrow> \<exists>ixs p0. tl_state ixs t p0 \<and> xs = tl_total blocks ixs \<and> kv_sorted cmp ok ixs"
proof (cases p)
  case None
  then show "tl_at t xs p \<Longrightarrow> ?thesis" by (auto simp: tl_at_def tl_out_def tl_state_def dest: ix.wrap_facts(6))
next
  case (Some m)
  assume "tl_at t xs p"
  then obtain ixs n j where "tl_in ixs t n (Some j)" "xs = tl_total blocks ixs" using Some by (auto simp: tl_at_def)
  then show ?thesis
    by (intro exI [of _ ixs] exI [of _ "Some n"]) (auto simp: tl_in_def tl_state_def dest: ix.wrap_facts(6))
qed

lemma position_forward:
  assumes "tl_state ixs t p"
    and f: "\<And>w. ix.wrap_at w ixs p \<Longrightarrow> \<exists>w'. f w = Some w' \<and> ix.wrap_at w' ixs (at_pos ixs n)"
    and g: "\<And>w q. n < length ixs \<Longrightarrow> dt.wrap_at w (blocks (snd (ixs ! n))) q \<Longrightarrow>
      \<exists>w'. g w = Some w' \<and> dt.wrap_at w' (blocks (snd (ixs ! n))) (at_pos (blocks (snd (ixs ! n))) j)"
    and j: "j \<le> length (blocks (snd (ixs ! n)))"
  shows "\<exists>t'. tl_position f g (SkipEmptyDataBlocksForward A D bf) A D bf t = Some t' \<and>
    tl_at t' (tl_total blocks ixs) (if n < length ixs then at_pos (tl_total blocks ixs) (tl_start blocks ixs n + j) else None)"
proof -
  have g': "\<exists>w'. g w = Some w' \<and> dt.wrap_at w' (blocks (snd (ixs ! m))) (at_pos (blocks (snd (ixs ! m))) j)"
    if "at_pos ixs n = Some m" "dt.wrap_at w (blocks (snd (ixs ! m))) q" for m w q
    using g that by (auto simp: at_pos_def split: if_splits)
  obtain t1 t2 where t: "on_index f t = Some t1" "on_data g (InitDataBlock A D bf t1) = Some t2"
    "case at_pos ixs n of None \<Rightarrow> tl_out ixs t2 \<and> tl_state ixs t2 None
     | Some m \<Rightarrow> tl_in ixs t2 m (at_pos (blocks (snd (ixs ! m))) j)"
    using open_block [OF assms(1), of f "at_pos ixs n" g "\<lambda>m. at_pos (blocks (snd (ixs ! m))) j"] f g' by blast
  show ?thesis
  proof (cases "n < length ixs")
    case True
    then show ?thesis using t SkipForward_pos [of ixs t2 n j] j by (simp add: tl_position_def at_pos_def [of ixs])
  next
    case False
    then show ?thesis using t SkipForward_out [of ixs t2] by (simp add: tl_position_def at_pos_def [of ixs])
  qed
qed

lemma tl_SeekToFirst_at:
  assumes "tl_at t xs p" shows "\<exists>t'. tl_SeekToFirst A D bf t = Some t' \<and> tl_at t' xs (at_pos xs 0)"
proof -
  obtain ixs p0 where st: "tl_state ixs t p0" "xs = tl_total blocks ixs" using tl_at_state [OF assms] by blast
  have "\<not> 0 < length ixs \<Longrightarrow> at_pos xs 0 = None" by (simp add: st(2) at_pos_def tl_total_def)
  then show ?thesis
    using position_forward [OF st(1), of "iw_SeekToFirst A" 0 "iw_SeekToFirst D" 0] ix.wrap_SeekToFirst dt.wrap_SeekToFirst st(2)
    unfolding tl_SeekToFirst_def by (cases "0 < length ixs") auto
qed

lemma tl_Seek_at:
  assumes "tl_at t xs p" "ok k" shows "\<exists>t'. tl_Seek A D bf k t = Some t' \<and> tl_at t' xs (at_pos xs (lower cmp k xs))"
proof -
  obtain ixs p0 where st: "tl_state ixs t p0" "xs = tl_total blocks ixs" "kv_sorted cmp ok ixs" using tl_at_state [OF assms(1)] by blast
  let ?n = "lower cmp k ixs" and ?b = "blocks (snd (ixs ! lower cmp k ixs))"
  have ixok: "index_ok ixs" using st(1) by (simp add: tl_state_def)
  have pos: "at_pos xs (lower cmp k xs) = (if ?n < length ixs then at_pos xs (tl_start blocks ixs ?n + lower cmp k ?b) else None)"
    using lower_total [OF ixok st(3) assms(2)] st(2) by (simp add: at_pos_def)
  show ?thesis
    using position_forward [OF st(1), of "iw_Seek A k" ?n "iw_Seek D k" "lower cmp k ?b"] ix.wrap_Seek [OF _ assms(2)]
      dt.wrap_Seek [OF _ assms(2)] lower_le [of cmp k ?b]
    unfolding tl_Seek_def pos unfolding st(2) by blast
qed

lemma tl_SeekToLast_at:
  assumes "tl_at t xs p" shows "\<exists>t'. tl_SeekToLast A D bf t = Some t' \<and> tl_at t' xs (last_pos xs)"
proof -
  obtain ixs p0 where st: "tl_state ixs t p0" "xs = tl_total blocks ixs" using tl_at_state [OF assms] by blast
  obtain t1 t2 where t: "on_index (iw_SeekToLast A) t = Some t1" "on_data (iw_SeekToLast D) (InitDataBlock A D bf t1) = Some t2"
    "case last_pos ixs of None \<Rightarrow> tl_out ixs t2 \<and> tl_state ixs t2 None
     | Some m \<Rightarrow> tl_in ixs t2 m (last_pos (blocks (snd (ixs ! m))))"
    using open_block [OF st(1), of "iw_SeekToLast A" "last_pos ixs" "iw_SeekToLast D" "\<lambda>m. last_pos (blocks (snd (ixs ! m)))"]
      ix.wrap_SeekToLast dt.wrap_SeekToLast by blast
  show ?thesis
  proof (cases "ixs = []")
    case True
    then show ?thesis using t SkipBackward_out [of ixs t2] st(2)
      by (simp add: tl_SeekToLast_def tl_position_def last_pos_def tl_total_def)
  next
    case False
    have "last_pos xs = prev_pos (length xs)" by (simp add: last_pos_def prev_pos_def)
    moreover have "tl_start blocks ixs (Suc (length ixs - 1)) = length xs" using tl_start_all [of ixs "length ixs" blocks] False st(2) by simp
    ultimately show ?thesis
      using t SkipBackward_last [of ixs t2 "length ixs - 1"] SkipBackward_prev [of ixs t2 "length ixs - 1"] False st(2)
      by (simp add: tl_SeekToLast_def tl_position_def last_pos_def [of ixs])
  qed
qed

lemma tl_Next_at:
  assumes "tl_at t xs (Some m)" shows "\<exists>t'. tl_Next A D bf t = Some t' \<and> tl_at t' xs (at_pos xs (Suc m))"
proof -
  obtain ixs n j where t: "tl_in ixs t n (Some j)" "m = tl_start blocks ixs n + j" "xs = tl_total blocks ixs"
    using assms by (auto simp: tl_at_def)
  then have w: "dt.wrap_at (tl_data t) (blocks (snd (ixs ! n))) (Some j)" by (simp add: tl_in_def)
  obtain w' where w': "iw_Next D (tl_data t) = Some w'" "dt.wrap_at w' (blocks (snd (ixs ! n))) (at_pos (blocks (snd (ixs ! n))) (Suc j))"
    using dt.wrap_Next [OF w] by blast
  then show ?thesis
    using SkipForward_pos [OF tl_in_do [OF t(1) w'(2)]] dt.wrap_facts(4) [OF w] t by (simp add: tl_Next_def)
qed

lemma tl_Prev_at:
  assumes "tl_at t xs (Some m)" shows "\<exists>t'. tl_Prev A D bf t = Some t' \<and> tl_at t' xs (prev_pos m)"
proof -
  obtain ixs n j where t: "tl_in ixs t n (Some j)" "m = tl_start blocks ixs n + j" "xs = tl_total blocks ixs"
    using assms by (auto simp: tl_at_def)
  then have w: "dt.wrap_at (tl_data t) (blocks (snd (ixs ! n))) (Some j)" by (simp add: tl_in_def)
  obtain w' where w': "iw_Prev D (tl_data t) = Some w'" "dt.wrap_at w' (blocks (snd (ixs ! n))) (prev_pos j)"
    using dt.wrap_Prev [OF w] by blast
  note in' = tl_in_do [OF t(1) w'(2)]
  show ?thesis
  proof (cases j)
    case 0
    then show ?thesis using SkipBackward_prev [of ixs "t\<lparr> tl_data := w' \<rparr>" n] in' w'(1) t by (simp add: tl_Prev_def prev_pos_def)
  next
    case (Suc j')
    then have in'': "tl_in ixs (t\<lparr> tl_data := w' \<rparr>) n (Some j')" using in' by (simp add: prev_pos_def)
    then show ?thesis using SkipBackward_in [OF in''] tl_in_at [OF in''] w'(1) t Suc by (simp add: tl_Prev_def prev_pos_def)
  qed
qed

end

sublocale two_level \<subseteq> tl: list_iterator cmp ok "TwoLevelIterator A D bf" tl_at
proof
  fix t xs p
  assume at: "tl_at t xs p"
  obtain ixs p0 where st: "tl_state ixs t p0" "xs = tl_total blocks ixs" using tl_at_state [OF at] by blast
  show "kv_sorted cmp ok xs" using st by (simp add: tl_state_def index_ok_def)
  show "it_Valid (TwoLevelIterator A D bf) t = (p \<noteq> None)"
    using at by (auto simp: tl_at_def TwoLevelIterator_def tl_out_def tl_in_def dt.wrap_facts split: option.splits)
  show "it_status (TwoLevelIterator A D bf) t = Status_OK"
    using st(1) data_status [of t] ix.wrap_facts(5) by (auto simp: TwoLevelIterator_def tl_get_status_def tl_state_def status_ok_def Status_OK_def)
  show "\<exists>t'. it_SeekToFirst (TwoLevelIterator A D bf) t = Some t' \<and> tl_at t' xs (at_pos xs 0)"
    using tl_SeekToFirst_at [OF at] by (simp add: TwoLevelIterator_def)
  show "\<exists>t'. it_SeekToLast (TwoLevelIterator A D bf) t = Some t' \<and> tl_at t' xs (last_pos xs)"
    using tl_SeekToLast_at [OF at] by (simp add: TwoLevelIterator_def)
  show "\<exists>t'. it_Seek (TwoLevelIterator A D bf) k t = Some t' \<and> tl_at t' xs (at_pos xs (lower cmp k xs))" if "ok k" for k
    using tl_Seek_at [OF at that] by (simp add: TwoLevelIterator_def)
next
  fix t xs m
  assume at: "tl_at t xs (Some m)"
  then obtain ixs n j where t: "tl_in ixs t n (Some j)" "m = tl_start blocks ixs n + j" "xs = tl_total blocks ixs"
    by (auto simp: tl_at_def)
  then have w: "dt.wrap_at (tl_data t) (blocks (snd (ixs ! n))) (Some j)" and n: "n < length ixs" by (simp_all add: tl_in_def)
  note j = dt.wrap_facts(4) [OF w]
  show "m < length xs" using tl_total_nth(2) [where blocks = blocks, OF n j] t by simp
  show "it_key (TwoLevelIterator A D bf) t = fst (xs ! m)" "it_value (TwoLevelIterator A D bf) t = snd (xs ! m)"
    using tl_total_nth(1) [where blocks = blocks, OF n j] t dt.wrap_facts(2,3) [OF w] by (simp_all add: TwoLevelIterator_def)
  show "\<exists>t'. it_Next (TwoLevelIterator A D bf) t = Some t' \<and> tl_at t' xs (at_pos xs (Suc m))"
    using tl_Next_at [OF at] by (simp add: TwoLevelIterator_def)
  show "\<exists>t'. it_Prev (TwoLevelIterator A D bf) t = Some t' \<and> tl_at t' xs (prev_pos m)"
    using tl_Prev_at [OF at] by (simp add: TwoLevelIterator_def)
qed

end
