(* ===== verification/Table_Format.thy ===== *)
theory Table_Format
  imports Two_Level Filter_Block Crc32c File_Ops
begin

text \<open>
  \<^verbatim>\<open>table/format.cc\<close>: block handles, the footer of a table file, and the reading of one block with its type byte and
  checksum. The compression libraries are called through \<^verbatim>\<open>port/port_stdcxx.h\<close>; \<open>Port\<close> is the record of those calls, an
  argument, with \<open>no_compression_port\<close> the build without the libraries. Whether the file's \<^verbatim>\<open>Read\<close> filled a buffer of its
  own (it does not for a mapped file) is the argument \<open>buffered\<close>. Reading outside the bytes that were read is \<open>None\<close>.
\<close>

unbundle bit_operations_syntax

record BlockHandle =
  bh_offset :: u64
  bh_size :: u64

definition new_BlockHandle :: BlockHandle where
  "new_BlockHandle = \<lparr> bh_offset = - 1, bh_size = - 1 \<rparr>"

definition BlockHandle_EncodeTo :: "slice \<Rightarrow> BlockHandle \<Rightarrow> slice" where
  "BlockHandle_EncodeTo dst h = PutVarint64 (PutVarint64 dst (bh_offset h)) (bh_size h)"

definition BlockHandle_DecodeFrom :: "slice \<Rightarrow> Status + BlockHandle \<times> slice" where
  "BlockHandle_DecodeFrom input =
     (case GetVarint64 input of None \<Rightarrow> Inl (Corruption (bytes_of_string ''bad block handle'') [])
      | Some (offset, input) \<Rightarrow> (case GetVarint64 input of None \<Rightarrow> Inl (Corruption (bytes_of_string ''bad block handle'') [])
          | Some (n, input) \<Rightarrow> Inr (\<lparr> bh_offset = offset, bh_size = n \<rparr>, input)))"

abbreviation (input) kMaxEncodedLength :: nat where "kMaxEncodedLength \<equiv> 20"
abbreviation (input) kEncodedLength :: nat where "kEncodedLength \<equiv> 48"
abbreviation (input) kTableMagicNumber :: u64 where "kTableMagicNumber \<equiv> 0xdb4775248b80fb57"
abbreviation (input) kBlockTrailerSize :: nat where "kBlockTrailerSize \<equiv> 5"

record Footer =
  ft_metaindex_handle :: BlockHandle
  ft_index_handle :: BlockHandle

definition resize :: "nat \<Rightarrow> slice \<Rightarrow> slice" where
  "resize n d = take n d @ replicate (n - length d) 0"

text \<open>The size after the padding does not count what the string held before.\<close>

definition Footer_EncodeTo :: "slice \<Rightarrow> Footer \<Rightarrow> slice" where
  "Footer_EncodeTo dst f =
     (let dst = BlockHandle_EncodeTo dst (ft_metaindex_handle f);
          dst = BlockHandle_EncodeTo dst (ft_index_handle f);
          dst = resize (2 * kMaxEncodedLength) dst;
          dst = PutFixed32 dst (ucast (kTableMagicNumber AND 0xffffffff))
      in PutFixed32 dst (ucast (drop_bit 32 kTableMagicNumber)))"

definition Footer_DecodeFrom :: "slice \<Rightarrow> Status + Footer \<times> slice" where
  "Footer_DecodeFrom input =
     (if length input < kEncodedLength then Inl (Corruption (bytes_of_string ''not an sstable (footer too short)'') [])
      else
        let magic_ptr = drop (kEncodedLength - 8) input; magic_lo = DecodeFixed32 magic_ptr;
            magic_hi = DecodeFixed32 (drop 4 magic_ptr); magic = push_bit 32 (ucast magic_hi) OR ucast magic_lo :: u64
        in if magic \<noteq> kTableMagicNumber then Inl (Corruption (bytes_of_string ''not an sstable (bad magic number)'') [])
           else case BlockHandle_DecodeFrom input of Inl s \<Rightarrow> Inl s
             | Inr (metaindex_handle, in1) \<Rightarrow> (case BlockHandle_DecodeFrom in1 of Inl s \<Rightarrow> Inl s
                 | Inr (index_handle, in2) \<Rightarrow>
                     Inr (\<lparr> ft_metaindex_handle = metaindex_handle, ft_index_handle = index_handle \<rparr>, drop 8 magic_ptr)))"

section \<open>Compression\<close>

record Port =
  Snappy_Compress :: "slice \<Rightarrow> slice option"
  Snappy_GetUncompressedLength :: "slice \<Rightarrow> nat option"
  Snappy_Uncompress :: "slice \<Rightarrow> slice option"
  Zstd_Compress :: "int \<Rightarrow> slice \<Rightarrow> slice option"
  Zstd_GetUncompressedLength :: "slice \<Rightarrow> nat option"
  Zstd_Uncompress :: "slice \<Rightarrow> slice option"

text \<open>The branches of \<^verbatim>\<open>port/port_stdcxx.h\<close> for a build without the libraries: every call returns false.\<close>

definition no_Snappy_Compress :: "slice \<Rightarrow> slice option" where
  "no_Snappy_Compress input = None"

definition no_Snappy_GetUncompressedLength :: "slice \<Rightarrow> nat option" where
  "no_Snappy_GetUncompressedLength input = None"

definition no_Snappy_Uncompress :: "slice \<Rightarrow> slice option" where
  "no_Snappy_Uncompress input = None"

definition no_Zstd_Compress :: "int \<Rightarrow> slice \<Rightarrow> slice option" where
  "no_Zstd_Compress level input = None"

definition no_Zstd_GetUncompressedLength :: "slice \<Rightarrow> nat option" where
  "no_Zstd_GetUncompressedLength input = None"

definition no_Zstd_Uncompress :: "slice \<Rightarrow> slice option" where
  "no_Zstd_Uncompress input = None"

definition no_compression_port :: Port where
  "no_compression_port = \<lparr> Snappy_Compress = no_Snappy_Compress,
     Snappy_GetUncompressedLength = no_Snappy_GetUncompressedLength, Snappy_Uncompress = no_Snappy_Uncompress,
     Zstd_Compress = no_Zstd_Compress, Zstd_GetUncompressedLength = no_Zstd_GetUncompressedLength,
     Zstd_Uncompress = no_Zstd_Uncompress \<rparr>"

text \<open>What is compressed is uncompressed again.\<close>

locale compression_port =
  fixes port :: Port
  assumes snappy: "Snappy_Compress port d = Some c \<Longrightarrow>
      Snappy_GetUncompressedLength port c = Some (length d) \<and> Snappy_Uncompress port c = Some d"
    and zstd: "Zstd_Compress port level d = Some c \<Longrightarrow> d \<noteq> [] \<Longrightarrow>
      Zstd_GetUncompressedLength port c = Some (length d) \<and> Zstd_Uncompress port c = Some d"

interpretation no_compression: compression_port no_compression_port
  by unfold_locales (simp_all add: no_compression_port_def no_Snappy_Compress_def no_Zstd_Compress_def)

section \<open>Reading a block\<close>

record BlockContents =
  bc_data :: slice
  bc_cachable :: bool

abbreviation (input) kNoCompression :: byte where "kNoCompression \<equiv> 0"
abbreviation (input) kSnappyCompression :: byte where "kSnappyCompression \<equiv> 1"
abbreviation (input) kZstdCompression :: byte where "kZstdCompression \<equiv> 2"

definition uncompress :: "string \<Rightarrow> (slice \<Rightarrow> nat option) \<Rightarrow> (slice \<Rightarrow> slice option) \<Rightarrow> slice \<Rightarrow> Status + BlockContents" where
  "uncompress name get_length get data =
     (case get_length data of
        None \<Rightarrow> Inl (Corruption (bytes_of_string (''corrupted '' @ name @ '' compressed block length'')) [])
      | Some ulength \<Rightarrow> (case get data of
          None \<Rightarrow> Inl (Corruption (bytes_of_string (''corrupted '' @ name @ '' compressed block contents'')) [])
        | Some ubuf \<Rightarrow> Inr \<lparr> bc_data = take ulength ubuf, bc_cachable = False \<rparr>))"

text \<open>The checksum test, where \<open>m\<close> is \<^verbatim>\<open>n + 1\<close> in 64 bits; \<open>None\<close> when it reads outside the bytes.\<close>

definition block_checksum_ok :: "slice \<Rightarrow> u64 \<Rightarrow> bool option" where
  "block_checksum_ok data m =
     (if length data < unat m + 4 then None
      else let crc = Unmask (DecodeFixed32 (drop (unat m) data)); actual = crc_Extend 0 (take (unat m) data)
           in Some (actual = crc))"

definition ReadBlock :: "Port \<Rightarrow> 'f RandomAccessFile \<Rightarrow> bool \<Rightarrow> 'f \<Rightarrow> bool \<Rightarrow> BlockHandle \<Rightarrow> (Status + BlockContents) option" where
  "ReadBlock port ops buffered f verify_checksums handle =
     (let n = bh_size handle; (s, contents) = rf_Read ops (unat (bh_offset handle)) (unat (n + 5)) f in
      if \<not> status_ok s then Some (Inl s)
      else if length contents \<noteq> unat (n + 5) then Some (Inl (Corruption (bytes_of_string ''truncated block read'') []))
      else case (if verify_checksums then block_checksum_ok contents (n + 1) else Some True) of
        None \<Rightarrow> None
      | Some ok \<Rightarrow>
          if \<not> ok then Some (Inl (Corruption (bytes_of_string ''block checksum mismatch'') []))
          else if length contents \<le> unat n then None
          else
            let data = take (unat n) contents; type = contents ! unat n in
            Some (if type = kNoCompression then Inr \<lparr> bc_data = data, bc_cachable = buffered \<rparr>
              else if type = kSnappyCompression
              then uncompress ''snappy'' (Snappy_GetUncompressedLength port) (Snappy_Uncompress port) data
              else if type = kZstdCompression
              then uncompress ''zstd'' (Zstd_GetUncompressedLength port) (Zstd_Uncompress port) data
              else Inl (Corruption (bytes_of_string ''bad block type'') [])))"

section \<open>Handles and footers come back\<close>

lemma handle_encode: "BlockHandle_EncodeTo dst h = dst @ EncodeVarint64 (bh_offset h) @ EncodeVarint64 (bh_size h)"
  by (simp add: BlockHandle_EncodeTo_def PutVarint64_def)

lemma handle_roundtrip [codec_simps]: "BlockHandle_DecodeFrom (BlockHandle_EncodeTo [] h @ rest) = Inr (h, rest)"
  by (simp add: handle_encode BlockHandle_DecodeFrom_def codec_simps)

lemma length_handle: "length (BlockHandle_EncodeTo [] h) \<le> 20"
  using add_mono [OF length_EncodeVarint(2) [of "bh_offset h"] length_EncodeVarint(2) [of "bh_size h"]]
  by (simp add: handle_encode)

lemma magic_words:
  "push_bit 32 (ucast (ucast (drop_bit 32 kTableMagicNumber) :: u32)) OR ucast (ucast (kTableMagicNumber AND 0xffffffff) :: u32)
    = kTableMagicNumber"
  by code_simp

lemma footer_encode:
  "Footer_EncodeTo [] f = (let hs = BlockHandle_EncodeTo [] (ft_metaindex_handle f) @ BlockHandle_EncodeTo [] (ft_index_handle f) in
     hs @ replicate (40 - length hs) 0 @ EncodeFixed32 (ucast (kTableMagicNumber AND 0xffffffff)) @
     EncodeFixed32 (ucast (drop_bit 32 kTableMagicNumber)))"
  using length_handle [of "ft_metaindex_handle f"] length_handle [of "ft_index_handle f"]
  by (simp add: Footer_EncodeTo_def Let_def resize_def PutFixed32_def handle_encode)

lemma length_footer: "length (Footer_EncodeTo [] f) = 48"
  using length_handle [of "ft_metaindex_handle f"] length_handle [of "ft_index_handle f"]
  by (simp add: footer_encode Let_def)

lemma footer_decode: "Footer_DecodeFrom (Footer_EncodeTo [] f @ rest) = Inr (f, rest)"
proof -
  let ?hs = "BlockHandle_EncodeTo [] (ft_metaindex_handle f) @ BlockHandle_EncodeTo [] (ft_index_handle f)"
  let ?m = "EncodeFixed32 (ucast (kTableMagicNumber AND 0xffffffff)) @ EncodeFixed32 (ucast (drop_bit 32 kTableMagicNumber)) @ rest"
  have e: "Footer_EncodeTo [] f @ rest = ?hs @ replicate (40 - length ?hs) 0 @ ?m" by (simp add: footer_encode Let_def)
  have "length ?hs \<le> 40"
    using length_handle [of "ft_metaindex_handle f"] length_handle [of "ft_index_handle f"] by simp
  then have m: "drop 40 (Footer_EncodeTo [] f @ rest) = ?m" unfolding e by simp
  have d: "BlockHandle_DecodeFrom (Footer_EncodeTo [] f @ rest) =
      Inr (ft_metaindex_handle f, BlockHandle_EncodeTo [] (ft_index_handle f) @ replicate (40 - length ?hs) 0 @ ?m)"
    unfolding e append_assoc by (rule handle_roundtrip)
  have "\<not> length (Footer_EncodeTo [] f @ rest) < 48" by (simp add: length_footer)
  moreover have "drop (48 - 8) (Footer_EncodeTo [] f @ rest) = ?m" using m by simp
  ultimately show ?thesis
    unfolding Footer_DecodeFrom_def Let_def d by (simp only: if_False) (simp add: codec_simps magic_words)
qed

section \<open>Blocks in a file\<close>

definition block_image :: "byte \<Rightarrow> slice \<Rightarrow> slice" where
  "block_image type raw = raw @ [type] @ EncodeFixed32 (Mask (crc_Extend (crc_Extend 0 raw) [type]))"

definition decodes :: "Port \<Rightarrow> byte \<Rightarrow> slice \<Rightarrow> slice \<Rightarrow> bool" where
  "decodes port type raw d \<longleftrightarrow> type = 0 \<and> d = raw \<or>
     type = 1 \<and> Snappy_GetUncompressedLength port raw = Some (length d) \<and> Snappy_Uncompress port raw = Some d \<or>
     type = 2 \<and> Zstd_GetUncompressedLength port raw = Some (length d) \<and> Zstd_Uncompress port raw = Some d"

text \<open>The bytes of the block at a handle, somewhere in the file, stand for the contents \<open>d\<close>.\<close>

definition stored :: "Port \<Rightarrow> slice \<Rightarrow> BlockHandle \<Rightarrow> slice \<Rightarrow> bool" where
  "stored port F h d \<longleftrightarrow> (\<exists>pre post type raw. F = pre @ block_image type raw @ post \<and> unat (bh_offset h) = length pre \<and>
     unat (bh_size h) = length raw \<and> length raw + 5 < 2 ^ 64 \<and> decodes port type raw d)"

lemma stored_append: "stored port F h d \<Longrightarrow> stored port (F @ G) h d"
  unfolding stored_def by (metis append.assoc)

lemma length_block_image [simp]: "length (block_image type raw) = length raw + 5"
  by (simp add: block_image_def)

context reliable_random_reader
begin

lemma ReadBlock_stored:
  assumes "inv f" "stored port (contents f) h d"
  shows "\<exists>c. ReadBlock port ops buffered f verify h = Some (Inr \<lparr> bc_data = d, bc_cachable = c \<rparr>)"
proof -
  obtain pre post type raw where F: "contents f = pre @ block_image type raw @ post" "unat (bh_offset h) = length pre"
    "unat (bh_size h) = length raw" "length raw + 5 < 2 ^ 64" "decodes port type raw d"
    using assms(2) by (auto simp: stored_def)
  have n: "unat (bh_size h + 5) = length raw + 5" using F(3,4) by (simp add: unat_word_ariths)
  have "rf_Read ops (unat (bh_offset h)) (unat (bh_size h + 5)) f = (Status_OK, block_image type raw)"
    using pread [OF assms(1), of "unat (bh_offset h)" "length raw + 5"] F(1,2) by (simp add: n)
  moreover have "crc_Extend 0 (take (length raw + 1) (block_image type raw)) =
      Unmask (DecodeFixed32 (drop (length raw + 1) (block_image type raw)))"
    by (simp add: block_image_def crc_Extend_append codec_simps)
  moreover have "unat (bh_size h + 1) = length raw + 1" using F(3,4) by (simp add: unat_word_ariths)
  moreover have "block_image type raw ! length raw = type" "take (length raw) (block_image type raw) = raw"
    by (simp_all add: block_image_def)
  ultimately show ?thesis using F(5) by (auto simp: ReadBlock_def block_checksum_ok_def Let_def F(3) n decodes_def uncompress_def)
qed

end

lemma crc_Extend_Nil: "crc_Extend 0 [] = 0"
  by (simp add: crc_Extend_def Extend_portable_spec crc32c_spec_def)

text \<open>The sums for a size within five of \<open>2 ^ 64\<close>.\<close>

lemma wrapped_size:
  fixes n :: u64
  assumes "\<not> unat n + 5 < 2 ^ 64"
  shows "unat (n + 5) \<le> 4" "unat (n + 5) \<le> unat n"
    "unat (n + 1) + 4 \<le> unat (n + 5) \<longleftrightarrow> unat n = 2 ^ 64 - 1" "unat n = 2 ^ 64 - 1 \<Longrightarrow> unat (n + 1) = 0"
proof -
  have l: "unat n < 2 ^ 64" using unat_lt2p [of n] by simp
  have s: "unat (n + 5) = unat n + 5 - 2 ^ 64" using assms l by (simp add: unat_word_ariths mod_if)
  have o: "unat (n + 1) = (if unat n = 2 ^ 64 - 1 then 0 else unat n + 1)" using l by (auto simp: unat_word_ariths mod_if)
  show "unat (n + 5) \<le> 4" "unat (n + 5) \<le> unat n" using s l assms by simp_all
  show "unat n = 2 ^ 64 - 1 \<Longrightarrow> unat (n + 1) = 0" using o by simp
  show "unat (n + 1) + 4 \<le> unat (n + 5) \<longleftrightarrow> unat n = 2 ^ 64 - 1"
    using s l assms unfolding o by (cases "unat n = 2 ^ 64 - 1") simp_all
qed

section \<open>Properties\<close>

text \<open>C38. A footer takes exactly 48 bytes and decoding it, whatever follows, gives back both handles and what follows.\<close>
theorem footer_roundtrip:
  "length (Footer_EncodeTo [] f) = kEncodedLength \<and> Footer_DecodeFrom (Footer_EncodeTo [] f @ rest) = Inr (f, rest)"
  by (simp add: length_footer footer_decode)

text \<open>C39. Reading a block leaves the bytes that were read exactly when the handle's size plus five does not fit 64 bits, the
  file returned as many bytes as the wrapped sum, so that the check for a truncated block passes, and the checksum test
  does not end the read first. It does only for the size \<open>2 ^ 64 - 1\<close>, where it compares the four bytes read with the
  checksum of no bytes. With every other handle a block or an error status is returned.\<close>
theorem read_block_out_of_bounds:
  "ReadBlock port ops buffered f verify h = None \<longleftrightarrow> 2 ^ 64 \<le> unat (bh_size h) + kBlockTrailerSize \<and>
     (let (s, contents) = rf_Read ops (unat (bh_offset h)) (unat (bh_size h + 5)) f in
      status_ok s \<and> length contents = unat (bh_size h + 5) \<and>
      \<not> (verify \<and> unat (bh_size h) = 2 ^ 64 - 1 \<and> Unmask (DecodeFixed32 contents) \<noteq> 0))"
proof (cases "unat (bh_size h) + 5 < 2 ^ 64")
  case True
  then have "unat (bh_size h + 5) = unat (bh_size h) + 5" "unat (bh_size h + 1) = unat (bh_size h) + 1"
    by (simp_all add: unat_word_ariths)
  then show ?thesis using True by (auto simp: ReadBlock_def block_checksum_ok_def Let_def split: prod.splits)
next
  case False
  note n = wrapped_size [OF False]
  show ?thesis
  proof (cases "unat (bh_size h) = 2 ^ 64 - 1")
    case True
    then show ?thesis using n n(4) [OF True]
      by (auto simp: ReadBlock_def block_checksum_ok_def Let_def crc_Extend_Nil split: prod.splits)
  next
    case other: False
    then have "unat (bh_size h + 5) < unat (bh_size h + 1) + 4" using n(3) by linarith
    then show ?thesis using False other n(2) by (auto simp: ReadBlock_def block_checksum_ok_def Let_def split: prod.splits)
  qed
qed

end
