(* ===== verification/Table_Builder.thy ===== *)
theory Table_Builder
  imports Table_Format "HOL-Library.Sublist"
begin

text \<open>
  \<^verbatim>\<open>table/table_builder.cc\<close>: the builder of a table file. The state is the members of \<^verbatim>\<open>Rep\<close>; the filter block builder keeps
  the policy it was made with; the scratch string for compressed bytes is empty between calls and has no field. Assertions are not checks of the built program. Finishing
  asks the policy of the current options for its name, which is a null pointer (\<open>None\<close>) when \<^verbatim>\<open>ChangeOptions\<close> took the
  policy away.
\<close>

text \<open>The environment, the logger and the cache are pointers, here natural numbers; \<open>None\<close> is the null pointer.\<close>

record Options =
  opt_comparator :: Comparator
  opt_create_if_missing :: bool
  opt_error_if_exists :: bool
  opt_paranoid_checks :: bool
  opt_using_direct_io :: bool
  opt_env :: nat
  opt_info_log :: "nat option"
  opt_write_buffer_size :: nat
  opt_max_open_files :: int
  opt_block_cache :: "nat option"
  opt_block_size :: nat
  opt_block_restart_interval :: nat
  opt_max_file_size :: nat
  opt_compression :: byte
  opt_zstd_compression_level :: int
  opt_reuse_logs :: bool
  opt_filter_policy :: "FilterPolicy option"

record 'f TableBuilder =
  tb_options :: Options
  tb_index_block_options :: Options
  tb_file :: 'f
  tb_offset :: u64
  tb_status :: Status
  tb_data_block :: BlockBuilder
  tb_index_block :: BlockBuilder
  tb_last_key :: slice
  tb_num_entries :: u64
  tb_closed :: bool
  tb_filter_block :: "(FilterPolicy \<times> FilterBlockBuilder) option"
  tb_pending_index_entry :: bool
  tb_pending_handle :: BlockHandle

definition tb_StartBlock :: "'f TableBuilder \<Rightarrow> 'f TableBuilder" where
  "tb_StartBlock r = r\<lparr> tb_filter_block := map_option (\<lambda>(p, b). (p, StartBlock p b (tb_offset r))) (tb_filter_block r) \<rparr>"

definition new_TableBuilder :: "Options \<Rightarrow> 'f \<Rightarrow> 'f TableBuilder" where
  "new_TableBuilder opt f =
     tb_StartBlock \<lparr> tb_options = opt, tb_index_block_options = opt\<lparr> opt_block_restart_interval := 1 \<rparr>, tb_file = f,
       tb_offset = 0, tb_status = Status_OK, tb_data_block = new_BlockBuilder, tb_index_block = new_BlockBuilder,
       tb_last_key = [], tb_num_entries = 0, tb_closed = False,
       tb_filter_block = map_option (\<lambda>p. (p, new_FilterBlockBuilder)) (opt_filter_policy opt),
       tb_pending_index_entry = False, tb_pending_handle = new_BlockHandle \<rparr>"

text \<open>Comparators are compared as pointers; \<open>same_comparator\<close> is the outcome.\<close>

definition ChangeOptions :: "bool \<Rightarrow> Options \<Rightarrow> 'f TableBuilder \<Rightarrow> Status \<times> 'f TableBuilder" where
  "ChangeOptions same_comparator options r =
     (if \<not> same_comparator
      then (InvalidArgument (bytes_of_string ''changing comparator while building table'') [], r)
      else (Status_OK, r\<lparr> tb_options := options, tb_index_block_options := options\<lparr> opt_block_restart_interval := 1 \<rparr> \<rparr>))"

definition WriteRawBlock :: "'f WritableFile \<Rightarrow> slice \<Rightarrow> byte \<Rightarrow> 'f TableBuilder \<Rightarrow> 'f TableBuilder \<times> BlockHandle" where
  "WriteRawBlock ops block_contents type r =
     (let handle = \<lparr> bh_offset = tb_offset r, bh_size = of_nat (length block_contents) \<rparr>;
          (s, f) = wf_Append ops block_contents (tb_file r); r = r\<lparr> tb_file := f, tb_status := s \<rparr>
      in if \<not> status_ok s then (r, handle)
         else
           let crc = crc_Extend (crc_Extend 0 block_contents) [type]; trailer = [type] @ EncodeFixed32 (Mask crc);
               (s, f) = wf_Append ops trailer (tb_file r); r = r\<lparr> tb_file := f, tb_status := s \<rparr>
           in (if \<not> status_ok s then r
               else r\<lparr> tb_offset := tb_offset r + of_nat (length block_contents + kBlockTrailerSize) \<rparr>, handle))"

text \<open>The compressed bytes are used when they save an eighth.\<close>

definition if_smaller :: "slice option \<Rightarrow> byte \<Rightarrow> slice \<Rightarrow> slice \<times> byte" where
  "if_smaller compressed type raw =
     (case compressed of None \<Rightarrow> (raw, kNoCompression)
      | Some c \<Rightarrow> if length c < length raw - length raw div 8 then (c, type) else (raw, kNoCompression))"

definition compress_block :: "Port \<Rightarrow> Options \<Rightarrow> slice \<Rightarrow> slice \<times> byte" where
  "compress_block port options raw =
     (let type = opt_compression options in
      if type = kNoCompression then (raw, type)
      else if type = kSnappyCompression then if_smaller (Snappy_Compress port raw) type raw
      else if type = kZstdCompression then if_smaller (Zstd_Compress port (opt_zstd_compression_level options) raw) type raw
      else ([], type))"

definition WriteBlock :: "Port \<Rightarrow> 'f WritableFile \<Rightarrow> BlockBuilder \<Rightarrow> 'f TableBuilder \<Rightarrow> 'f TableBuilder \<times> BlockBuilder \<times> BlockHandle" where
  "WriteBlock port ops block r =
     (let (raw, block) = BB_Finish block; (block_contents, type) = compress_block port (tb_options r) raw;
          (r, handle) = WriteRawBlock ops block_contents type r
      in (r, BB_Reset block, handle))"

definition tb_ok :: "'f TableBuilder \<Rightarrow> bool" where
  "tb_ok r = status_ok (tb_status r)"

definition tb_Flush :: "Port \<Rightarrow> 'f WritableFile \<Rightarrow> 'f TableBuilder \<Rightarrow> 'f TableBuilder" where
  "tb_Flush port ops r =
     (if \<not> tb_ok r then r
      else if BB_empty (tb_data_block r) then r
      else
        let (r, block, handle) = WriteBlock port ops (tb_data_block r) r;
            r = r\<lparr> tb_data_block := block, tb_pending_handle := handle \<rparr>;
            r = (if tb_ok r
                 then let (s, f) = wf_Flush ops (tb_file r) in r\<lparr> tb_pending_index_entry := True, tb_file := f, tb_status := s \<rparr>
                 else r)
        in tb_StartBlock r)"

text \<open>The index entry of the block that is complete, under the key \<open>last_key\<close> that was chosen for it.\<close>

definition add_index_entry :: "slice \<Rightarrow> 'f TableBuilder \<Rightarrow> 'f TableBuilder" where
  "add_index_entry last_key r =
     r\<lparr> tb_last_key := last_key,
        tb_index_block := BB_Add (opt_block_restart_interval (tb_index_block_options r)) last_key
          (BlockHandle_EncodeTo [] (tb_pending_handle r)) (tb_index_block r),
        tb_pending_index_entry := False \<rparr>"

text \<open>The body of \<^verbatim>\<open>Add\<close> up to the check of the block's size.\<close>

definition add_entry :: "slice \<Rightarrow> slice \<Rightarrow> 'f TableBuilder \<Rightarrow> 'f TableBuilder" where
  "add_entry key value r =
     (let r = (if tb_pending_index_entry r
               then add_index_entry (FindShortestSeparator (opt_comparator (tb_options r)) (tb_last_key r) key) r else r);
          r = r\<lparr> tb_filter_block := map_option (\<lambda>(p, b). (p, AddKey b key)) (tb_filter_block r) \<rparr>
      in r\<lparr> tb_last_key := key, tb_num_entries := tb_num_entries r + 1,
            tb_data_block := BB_Add (opt_block_restart_interval (tb_options r)) key value (tb_data_block r) \<rparr>)"

definition tb_Add :: "Port \<Rightarrow> 'f WritableFile \<Rightarrow> slice \<Rightarrow> slice \<Rightarrow> 'f TableBuilder \<Rightarrow> 'f TableBuilder" where
  "tb_Add port ops key value r =
     (if \<not> tb_ok r then r
      else
        let r = add_entry key value r
        in if CurrentSizeEstimate (tb_data_block r) \<ge> opt_block_size (tb_options r) then tb_Flush port ops r else r)"

text \<open>The parts of \<^verbatim>\<open>Finish\<close>: the filter block, the metaindex block, the index block, the footer.\<close>

definition finish_filter :: "'f WritableFile \<Rightarrow> 'f TableBuilder \<Rightarrow> 'f TableBuilder \<times> BlockHandle" where
  "finish_filter ops r =
     (case tb_filter_block r of
        Some (p, b) \<Rightarrow> if tb_ok r
          then let (b, filter_contents) = Finish p b
               in WriteRawBlock ops filter_contents kNoCompression (r\<lparr> tb_filter_block := Some (p, b) \<rparr>)
          else (r, new_BlockHandle)
      | None \<Rightarrow> (r, new_BlockHandle))"

definition filter_key :: "FilterPolicy \<Rightarrow> slice" where
  "filter_key p = bytes_of_string (''filter.'' @ Name p)"

definition finish_metaindex ::
    "Port \<Rightarrow> 'f WritableFile \<Rightarrow> BlockHandle \<Rightarrow> 'f TableBuilder \<Rightarrow> ('f TableBuilder \<times> BlockHandle) option" where
  "finish_metaindex port ops filter_block_handle r =
     (if \<not> tb_ok r then Some (r, new_BlockHandle)
      else
        let meta = (if tb_filter_block r = None then Some new_BlockBuilder
                    else map_option (\<lambda>p. BB_Add (opt_block_restart_interval (tb_options r)) (filter_key p)
                        (BlockHandle_EncodeTo [] filter_block_handle) new_BlockBuilder) (opt_filter_policy (tb_options r)))
        in map_option (\<lambda>meta. let (r, _, handle) = WriteBlock port ops meta r in (r, handle)) meta)"

definition finish_index :: "Port \<Rightarrow> 'f WritableFile \<Rightarrow> 'f TableBuilder \<Rightarrow> 'f TableBuilder \<times> BlockHandle" where
  "finish_index port ops r =
     (if \<not> tb_ok r then (r, new_BlockHandle)
      else
        let r = (if tb_pending_index_entry r
                 then add_index_entry (FindShortSuccessor (opt_comparator (tb_options r)) (tb_last_key r)) r else r);
            (r, block, handle) = WriteBlock port ops (tb_index_block r) r
        in (r\<lparr> tb_index_block := block \<rparr>, handle))"

definition finish_footer :: "'f WritableFile \<Rightarrow> BlockHandle \<Rightarrow> BlockHandle \<Rightarrow> 'f TableBuilder \<Rightarrow> 'f TableBuilder" where
  "finish_footer ops metaindex_handle index_handle r =
     (if \<not> tb_ok r then r
      else
        let footer_encoding = Footer_EncodeTo [] \<lparr> ft_metaindex_handle = metaindex_handle, ft_index_handle = index_handle \<rparr>;
            (s, f) = wf_Append ops footer_encoding (tb_file r); r = r\<lparr> tb_file := f, tb_status := s \<rparr>
        in if status_ok s then r\<lparr> tb_offset := tb_offset r + of_nat (length footer_encoding) \<rparr> else r)"

definition tb_Finish :: "Port \<Rightarrow> 'f WritableFile \<Rightarrow> 'f TableBuilder \<Rightarrow> (Status \<times> 'f TableBuilder) option" where
  "tb_Finish port ops r =
     (let r = (tb_Flush port ops r)\<lparr> tb_closed := True \<rparr>;
          (r, filter_block_handle) = finish_filter ops r
      in case finish_metaindex port ops filter_block_handle r of None \<Rightarrow> None
         | Some (r, metaindex_block_handle) \<Rightarrow>
             let (r, index_block_handle) = finish_index port ops r;
                 r = finish_footer ops metaindex_block_handle index_block_handle r
             in Some (tb_status r, r))"

definition tb_Abandon :: "'f TableBuilder \<Rightarrow> 'f TableBuilder" where
  "tb_Abandon r = r\<lparr> tb_closed := True \<rparr>"

definition NumEntries :: "'f TableBuilder \<Rightarrow> u64" where
  "NumEntries r = tb_num_entries r"

definition FileSize :: "'f TableBuilder \<Rightarrow> u64" where
  "FileSize r = tb_offset r"

text \<open>A table built from a list of entries, as the clients of the builder do.\<close>

definition build_table :: "Port \<Rightarrow> 'f WritableFile \<Rightarrow> Options \<Rightarrow> kv list \<Rightarrow> 'f \<Rightarrow> (Status \<times> 'f TableBuilder) option" where
  "build_table port ops opt xs f =
     tb_Finish port ops (fold (\<lambda>(k, v). tb_Add port ops k v) xs (new_TableBuilder opt f))"

section \<open>Sizes\<close>

text \<open>A bound on what an entry adds to a block, with its share of the restart array.\<close>

definition weight :: "kv list \<Rightarrow> nat" where
  "weight xs = sum_list (map (\<lambda>(k, v). length k + length v + 19) xs)"

lemma weight_append [simp]: "weight (xs @ ys) = weight xs + weight ys"
  by (simp add: weight_def)

lemma weight_simps [simp]: "weight [] = 0" "weight ((k, v) # xs) = length k + length v + 19 + weight xs"
  by (simp_all add: weight_def)

lemma weight_pos: "xs \<noteq> [] \<Longrightarrow> 19 \<le> weight xs"
  by (cases xs) auto

lemma length_cell_bytes: "length (cell_bytes c) \<le> length (c_key c) + length (c_value c) + 15"
proof -
  have "length (cell_header c) \<le> 15"
    using add_mono [OF add_mono [OF length_EncodeVarint(1) [of "of_nat (c_shared c)"]
        length_EncodeVarint(1) [of "of_nat (length (c_key c) - c_shared c)"]]
        length_EncodeVarint(1) [of "of_nat (length (c_value c))"]] by (simp add: cell_header_def)
  then show ?thesis by (simp add: cell_bytes_def)
qed

lemma length_cells_bytes: "length (cells_bytes cs) + 4 * length cs \<le> weight (map cell_kv cs)"
proof (induction cs)
  case (Cons c cs)
  then show ?case using length_cell_bytes [of c] by (simp add: cells_bytes_def cell_kv_def)
qed (simp add: cells_bytes_def)

lemma length_restarts: "restarts_ok cs rs \<Longrightarrow> length rs \<le> max 1 (length cs)"
proof -
  assume r: "restarts_ok cs rs"
  then have "set rs \<subseteq> {..<max 1 (length cs)}" by (auto simp: restarts_ok_def)
  then have "card (set rs) \<le> max 1 (length cs)" using card_mono [of "{..<max 1 (length cs)}" "set rs"] by simp
  moreover have "distinct rs" using r by (simp add: restarts_ok_def strict_sorted_iff)
  ultimately show ?thesis by (simp add: distinct_card)
qed

lemma length_block_of: "1 \<le> ri \<Longrightarrow> length (block_of ri xs) \<le> weight xs + 8"
proof -
  assume "1 \<le> ri"
  then obtain cs rs where rep: "bb_rep cs rs (build_block ri xs new_BlockBuilder)" and xs: "map cell_kv cs = xs"
    using bb_rep_build [OF bb_rep_new, of ri xs] by auto
  have "length (block_bytes cs rs) = length (cells_bytes cs) + 4 * length rs + 4"
    by (simp add: block_bytes_def length_restart_array)
  moreover have "length rs \<le> max 1 (length cs)" using rep by (intro length_restarts) (simp add: bb_rep_def)
  ultimately show ?thesis using length_cells_bytes [of cs] bb_rep_Finish [OF rep] by (simp add: block_of_def xs)
qed

lemma block_of_not_Nil: "block_of ri xs \<noteq> []"
proof -
  have "EncodeFixed32 v \<noteq> []" for v by (simp add: EncodeFixed32_def)
  then show ?thesis by (simp add: block_of_def BB_Finish_def Let_def PutFixed32_def)
qed

section \<open>Writing a block\<close>

lemma BB_Reset_new [simp]: "BB_Reset b = new_BlockBuilder"
  by (cases b) (simp add: BB_Reset_def new_BlockBuilder_def)

lemma build_block_snoc: "build_block ri (xs @ [(k, v)]) b = BB_Add ri k v (build_block ri xs b)"
  by (simp add: build_block_def)

lemma BB_empty_build: "1 \<le> ri \<Longrightarrow> BB_empty (build_block ri xs new_BlockBuilder) \<longleftrightarrow> xs = []"
proof -
  assume "1 \<le> ri"
  then obtain cs rs where rep: "bb_rep cs rs (build_block ri xs new_BlockBuilder)" and xs: "map cell_kv cs = xs"
    using bb_rep_build [OF bb_rep_new, of ri xs] by auto
  have "cells_bytes cs = [] \<longleftrightarrow> cs = []"
  proof (cases cs)
    case (Cons c ds)
    then show ?thesis using cell_bytes_pos [of c] by (auto simp: cells_bytes_def)
  qed (simp add: cells_bytes_def)
  then show ?thesis using rep xs by (auto simp: BB_empty_def bb_rep_def)
qed

lemma filter_block_StartBlock: "tb_filter_block (tb_StartBlock r) = map_option (\<lambda>(p, b). (p, StartBlock p b (tb_offset r))) (tb_filter_block r)"
  by (simp add: tb_StartBlock_def)

locale table_writer = reliable_writer ops inv contents + compression_port port
  for ops :: "'f WritableFile" and inv contents port
begin

text \<open>The file is as long as the builder thinks.\<close>

definition file_ok :: "'f TableBuilder \<Rightarrow> bool" where
  "file_ok r \<longleftrightarrow> inv (tb_file r) \<and> tb_status r = Status_OK \<and> unat (tb_offset r) = length (contents (tb_file r))"

lemma WriteRawBlock_stored:
  assumes "file_ok r" "length (contents (tb_file r)) + length d + 5 < 2 ^ 64"
  obtains f h where "WriteRawBlock ops d type r = (r\<lparr> tb_file := f, tb_offset := tb_offset r + of_nat (length d + 5) \<rparr>, h)"
    "file_ok (r\<lparr> tb_file := f, tb_offset := tb_offset r + of_nat (length d + 5) \<rparr>)"
    "contents f = contents (tb_file r) @ block_image type d" "bh_offset h = tb_offset r"
    "\<And>e. decodes port type d e \<Longrightarrow> stored port (contents f) h e"
proof -
  let ?t = "[type] @ EncodeFixed32 (Mask (crc_Extend (crc_Extend 0 d) [type]))"
  let ?h = "\<lparr> bh_offset = tb_offset r, bh_size = of_nat (length d) \<rparr>"
  have r: "inv (tb_file r)" "tb_status r = Status_OK" "unat (tb_offset r) = length (contents (tb_file r))"
    using assms(1) by (simp_all add: file_ok_def)
  obtain f1 where f1: "wf_Append ops d (tb_file r) = (Status_OK, f1)" "inv f1" "contents f1 = contents (tb_file r) @ d"
    using append [OF r(1)] by blast
  obtain f2 where f2: "wf_Append ops ?t f1 = (Status_OK, f2)" "inv f2" "contents f2 = contents f1 @ ?t"
    using append [OF f1(2)] by blast
  have w: "WriteRawBlock ops d type r = (r\<lparr> tb_file := f2, tb_offset := tb_offset r + of_nat (length d + 5) \<rparr>, ?h)"
    using f1(1) f2(1) r(2) by (cases r) (simp add: WriteRawBlock_def Let_def)
  have c: "contents f2 = contents (tb_file r) @ block_image type d" using f1(3) f2(3) by (simp add: block_image_def)
  have "unat (of_nat (length d + 5) :: u64) = length d + 5" using assms(2) by (simp add: unat_of_nat_small del: of_nat_add)
  then have "unat (tb_offset r + of_nat (length d + 5)) = length (contents f2)"
    using assms(2) r(3) by (simp add: unat_word_ariths c del: of_nat_add)
  then have ok: "file_ok (r\<lparr> tb_file := f2, tb_offset := tb_offset r + of_nat (length d + 5) \<rparr>)"
    using r f2(2) by (simp add: file_ok_def)
  have s: "stored port (contents f2) ?h e" if "decodes port type d e" for e
    unfolding stored_def
    using that assms(2) r(3) c
    by (intro exI [of _ "contents (tb_file r)"] exI [of _ "[]"] exI [of _ type] exI [of _ d]) (simp add: unat_of_nat_small)
  show ?thesis by (rule that [OF w ok c _ s]) simp
qed

lemma compress_block_decodes:
  assumes "opt_compression opt \<le> 2" "raw \<noteq> []" "compress_block port opt raw = (c, type)"
  shows "decodes port type c raw \<and> length c \<le> length raw"
proof -
  have "opt_compression opt = 0 \<or> opt_compression opt = 1 \<or> opt_compression opt = 2"
  proof -
    have "unat (opt_compression opt) \<le> 2" using assms(1) by (simp add: word_le_nat_alt)
    then have "unat (opt_compression opt) \<in> {0, 1, 2}" by auto
    then show ?thesis by (auto simp: word_unat_eq_iff)
  qed
  then show ?thesis
    using assms(2,3) snappy [of raw] zstd [of "opt_zstd_compression_level opt" raw]
    by (auto simp: compress_block_def if_smaller_def decodes_def split: option.splits if_splits)
qed

lemma WriteBlock_stored:
  assumes "file_ok r" "opt_compression (tb_options r) \<le> 2" "length (contents (tb_file r)) + length (block_of ri xs) + 5 < 2 ^ 64"
  obtains f off h where "WriteBlock port ops (build_block ri xs new_BlockBuilder) r = (r\<lparr> tb_file := f, tb_offset := off \<rparr>, new_BlockBuilder, h)"
    "file_ok (r\<lparr> tb_file := f, tb_offset := off \<rparr>)" "strict_prefix (contents (tb_file r)) (contents f)"
    "length (contents f) \<le> length (contents (tb_file r)) + length (block_of ri xs) + 5"
    "bh_offset h = tb_offset r" "stored port (contents f) h (block_of ri xs)"
proof -
  let ?raw = "block_of ri xs"
  obtain c type where c: "compress_block port (tb_options r) ?raw = (c, type)" by fastforce
  note d = compress_block_decodes [OF assms(2) block_of_not_Nil c]
  have "length (contents (tb_file r)) + length c + 5 < 2 ^ 64" using assms(3) d by linarith
  from WriteRawBlock_stored [OF assms(1) this, of type] obtain f h where
    w: "WriteRawBlock ops c type r = (r\<lparr> tb_file := f, tb_offset := tb_offset r + of_nat (length c + 5) \<rparr>, h)"
    "file_ok (r\<lparr> tb_file := f, tb_offset := tb_offset r + of_nat (length c + 5) \<rparr>)"
    "contents f = contents (tb_file r) @ block_image type c" "bh_offset h = tb_offset r"
    "\<And>e. decodes port type c e \<Longrightarrow> stored port (contents f) h e" by blast
  have "fst (BB_Finish (build_block ri xs new_BlockBuilder)) = ?raw" by (simp add: block_of_def)
  then have "WriteBlock port ops (build_block ri xs new_BlockBuilder) r =
      (r\<lparr> tb_file := f, tb_offset := tb_offset r + of_nat (length c + 5) \<rparr>, new_BlockBuilder, h)"
    using c w(1) by (simp add: WriteBlock_def Let_def split_beta)
  moreover have "block_image type c \<noteq> []" by (simp add: block_image_def)
  ultimately show ?thesis using d w(2-5) by (intro that) (auto simp: strict_prefix_def prefix_def)
qed

end

end
