(* ===== verification/Table_Layout.thy ===== *)
theory Table_Layout
  imports Table_Builder
begin

text \<open>
  What the builder of \<^verbatim>\<open>table/table_builder.cc\<close> leaves in the file: the entries are divided into blocks, each stored at
  its handle; the index has an entry per block whose key separates the block from the rest; the filter block was built from
  the keys of the blocks at their offsets. The invariant of the builder describes the blocks that are complete and the
  entries of the block that is open.
\<close>

type_synonym done_blocks = "(kv list \<times> BlockHandle) list"

definition entries :: "done_blocks \<Rightarrow> kv list" where
  "entries dn = concat (map fst dn)"

definition fblocks :: "done_blocks \<Rightarrow> (u64 \<times> slice list) list" where
  "fblocks dn = map (\<lambda>(b, h). (bh_offset h, map fst b)) dn"

definition filter_state :: "done_blocks \<Rightarrow> u64 \<Rightarrow> kv list \<Rightarrow> FilterPolicy \<Rightarrow> FilterBlockBuilder" where
  "filter_state dn off cur p = add_block p (off, map fst cur) (fold (add_block p) (fblocks dn) new_FilterBlockBuilder)"

text \<open>Entry \<open>i\<close> of the index: a key between block \<open>i\<close> and what comes after it, and the handle of block \<open>i\<close>.\<close>

definition index_entry :: "Comparator \<Rightarrow> done_blocks \<Rightarrow> kv list \<Rightarrow> nat \<Rightarrow> kv \<Rightarrow> bool" where
  "index_entry cmp dn cur i e \<longleftrightarrow> snd e = BlockHandle_EncodeTo [] (snd (dn ! i)) \<and>
     (let rest = entries (drop (Suc i) dn) @ cur; k = fst (last (fst (dn ! i))) in
      fst e = (if rest = [] then FindShortSuccessor cmp k else FindShortestSeparator cmp k (fst (hd rest))))"

definition index_for :: "Comparator \<Rightarrow> done_blocks \<Rightarrow> kv list \<Rightarrow> kv list \<Rightarrow> bool" where
  "index_for cmp dn cur ixs \<longleftrightarrow> length ixs \<le> length dn \<and> (\<forall>i < length ixs. index_entry cmp dn cur i (ixs ! i))"

lemma entries_simps [simp]: "entries [] = []" "entries (dn @ [(b, h)]) = entries dn @ b"
  by (simp_all add: entries_def)

lemma entries_nonempty: "i < length dn \<Longrightarrow> \<forall>(b, h) \<in> set dn. b \<noteq> [] \<Longrightarrow> entries (drop i dn) \<noteq> []"
  using nth_mem [of i dn] by (auto simp: entries_def Cons_nth_drop_Suc [symmetric] split_beta)

lemma index_entry_cur:
  assumes "index_entry cmp dn cur i e" "entries (drop (Suc i) dn) @ cur \<noteq> []"
  shows "index_entry cmp dn (cur @ ys) i e"
  using assms by (simp add: index_entry_def Let_def hd_append)

lemma index_entry_done:
  assumes "index_entry cmp dn cur i e" "i < length dn"
  shows "index_entry cmp (dn @ [(cur, h)]) [] i e"
proof -
  have "entries (drop (Suc i) (dn @ [(cur, h)])) @ [] = entries (drop (Suc i) dn) @ cur" using assms(2) by simp
  then show ?thesis using assms by (simp add: index_entry_def nth_append)
qed

lemma index_for_done: "index_for cmp dn cur ixs \<Longrightarrow> index_for cmp (dn @ [(cur, h)]) [] ixs"
  by (auto simp: index_for_def intro: index_entry_done)

lemma index_for_snoc:
  assumes "index_for cmp dn cur ixs" "length ixs < length dn" "index_entry cmp dn cur (length ixs) e"
  shows "index_for cmp dn cur (ixs @ [e])"
  using assms by (auto simp: index_for_def nth_append less_Suc_eq)

lemma add_entry_simps:
  "tb_index_block (add_entry k v r) = (if tb_pending_index_entry r
     then BB_Add (opt_block_restart_interval (tb_index_block_options r))
       (FindShortestSeparator (opt_comparator (tb_options r)) (tb_last_key r) k) (BlockHandle_EncodeTo [] (tb_pending_handle r)) (tb_index_block r)
     else tb_index_block r)"
  "tb_pending_index_entry (add_entry k v r) = False" "tb_pending_handle (add_entry k v r) = tb_pending_handle r"
  "tb_last_key (add_entry k v r) = k"
  by (simp_all add: add_entry_def Let_def add_index_entry_def)

context table_writer
begin

definition blocks_ok :: "Options \<Rightarrow> slice \<Rightarrow> done_blocks \<Rightarrow> bool" where
  "blocks_ok opt F dn \<longleftrightarrow> (\<forall>(b, h) \<in> set dn. b \<noteq> [] \<and> stored port F h (block_of (opt_block_restart_interval opt) b)) \<and>
     sorted_wrt (<) (map (bh_offset \<circ> snd) dn)"

definition index_inv :: "Options \<Rightarrow> 'f TableBuilder \<Rightarrow> done_blocks \<Rightarrow> kv list \<Rightarrow> bool" where
  "index_inv opt r dn cur \<longleftrightarrow>
     (\<exists>ixs. tb_index_block r = build_block 1 ixs new_BlockBuilder \<and> index_for (opt_comparator opt) dn cur ixs \<and>
       length ixs = (if cur = [] then length dn - 1 else length dn)) \<and>
     (tb_pending_index_entry r \<longleftrightarrow> dn \<noteq> [] \<and> cur = []) \<and> (dn \<noteq> [] \<longrightarrow> tb_pending_handle r = snd (last dn)) \<and>
     (entries dn @ cur \<noteq> [] \<longrightarrow> tb_last_key r = fst (last (entries dn @ cur)))"

definition tb_inv :: "Options \<Rightarrow> 'f TableBuilder \<Rightarrow> done_blocks \<Rightarrow> kv list \<Rightarrow> bool" where
  "tb_inv opt r dn cur \<longleftrightarrow> file_ok r \<and> tb_options r = opt \<and>
     tb_index_block_options r = opt\<lparr> opt_block_restart_interval := 1 \<rparr> \<and>
     length (contents (tb_file r)) \<le> 2 * weight (entries dn) \<and> blocks_ok opt (contents (tb_file r)) dn \<and>
     (\<forall>(b, h) \<in> set dn. bh_offset h < tb_offset r) \<and>
     tb_data_block r = build_block (opt_block_restart_interval opt) cur new_BlockBuilder \<and> index_inv opt r dn cur \<and>
     tb_filter_block r = map_option (\<lambda>p. (p, filter_state dn (tb_offset r) cur p)) (opt_filter_policy opt)"

lemma tb_inv_new:
  assumes "inv f" "contents f = []"
  shows "tb_inv opt (new_TableBuilder opt f) [] []"
  using assms
  by (simp add: tb_inv_def new_TableBuilder_def tb_StartBlock_def file_ok_def blocks_ok_def index_inv_def index_for_def
      build_block_def filter_state_def fblocks_def add_block_def option.map_comp comp_def)

lemma index_inv_add:
  assumes "index_inv opt r dn cur" "\<forall>(b, h) \<in> set dn. b \<noteq> []" "tb_options r = opt"
    "tb_index_block_options r = opt\<lparr> opt_block_restart_interval := 1 \<rparr>"
  shows "index_inv opt (add_entry k v r) dn (cur @ [(k, v)])"
proof -
  obtain ixs where ixs: "tb_index_block r = build_block 1 ixs new_BlockBuilder" "index_for (opt_comparator opt) dn cur ixs"
    "length ixs = (if cur = [] then length dn - 1 else length dn)" using assms(1) by (auto simp: index_inv_def)
  have ne: "entries (drop (Suc i) dn) @ cur \<noteq> []" if "i < length ixs" for i
    using that ixs(3) entries_nonempty [OF _ assms(2), of "Suc i"] by (cases "cur = []") auto
  have old: "index_for (opt_comparator opt) dn (cur @ [(k, v)]) ixs"
    using ixs(2) index_entry_cur [OF _ ne] by (auto simp: index_for_def)
  show ?thesis
  proof (cases "tb_pending_index_entry r")
    case True
    then have p: "dn \<noteq> []" "cur = []" "tb_pending_handle r = snd (last dn)" "entries dn \<noteq> [] \<longrightarrow> tb_last_key r = fst (last (entries dn))"
      using assms(1) by (auto simp: index_inv_def)
    obtain b h ds where dn: "dn = ds @ [(b, h)]" using p(1) by (metis append_butlast_last_id prod.exhaust)
    have b: "b \<noteq> []" using assms(2) dn by auto
    let ?e = "(FindShortestSeparator (opt_comparator opt) (tb_last_key r) k, BlockHandle_EncodeTo [] (tb_pending_handle r))"
    have "index_entry (opt_comparator opt) dn (cur @ [(k, v)]) (length ixs) ?e"
      using p b ixs(3) by (simp add: index_entry_def dn)
    then have "index_for (opt_comparator opt) dn (cur @ [(k, v)]) (ixs @ [?e])"
      by (intro index_for_snoc old) (use ixs(3) p in auto)
    moreover have "tb_index_block (add_entry k v r) = build_block 1 (ixs @ [?e]) new_BlockBuilder"
      using True ixs(1) assms(3,4) by (simp add: add_entry_simps build_block_snoc)
    ultimately show ?thesis using p ixs(3) unfolding index_inv_def add_entry_simps
      by (intro conjI exI [of _ "ixs @ [?e]"]) (simp_all add: dn)
  next
    case False
    then have "dn = [] \<or> cur \<noteq> []" using assms(1) by (auto simp: index_inv_def)
    moreover have "dn \<noteq> [] \<longrightarrow> tb_pending_handle r = snd (last dn)" using assms(1) by (simp add: index_inv_def)
    ultimately show ?thesis using False old ixs unfolding index_inv_def add_entry_simps
      by (intro conjI exI [of _ ixs]) auto
  qed
qed

lemma tb_inv_add:
  assumes "tb_inv opt r dn cur"
  shows "tb_inv opt (add_entry k v r) dn (cur @ [(k, v)])"
proof -
  have r: "file_ok r" "tb_options r = opt" "tb_index_block_options r = opt\<lparr> opt_block_restart_interval := 1 \<rparr>"
    "length (contents (tb_file r)) \<le> 2 * weight (entries dn)" "blocks_ok opt (contents (tb_file r)) dn"
    "\<forall>(b, h) \<in> set dn. bh_offset h < tb_offset r"
    "tb_data_block r = build_block (opt_block_restart_interval opt) cur new_BlockBuilder" "index_inv opt r dn cur"
    "tb_filter_block r = map_option (\<lambda>p. (p, filter_state dn (tb_offset r) cur p)) (opt_filter_policy opt)"
    using assms by (simp_all add: tb_inv_def)
  have "index_inv opt (add_entry k v r) dn (cur @ [(k, v)])"
    using r(5) by (intro index_inv_add r(2,3,8)) (auto simp: blocks_ok_def)
  moreover have "filter_state dn off (cur @ [(k, v)]) p = AddKey (filter_state dn off cur p) k" for off p
    by (simp add: filter_state_def add_block_def)
  then have "map_option (\<lambda>(p, b). (p, AddKey b k)) (tb_filter_block r) =
      map_option (\<lambda>p. (p, filter_state dn (tb_offset r) (cur @ [(k, v)]) p)) (opt_filter_policy opt)"
    unfolding r(9) by (simp add: option.map_comp comp_def)
  ultimately show ?thesis
    using r(1-7) by (simp add: tb_inv_def add_entry_def Let_def add_index_entry_def file_ok_def build_block_snoc)
qed

lemma tb_inv_Flush:
  assumes "tb_inv opt r dn cur" "cur \<noteq> []" "1 \<le> opt_block_restart_interval opt" "opt_compression opt \<le> 2"
    "weight (entries dn @ cur) < 2 ^ 31"
  shows "\<exists>h. tb_inv opt (tb_Flush port ops r) (dn @ [(cur, h)]) []"
proof -
  let ?ri = "opt_block_restart_interval opt"
  have r: "file_ok r" "tb_options r = opt" "tb_index_block_options r = opt\<lparr> opt_block_restart_interval := 1 \<rparr>"
    "length (contents (tb_file r)) \<le> 2 * weight (entries dn)" "blocks_ok opt (contents (tb_file r)) dn"
    "\<forall>(b, h) \<in> set dn. bh_offset h < tb_offset r"
    "tb_data_block r = build_block ?ri cur new_BlockBuilder" "index_inv opt r dn cur"
    "tb_filter_block r = map_option (\<lambda>p. (p, filter_state dn (tb_offset r) cur p)) (opt_filter_policy opt)"
    using assms(1) by (simp_all add: tb_inv_def)
  have len: "length (block_of ?ri cur) \<le> weight cur + 8" by (rule length_block_of [OF assms(3)])
  have "length (contents (tb_file r)) + length (block_of ?ri cur) + 5 < 2 ^ 64" using len r(4) assms(5) by simp
  moreover have "opt_compression (tb_options r) \<le> 2" using r(2) assms(4) by simp
  ultimately obtain f off h where
    w: "WriteBlock port ops (build_block ?ri cur new_BlockBuilder) r = (r\<lparr> tb_file := f, tb_offset := off \<rparr>, new_BlockBuilder, h)"
    "file_ok (r\<lparr> tb_file := f, tb_offset := off \<rparr>)" "strict_prefix (contents (tb_file r)) (contents f)"
    "length (contents f) \<le> length (contents (tb_file r)) + length (block_of ?ri cur) + 5"
    "bh_offset h = tb_offset r" "stored port (contents f) h (block_of ?ri cur)"
    using WriteBlock_stored [OF r(1)] by blast
  have st: "tb_status r = Status_OK" "inv f" using r(1) w(2) by (simp_all add: file_ok_def)
  obtain f2 where f2: "wf_Flush ops f = (Status_OK, f2)" "inv f2" "contents f2 = contents f" using flush [OF st(2)] by blast
  let ?r1 = "r\<lparr> tb_offset := off, tb_data_block := new_BlockBuilder, tb_pending_handle := h,
    tb_pending_index_entry := True, tb_file := f2, tb_status := Status_OK \<rparr>"
  have fl: "tb_Flush port ops r = tb_StartBlock ?r1"
    using w(1) f2(1) st(1) assms(2,3) by (simp add: tb_Flush_def tb_ok_def r(7) BB_empty_build Let_def)
  have ok: "file_ok (tb_StartBlock ?r1)" using w(2) f2(2,3) by (simp add: file_ok_def tb_StartBlock_def)
  have off: "tb_offset r < off" using r(1) w(2) prefix_length_less [OF w(3)] by (simp add: file_ok_def word_less_nat_alt)
  have bl: "blocks_ok opt (contents f) (dn @ [(cur, h)])"
    using r(5,6) w(3,5,6) assms(2) stored_append by (fastforce simp: blocks_ok_def strict_prefix_def prefix_def sorted_wrt_append)
  obtain ixs where ixs: "tb_index_block r = build_block 1 ixs new_BlockBuilder" "index_for (opt_comparator opt) dn cur ixs"
    "length ixs = length dn" using r(8) assms(2) by (auto simp: index_inv_def)
  have "index_inv opt (tb_StartBlock ?r1) (dn @ [(cur, h)]) []"
    using ixs index_for_done [OF ixs(2), of h] r(8) assms(2) by (auto simp: index_inv_def tb_StartBlock_def)
  moreover have "filter_state (dn @ [(cur, h)]) off [] p = StartBlock p (filter_state dn (tb_offset r) cur p) off" for p
    by (simp add: filter_state_def fblocks_def add_block_def w(5))
  moreover have "length (contents f) \<le> 2 * weight (entries dn @ cur)" using w(4) r(4) len weight_pos [OF assms(2)] by simp
  ultimately have "tb_inv opt (tb_StartBlock ?r1) (dn @ [(cur, h)]) []"
    using ok bl r(2,3,6) off f2(3) w(5)
    by (auto simp: tb_inv_def tb_StartBlock_def r(9) option.map_comp comp_def build_block_def intro: less_trans)
  then show ?thesis unfolding fl by blast
qed

lemma tb_inv_Add:
  assumes "tb_inv opt r dn cur" "1 \<le> opt_block_restart_interval opt" "opt_compression opt \<le> 2"
    "weight (entries dn @ cur @ [(k, v)]) < 2 ^ 31"
  shows "\<exists>dn' cur'. tb_inv opt (tb_Add port ops k v r) dn' cur' \<and> entries dn' @ cur' = entries dn @ cur @ [(k, v)]"
proof -
  have ok: "tb_ok r" using assms(1) by (simp add: tb_inv_def file_ok_def tb_ok_def)
  note a = tb_inv_add [OF assms(1), of k v]
  obtain h where "tb_inv opt (tb_Flush port ops (add_entry k v r)) (dn @ [(cur @ [(k, v)], h)]) []"
    using tb_inv_Flush [OF a _ assms(2,3)] assms(4) by auto
  then show ?thesis using a ok by (fastforce simp: tb_Add_def Let_def)
qed

lemma tb_inv_fold:
  assumes "tb_inv opt r dn cur" "1 \<le> opt_block_restart_interval opt" "opt_compression opt \<le> 2"
    "weight (entries dn @ cur @ xs) < 2 ^ 31"
  shows "\<exists>dn' cur'. tb_inv opt (fold (\<lambda>(k, v). tb_Add port ops k v) xs r) dn' cur' \<and> entries dn' @ cur' = entries dn @ cur @ xs"
  using assms(1,4)
proof (induction xs arbitrary: r dn cur)
  case (Cons x xs)
  obtain k v where x: "x = (k, v)" by (cases x)
  obtain dn1 cur1 where 1: "tb_inv opt (tb_Add port ops k v r) dn1 cur1" "entries dn1 @ cur1 = entries dn @ cur @ [(k, v)]"
    using tb_inv_Add [OF Cons.prems(1) assms(2,3), of k v] Cons.prems(2) by (auto simp: x)
  have e: "entries dn1 @ cur1 @ xs = entries dn @ cur @ x # xs" using arg_cong [OF 1(2), of "\<lambda>z. z @ xs"] by (simp add: x)
  have "weight (entries dn1 @ cur1 @ xs) < 2 ^ 31" using Cons.prems(2) unfolding e .
  from Cons.IH [OF 1(1) this] show ?case unfolding e by (simp add: x)
qed auto

end

text \<open>The layout of a finished table file.\<close>

definition meta_entries :: "Options \<Rightarrow> BlockHandle \<Rightarrow> kv list" where
  "meta_entries opt fh = (case opt_filter_policy opt of None \<Rightarrow> [] | Some p \<Rightarrow> [(filter_key p, BlockHandle_EncodeTo [] fh)])"

definition table_image :: "Port \<Rightarrow> Options \<Rightarrow> slice \<Rightarrow> done_blocks \<Rightarrow> kv list \<Rightarrow> bool" where
  "table_image port opt F dn ixs \<longleftrightarrow>
     length F < 2 ^ 64 \<and> sorted_wrt (<) (map (bh_offset \<circ> snd) dn) \<and>
     (\<exists>body mh ih fh off. F = body @ Footer_EncodeTo [] \<lparr> ft_metaindex_handle = mh, ft_index_handle = ih \<rparr> \<and>
       (\<forall>(b, h) \<in> set dn. b \<noteq> [] \<and> stored port F h (block_of (opt_block_restart_interval opt) b)) \<and>
       sorted (map fst (fblocks dn @ [(off, [])])) \<and> unat off < 2 ^ 32 \<and>
       length ixs = length dn \<and> index_for (opt_comparator opt) dn [] ixs \<and> stored port F ih (block_of 1 ixs) \<and>
       stored port F mh (block_of (opt_block_restart_interval opt) (meta_entries opt fh)) \<and>
       (\<forall>p. opt_filter_policy opt = Some p \<longrightarrow> stored port F fh (build_filter_block p (fblocks dn @ [(off, [])]))))"

text \<open>Every division of the keys into groups gives filters of less than 4 GB in total.\<close>

definition filters_fit :: "Options \<Rightarrow> slice list \<Rightarrow> bool" where
  "filters_fit opt ks \<longleftrightarrow> (\<forall>p gs. opt_filter_policy opt = Some p \<longrightarrow> concat gs = ks \<longrightarrow> length (filters_data p gs) < 2 ^ 32)"

lemma concat_fblocks: "concat (map snd (fblocks dn @ [(off, [])])) = map fst (entries dn)"
  by (simp add: fblocks_def entries_def map_concat comp_def split_beta)

lemma key_groups_length:
  assumes "sorted (map fst blks)" "blks \<noteq> []"
  shows "length (key_groups blks) \<le> unat (fst (last blks)) div kFilterBase + 1"
  using grouped_blocks [OF assms(1)] assms(2) by (auto simp: key_groups_def spec_finish_def)

context table_writer
begin

lemma finish_filter_stored:
  assumes "file_ok r" "tb_filter_block r = map_option (\<lambda>p. (p, fb p)) pol"
    "\<And>p. pol = Some p \<Longrightarrow> length (contents (tb_file r)) + length (snd (Finish p (fb p))) + 5 < 2 ^ 63"
    "length (contents (tb_file r)) < 2 ^ 63"
  obtains f off h b where "finish_filter ops r = (r\<lparr> tb_filter_block := b, tb_file := f, tb_offset := off \<rparr>, h)"
    "file_ok (r\<lparr> tb_filter_block := b, tb_file := f, tb_offset := off \<rparr>)" "prefix (contents (tb_file r)) (contents f)"
    "length (contents f) < 2 ^ 63" "b = None \<longleftrightarrow> pol = None"
    "\<forall>p. pol = Some p \<longrightarrow> stored port (contents f) h (snd (Finish p (fb p)))"
proof (cases pol)
  case None
  then have "finish_filter ops r = (r\<lparr> tb_filter_block := None, tb_file := tb_file r, tb_offset := tb_offset r \<rparr>, new_BlockHandle)"
    using assms(2) by (cases r) (simp add: finish_filter_def)
  then show ?thesis by (rule that) (use assms None in \<open>simp_all add: file_ok_def\<close>)
next
  case (Some p)
  let ?r = "r\<lparr> tb_filter_block := Some (p, fst (Finish p (fb p))) \<rparr>" and ?d = "snd (Finish p (fb p))"
  have "file_ok ?r" using assms(1) by (simp add: file_ok_def)
  moreover have "length (contents (tb_file ?r)) + length ?d + 5 < 2 ^ 64" using assms(3) [OF Some] by simp
  ultimately obtain f h where w: "WriteRawBlock ops ?d 0 ?r = (?r\<lparr> tb_file := f, tb_offset := tb_offset ?r + of_nat (length ?d + 5) \<rparr>, h)"
    "file_ok (?r\<lparr> tb_file := f, tb_offset := tb_offset ?r + of_nat (length ?d + 5) \<rparr>)"
    "contents f = contents (tb_file ?r) @ block_image 0 ?d" "\<And>e. decodes port 0 ?d e \<Longrightarrow> stored port (contents f) h e"
    using WriteRawBlock_stored [of ?r ?d 0] by metis
  have "finish_filter ops r = (?r\<lparr> tb_file := f, tb_offset := tb_offset ?r + of_nat (length ?d + 5) \<rparr>, h)"
    using w(1) assms(1,2) Some by (simp add: finish_filter_def tb_ok_def file_ok_def split_beta)
  moreover have "stored port (contents f) h ?d" using w(4) by (simp add: decodes_def)
  ultimately show ?thesis
    by (intro that [OF _ w(2)]) (use w(3) assms(3) [OF Some] Some in auto)
qed

lemma finish_metaindex_stored:
  assumes "file_ok r" "tb_options r = opt" "opt_compression opt \<le> 2" "1 \<le> opt_block_restart_interval opt"
    "tb_filter_block r = None \<longleftrightarrow> opt_filter_policy opt = None" "length (contents (tb_file r)) < 2 ^ 63"
    "weight (meta_entries opt fh) < 2 ^ 62"
  obtains f off h where "finish_metaindex port ops fh r = Some (r\<lparr> tb_file := f, tb_offset := off \<rparr>, h)"
    "file_ok (r\<lparr> tb_file := f, tb_offset := off \<rparr>)" "prefix (contents (tb_file r)) (contents f)"
    "length (contents f) < 2 ^ 63 + 2 ^ 62 + 13" "stored port (contents f) h (block_of (opt_block_restart_interval opt) (meta_entries opt fh))"
proof -
  let ?b = "block_of (opt_block_restart_interval opt) (meta_entries opt fh)"
  have len: "length ?b \<le> weight (meta_entries opt fh) + 8" by (rule length_block_of [OF assms(4)])
  then have "length (contents (tb_file r)) + length ?b + 5 < 2 ^ 64" using assms(6,7) by simp
  moreover have "opt_compression (tb_options r) \<le> 2" using assms(2,3) by simp
  ultimately obtain f off h where
    w: "WriteBlock port ops (build_block (opt_block_restart_interval opt) (meta_entries opt fh) new_BlockBuilder) r =
        (r\<lparr> tb_file := f, tb_offset := off \<rparr>, new_BlockBuilder, h)"
    "file_ok (r\<lparr> tb_file := f, tb_offset := off \<rparr>)" "strict_prefix (contents (tb_file r)) (contents f)"
    "length (contents f) \<le> length (contents (tb_file r)) + length ?b + 5" "stored port (contents f) h ?b"
    using WriteBlock_stored [OF assms(1)] by blast
  have "finish_metaindex port ops fh r = Some (r\<lparr> tb_file := f, tb_offset := off \<rparr>, h)"
    using w(1) assms(1,2,5)
    by (cases "opt_filter_policy opt") (auto simp: finish_metaindex_def tb_ok_def file_ok_def meta_entries_def build_block_def Let_def)
  moreover have "length (contents f) < 2 ^ 63 + 2 ^ 62 + 13" using w(4) len assms(6,7) by simp
  ultimately show ?thesis using that w(2,3,5) by (blast dest: prefix_order.less_imp_le)
qed

lemma finish_index_stored:
  assumes "file_ok r" "tb_options r = opt" "tb_index_block_options r = opt\<lparr> opt_block_restart_interval := 1 \<rparr>"
    "opt_compression opt \<le> 2" "index_inv opt r dn []" "\<forall>(b, h) \<in> set dn. b \<noteq> []"
    "length (contents (tb_file r)) < 2 ^ 63 + 2 ^ 62 + 13"
    "\<And>ixs. length ixs = length dn \<Longrightarrow> index_for (opt_comparator opt) dn [] ixs \<Longrightarrow> weight ixs < 2 ^ 61"
  obtains r' f h ixs where "finish_index port ops r = (r', h)" "tb_file r' = f" "file_ok r'"
    "prefix (contents (tb_file r)) (contents f)" "length ixs = length dn" "index_for (opt_comparator opt) dn [] ixs"
    "stored port (contents f) h (block_of 1 ixs)" "length (contents f) < 2 ^ 64 - 2 ^ 60"
proof -
  define r1 where "r1 = (if tb_pending_index_entry r
    then add_index_entry (FindShortSuccessor (opt_comparator opt) (tb_last_key r)) r else r)"
  have "\<exists>ixs. tb_index_block r1 = build_block 1 ixs new_BlockBuilder \<and> index_for (opt_comparator opt) dn [] ixs \<and> length ixs = length dn"
  proof (cases "dn = []")
    case True
    then show ?thesis using assms(5) by (auto simp: index_inv_def r1_def)
  next
    case False
    then have p: "tb_pending_index_entry r" "tb_pending_handle r = snd (last dn)" "entries dn \<noteq> [] \<longrightarrow> tb_last_key r = fst (last (entries dn))"
      using assms(5) by (auto simp: index_inv_def)
    obtain ixs where ixs: "tb_index_block r = build_block 1 ixs new_BlockBuilder" "index_for (opt_comparator opt) dn [] ixs"
      "length ixs = length dn - 1" using assms(5) by (auto simp: index_inv_def)
    obtain b h ds where dn: "dn = ds @ [(b, h)]" using False by (metis append_butlast_last_id prod.exhaust)
    have b: "b \<noteq> []" using assms(6) dn by auto
    let ?e = "(FindShortSuccessor (opt_comparator opt) (tb_last_key r), BlockHandle_EncodeTo [] (tb_pending_handle r))"
    have "index_entry (opt_comparator opt) dn [] (length ixs) ?e"
      using p b ixs(3) by (simp add: index_entry_def dn)
    then have "index_for (opt_comparator opt) dn [] (ixs @ [?e])"
      by (intro index_for_snoc ixs(2)) (use ixs(3) False in auto)
    moreover have "tb_index_block r1 = build_block 1 (ixs @ [?e]) new_BlockBuilder"
      using p(1) ixs(1) assms(3) by (simp add: r1_def add_index_entry_def build_block_snoc)
    ultimately show ?thesis using ixs(3) False by (intro exI [of _ "ixs @ [?e]"]) (simp add: dn)
  qed
  then obtain ixs where ixs: "tb_index_block r1 = build_block 1 ixs new_BlockBuilder" "index_for (opt_comparator opt) dn [] ixs"
    "length ixs = length dn" by blast
  have r1: "file_ok r1" "tb_file r1 = tb_file r" "tb_options r1 = opt"
    using assms(1,2) by (simp_all add: r1_def add_index_entry_def file_ok_def)
  have len: "length (block_of 1 ixs) \<le> weight ixs + 8" by (rule length_block_of) simp
  then have "length (contents (tb_file r1)) + length (block_of 1 ixs) + 5 < 2 ^ 64"
    using assms(7) assms(8) [OF ixs(3,2)] by (simp add: r1)
  moreover have "opt_compression (tb_options r1) \<le> 2" using r1(3) assms(4) by simp
  ultimately obtain f off h where
    w: "WriteBlock port ops (build_block 1 ixs new_BlockBuilder) r1 = (r1\<lparr> tb_file := f, tb_offset := off \<rparr>, new_BlockBuilder, h)"
    "file_ok (r1\<lparr> tb_file := f, tb_offset := off \<rparr>)" "strict_prefix (contents (tb_file r1)) (contents f)"
    "length (contents f) \<le> length (contents (tb_file r1)) + length (block_of 1 ixs) + 5" "stored port (contents f) h (block_of 1 ixs)"
    using WriteBlock_stored [OF r1(1)] by blast
  have fi: "finish_index port ops r = (r1\<lparr> tb_file := f, tb_offset := off, tb_index_block := new_BlockBuilder \<rparr>, h)"
    using w(1) assms(1) ixs(1) unfolding finish_index_def Let_def assms(2) r1_def [symmetric]
    by (simp add: tb_ok_def file_ok_def)
  have small: "length (contents f) < 2 ^ 64 - 2 ^ 60"
    using w(4) len assms(7) assms(8) [OF ixs(3,2)] unfolding r1(2) by simp
  show ?thesis
    by (rule that [OF fi]) (use w(2,3,5) ixs r1 small in \<open>simp_all add: file_ok_def strict_prefix_def\<close>)
qed

end

text \<open>The comparator never makes a key longer. Then the index is not much larger than the data.\<close>

definition short_keys :: "Comparator \<Rightarrow> bool" where
  "short_keys cmp \<longleftrightarrow> (\<forall>s l. length (FindShortestSeparator cmp s l) \<le> length s) \<and> (\<forall>s. length (FindShortSuccessor cmp s) \<le> length s)"

lemma weight_member: "e \<in> set xs \<Longrightarrow> length (fst e) + length (snd e) + 19 \<le> weight xs"
  by (induction xs) (auto simp: weight_def)

lemma index_weight:
  assumes "index_for cmp dn [] ixs" "length ixs = length dn" "\<forall>(b, h) \<in> set dn. b \<noteq> []" "short_keys cmp"
  shows "weight ixs \<le> 3 * weight (entries dn)"
proof -
  have "length (fst (ixs ! i)) + length (snd (ixs ! i)) + 19 \<le> 3 * weight (fst (dn ! i))" if "i < length dn" for i
  proof -
    have e: "index_entry cmp dn [] i (ixs ! i)" using assms(1,2) that by (simp add: index_for_def)
    have ne: "fst (dn ! i) \<noteq> []" using assms(3) nth_mem [OF that] by (auto simp: split_beta)
    have "length (fst (ixs ! i)) \<le> length (fst (last (fst (dn ! i))))"
      using e assms(4) by (auto simp: index_entry_def Let_def short_keys_def)
    moreover have "length (fst (last (fst (dn ! i)))) + 19 \<le> weight (fst (dn ! i))"
      using weight_member [OF last_in_set [OF ne]] by simp
    moreover have "length (snd (ixs ! i)) \<le> 20" using e length_handle by (simp add: index_entry_def)
    ultimately show ?thesis by linarith
  qed
  then have "(\<Sum>i = 0..<length dn. length (fst (ixs ! i)) + length (snd (ixs ! i)) + 19) \<le> (\<Sum>i = 0..<length dn. 3 * weight (fst (dn ! i)))"
    by (intro sum_mono) simp
  moreover have "weight ixs = (\<Sum>i = 0..<length dn. length (fst (ixs ! i)) + length (snd (ixs ! i)) + 19)"
    using assms(2) by (simp add: weight_def sum_list_sum_nth split_beta)
  moreover have "weight (entries dn) = sum_list (map (\<lambda>d. weight (fst d)) dn)"
    by (induction dn) (simp_all add: entries_def)
  ultimately show ?thesis by (simp add: sum_list_sum_nth sum_distrib_left)
qed

lemma filter_block_size:
  assumes "filters_fit opt (map fst (entries dn))" "opt_filter_policy opt = Some p" "filter_policy p adm"
    "sorted (map fst (fblocks dn @ [(off, [])]))" "unat off < 2 ^ 32"
  shows "length (build_filter_block p (fblocks dn @ [(off, [])])) < 2 ^ 34"
proof -
  let ?g = "key_groups (fblocks dn @ [(off, [])])"
  have fb: "filter_block p adm" using assms(3) by (simp add: filter_block_def)
  have "length (filters_data p ?g) < 2 ^ 32"
    using assms(1,2) key_groups_concat [of "fblocks dn @ [(off, [])]"] unfolding filters_fit_def concat_fblocks by blast
  moreover have "length ?g \<le> unat off div 2048 + 1" using key_groups_length [OF assms(4)] by simp
  moreover have "unat off div 2048 < 2 ^ 21" using assms(5) by (simp add: less_mult_imp_div_less)
  ultimately show ?thesis
    by (simp add: filter_block.build_filter_block_contents [OF fb] del: upt_Suc map_map)
qed

context table_writer
begin

lemma Finish_image:
  assumes r: "tb_inv opt r dn []" and opt: "1 \<le> opt_block_restart_interval opt" "opt_compression opt \<le> 2"
    "short_keys (opt_comparator opt)" "filters_fit opt (map fst (entries dn))"
    "\<And>p. opt_filter_policy opt = Some p \<Longrightarrow> length (Name p) < 2 ^ 31 \<and> filter_policy p (adm p)"
    and w: "weight (entries dn) < 2 ^ 30" and fl: "tb_Flush port ops r0 = r"
  shows "\<exists>r' ixs. tb_Finish port ops r0 = Some (Status_OK, r') \<and> inv (tb_file r') \<and>
    unat (FileSize r') = length (contents (tb_file r')) \<and> table_image port opt (contents (tb_file r')) dn ixs"
proof -
  let ?r = "r\<lparr> tb_closed := True \<rparr>" and ?off = "tb_offset r" and ?ri = "opt_block_restart_interval opt"
  let ?fb = "filter_state dn ?off []"
  have i: "file_ok ?r" "tb_options ?r = opt" "tb_index_block_options ?r = opt\<lparr> opt_block_restart_interval := 1 \<rparr>"
    "length (contents (tb_file ?r)) \<le> 2 * weight (entries dn)" "blocks_ok opt (contents (tb_file ?r)) dn"
    "\<forall>(b, h) \<in> set dn. bh_offset h < ?off" "index_inv opt ?r dn []"
    "tb_filter_block ?r = map_option (\<lambda>p. (p, ?fb p)) (opt_filter_policy opt)"
    using r by (simp_all add: tb_inv_def file_ok_def index_inv_def)
  have off: "unat ?off < 2 ^ 32" using i(1,4) w by (simp add: file_ok_def)
  have so: "sorted (map fst (fblocks dn @ [(?off, [])]))"
    using i(5,6) strict_sorted_imp_sorted [of "map (bh_offset \<circ> snd) dn"]
    by (auto simp: fblocks_def blocks_ok_def sorted_append comp_def split_beta)
  have fb: "snd (Finish p (?fb p)) = build_filter_block p (fblocks dn @ [(?off, [])])" for p
    by (simp add: filter_state_def build_filter_block_def)
  have fsize: "length (contents (tb_file ?r)) + length (snd (Finish p (?fb p))) + 5 < 2 ^ 63" if "opt_filter_policy opt = Some p" for p
    using filter_block_size [OF opt(4) that _ so off] opt(5) [OF that] i(4) w unfolding fb by fastforce
  have c: "length (contents (tb_file ?r)) < 2 ^ 63" using i(4) w by simp
  obtain f1 off1 fh b1 where
    1: "finish_filter ops ?r = (?r\<lparr> tb_filter_block := b1, tb_file := f1, tb_offset := off1 \<rparr>, fh)"
    "file_ok (?r\<lparr> tb_filter_block := b1, tb_file := f1, tb_offset := off1 \<rparr>)" "prefix (contents (tb_file ?r)) (contents f1)"
    "length (contents f1) < 2 ^ 63" "b1 = None \<longleftrightarrow> opt_filter_policy opt = None"
    "\<forall>p. opt_filter_policy opt = Some p \<longrightarrow> stored port (contents f1) fh (snd (Finish p (?fb p)))"
    by (rule finish_filter_stored [OF i(1,8) fsize c]) blast
  let ?r1 = "?r\<lparr> tb_filter_block := b1, tb_file := f1, tb_offset := off1 \<rparr>"
  have mw: "weight (meta_entries opt fh) < 2 ^ 62"
    using opt(5) length_handle [of fh]
    by (cases "opt_filter_policy opt") (auto simp: meta_entries_def filter_key_def bytes_of_string_def)
  have r1: "tb_options ?r1 = opt" "tb_filter_block ?r1 = None \<longleftrightarrow> opt_filter_policy opt = None"
    "length (contents (tb_file ?r1)) < 2 ^ 63" using i(2) 1(4,5) by simp_all
  obtain f2 off2 mh where
    2: "finish_metaindex port ops fh ?r1 = Some (?r1\<lparr> tb_file := f2, tb_offset := off2 \<rparr>, mh)"
    "file_ok (?r1\<lparr> tb_file := f2, tb_offset := off2 \<rparr>)" "prefix (contents (tb_file ?r1)) (contents f2)"
    "length (contents f2) < 2 ^ 63 + 2 ^ 62 + 13" "stored port (contents f2) mh (block_of ?ri (meta_entries opt fh))"
    by (rule finish_metaindex_stored [OF 1(2) r1(1) opt(2,1) r1(2,3) mw]) blast
  let ?r2 = "?r1\<lparr> tb_file := f2, tb_offset := off2 \<rparr>"
  have ne: "\<forall>(b, h) \<in> set dn. b \<noteq> []" using i(5) by (auto simp: blocks_ok_def)
  have iw: "weight ixs < 2 ^ 61" if "length ixs = length dn" "index_for (opt_comparator opt) dn [] ixs" for ixs
    using index_weight [OF that(2,1) ne opt(3)] w by simp
  have r2: "tb_options ?r2 = opt" "tb_index_block_options ?r2 = opt\<lparr> opt_block_restart_interval := 1 \<rparr>"
    "index_inv opt ?r2 dn []" "length (contents (tb_file ?r2)) < 2 ^ 63 + 2 ^ 62 + 13"
    using i(2,3,7) 2(4) by (simp_all add: index_inv_def)
  obtain r3 f3 ih ixs where 3: "finish_index port ops ?r2 = (r3, ih)" "tb_file r3 = f3" "file_ok r3"
    "prefix (contents (tb_file ?r2)) (contents f3)" "length ixs = length dn" "index_for (opt_comparator opt) dn [] ixs"
    "stored port (contents f3) ih (block_of 1 ixs)" "length (contents f3) < 2 ^ 64 - 2 ^ 60"
    by (rule finish_index_stored [OF 2(2) r2(1,2) opt(2) r2(3) ne r2(4) iw]) blast
  let ?ft = "Footer_EncodeTo [] \<lparr> ft_metaindex_handle = mh, ft_index_handle = ih \<rparr>"
  obtain f4 where f4: "wf_Append ops ?ft f3 = (Status_OK, f4)" "inv f4" "contents f4 = contents f3 @ ?ft"
    using append [of f3] 3(2,3) by (auto simp: file_ok_def)
  let ?r4 = "finish_footer ops mh ih r3"
  have u: "unat (48 + tb_offset r3) = 48 + unat (tb_offset r3)"
    using 3(2,3,8) by (simp add: file_ok_def unat_word_ariths)
  have r4: "tb_file ?r4 = f4" "tb_status ?r4 = Status_OK" "unat (tb_offset ?r4) = length (contents f4)"
    using f4(1,3) 3(2,3) u by (simp_all add: finish_footer_def tb_ok_def Let_def file_ok_def length_footer add.commute)
  have fin: "tb_Finish port ops r0 = Some (Status_OK, ?r4)"
    using 1(1) 2(1) 3(1) r4(2) by (simp add: tb_Finish_def fl Let_def)
  have st: "stored port (contents f4) h d"
    if "stored port F h d" "prefix F (contents f3)" for F h d
    using that stored_append by (auto simp: prefix_def f4(3))
  have p: "prefix (contents f2) (contents f3)" "prefix (contents f1) (contents f3)" "prefix (contents (tb_file r)) (contents f3)"
    using 1(3) 2(3) 3(4) by (auto intro: prefix_order.trans)
  have "table_image port opt (contents f4) dn ixs"
    unfolding table_image_def
  proof (intro exI conjI)
    show "length (contents f4) < 2 ^ 64" using 3(8) by (simp add: f4(3) length_footer)
    show "sorted_wrt (<) (map (bh_offset \<circ> snd) dn)" using i(5) by (simp add: blocks_ok_def)
    show "contents f4 = contents f3 @ ?ft" by (rule f4(3))
    show "\<forall>(b, h) \<in> set dn. b \<noteq> [] \<and> stored port (contents f4) h (block_of ?ri b)"
      using i(5) st [OF _ p(3)] by (auto simp: blocks_ok_def)
    show "stored port (contents f4) ih (block_of 1 ixs)" using st [OF 3(7)] by simp
    show "stored port (contents f4) mh (block_of ?ri (meta_entries opt fh))" by (rule st [OF 2(5) p(1)])
    show "\<forall>q. opt_filter_policy opt = Some q \<longrightarrow> stored port (contents f4) fh (build_filter_block q (fblocks dn @ [(?off, [])]))"
      using st [OF _ p(2)] 1(6) unfolding fb by blast
  qed (use so off 3(5,6) in simp_all)
  then show ?thesis using fin r4 f4(2) by (auto simp: FileSize_def)
qed

lemma build_table_image:
  assumes "inv f" "contents f = []" and opt: "1 \<le> opt_block_restart_interval opt" "opt_compression opt \<le> 2"
    "short_keys (opt_comparator opt)" "filters_fit opt (map fst xs)"
    "\<And>p. opt_filter_policy opt = Some p \<Longrightarrow> length (Name p) < 2 ^ 31 \<and> filter_policy p (adm p)"
    and w: "weight xs < 2 ^ 30"
  shows "\<exists>r dn ixs. build_table port ops opt xs f = Some (Status_OK, r) \<and> inv (tb_file r) \<and>
    unat (FileSize r) = length (contents (tb_file r)) \<and> table_image port opt (contents (tb_file r)) dn ixs \<and> entries dn = xs"
proof -
  obtain dn cur where i: "tb_inv opt (fold (\<lambda>(k, v). tb_Add port ops k v) xs (new_TableBuilder opt f)) dn cur"
    "entries dn @ cur = xs"
    using tb_inv_fold [OF tb_inv_new [OF assms(1,2)] opt(1,2), of xs] w by auto
  let ?r = "fold (\<lambda>(k, v). tb_Add port ops k v) xs (new_TableBuilder opt f)"
  obtain dn' where dn': "tb_inv opt (tb_Flush port ops ?r) dn' []" "entries dn' = xs"
  proof (cases "cur = []")
    case True
    then have "tb_Flush port ops ?r = ?r" using i(1) by (simp add: tb_Flush_def tb_inv_def build_block_def BB_empty_def new_BlockBuilder_def)
    then show ?thesis using that [of dn] i True by simp
  next
    case False
    moreover have "weight (entries dn @ cur) < 2 ^ 31" unfolding i(2) using w by simp
    ultimately obtain h where "tb_inv opt (tb_Flush port ops ?r) (dn @ [(cur, h)]) []"
      using tb_inv_Flush [OF i(1) _ opt(1,2)] by blast
    then show ?thesis using that [of "dn @ [(cur, h)]"] i(2) by simp
  qed
  obtain r' ixs where "tb_Finish port ops ?r = Some (Status_OK, r')" "inv (tb_file r')"
      "unat (FileSize r') = length (contents (tb_file r'))" "table_image port opt (contents (tb_file r')) dn' ixs"
    using Finish_image [OF dn'(1) opt(1-3) _ opt(5) _ refl] opt(4) w unfolding dn'(2) by blast
  then show ?thesis using dn'(2) by (auto simp: build_table_def)
qed

end

end
