(* ===== verification/Table_Reader.thy ===== *)
theory Table_Reader
  imports Table_Layout
begin

text \<open>
  \<^verbatim>\<open>table/table.cc\<close>: opening a table file, reading its filter, the block reader behind the two-level iterator, the point
  lookup and the approximate offset of a key. The state is the members of \<^verbatim>\<open>Rep\<close>. The block cache is an argument of the
  operations that look into it, in place of the pointer in the options: \<open>None\<close> or the blocks it holds by key, and an
  insertion is part of the result. The functions that
  are registered to free a block concern memory only and are left out. An iterator over a block is an error or a block iterator;
  it is \<open>None\<close> when reading the block left its bytes, and then every operation on it is undefined.
\<close>

record 'f Table =
  t_options :: Options
  t_file :: 'f
  t_cache_id :: u64
  t_filter :: "(FilterPolicy \<times> FilterBlockReader) option"
  t_metaindex_handle :: BlockHandle
  t_index_block :: Block

section \<open>Iterators of a statically unknown class\<close>

type_synonym 'i dyn = "(Status + 'i) option"

definition dyn_do :: "(Status \<Rightarrow> Status option) \<Rightarrow> ('i \<Rightarrow> 'i option) \<Rightarrow> 'i dyn \<Rightarrow> 'i dyn option" where
  "dyn_do e f d = (case d of None \<Rightarrow> None | Some (Inl s) \<Rightarrow> map_option (\<lambda>s. Some (Inl s)) (e s)
     | Some (Inr it) \<Rightarrow> map_option (\<lambda>it. Some (Inr it)) (f it))"

definition dyn_get :: "'r \<Rightarrow> (Status \<Rightarrow> 'r) \<Rightarrow> ('i \<Rightarrow> 'r) \<Rightarrow> 'i dyn \<Rightarrow> 'r" where
  "dyn_get u e f d = (case d of None \<Rightarrow> u | Some (Inl s) \<Rightarrow> e s | Some (Inr it) \<Rightarrow> f it)"

definition dyn_Iter :: "'i Iterator \<Rightarrow> 'i dyn Iterator" where
  "dyn_Iter I = \<lparr> it_Valid = dyn_get False (it_Valid EmptyIterator) (it_Valid I),
     it_SeekToFirst = dyn_do (it_SeekToFirst EmptyIterator) (it_SeekToFirst I),
     it_SeekToLast = dyn_do (it_SeekToLast EmptyIterator) (it_SeekToLast I),
     it_Seek = (\<lambda>k. dyn_do (it_Seek EmptyIterator k) (it_Seek I k)),
     it_Next = dyn_do (it_Next EmptyIterator) (it_Next I), it_Prev = dyn_do (it_Prev EmptyIterator) (it_Prev I),
     it_key = dyn_get [] (it_key EmptyIterator) (it_key I), it_value = dyn_get [] (it_value EmptyIterator) (it_value I),
     it_status = dyn_get Status_OK (it_status EmptyIterator) (it_status I) \<rparr>"

abbreviation dyn_block :: "Comparator \<Rightarrow> BlockIter dyn Iterator" where
  "dyn_block cmp \<equiv> dyn_Iter (block_Iter cmp)"

section \<open>Opening a table\<close>

definition ReadFilter :: "Port \<Rightarrow> 'f RandomAccessFile \<Rightarrow> bool \<Rightarrow> slice \<Rightarrow> 'f Table \<Rightarrow> 'f Table option" where
  "ReadFilter port ops buffered filter_handle_value t =
     (case BlockHandle_DecodeFrom filter_handle_value of Inl _ \<Rightarrow> Some t
      | Inr (filter_handle, _) \<Rightarrow>
          (case ReadBlock port ops buffered (t_file t) (opt_paranoid_checks (t_options t)) filter_handle of
             None \<Rightarrow> None | Some (Inl _) \<Rightarrow> Some t
           | Some (Inr block) \<Rightarrow>
               Some (t\<lparr> t_filter := map_option (\<lambda>p. (p, new_FilterBlockReader (bc_data block))) (opt_filter_policy (t_options t)) \<rparr>)))"

definition ReadMeta :: "Port \<Rightarrow> 'f RandomAccessFile \<Rightarrow> bool \<Rightarrow> Footer \<Rightarrow> 'f Table \<Rightarrow> 'f Table option" where
  "ReadMeta port ops buffered footer t =
     (case opt_filter_policy (t_options t) of None \<Rightarrow> Some t
      | Some policy \<Rightarrow>
          (case ReadBlock port ops buffered (t_file t) (opt_paranoid_checks (t_options t)) (ft_metaindex_handle footer) of
             None \<Rightarrow> None | Some (Inl _) \<Rightarrow> Some t
           | Some (Inr contents) \<Rightarrow>
               let I = dyn_block BytewiseComparator; key = filter_key policy in
               (case it_Seek I key (Some (Block_NewIterator (new_Block (bc_data contents)))) of None \<Rightarrow> None
                | Some iter \<Rightarrow> if it_Valid I iter \<and> it_key I iter = key
                    then ReadFilter port ops buffered (it_value I iter) t else Some t)))"

definition Table_Open :: "Port \<Rightarrow> 'f RandomAccessFile \<Rightarrow> bool \<Rightarrow> Options \<Rightarrow> u64 \<Rightarrow> 'f \<Rightarrow> u64 \<Rightarrow> (Status + 'f Table) option" where
  "Table_Open port ops buffered options cache_id file n =
     (if n < of_nat kEncodedLength then Some (Inl (Corruption (bytes_of_string ''file is too short to be an sstable'') []))
      else
        let (s, footer_input) = rf_Read ops (unat (n - of_nat kEncodedLength)) kEncodedLength file in
        if \<not> status_ok s then Some (Inl s)
        else case Footer_DecodeFrom footer_input of Inl s \<Rightarrow> Some (Inl s)
          | Inr (footer, _) \<Rightarrow>
              (case ReadBlock port ops buffered file (opt_paranoid_checks options) (ft_index_handle footer) of
                 None \<Rightarrow> None | Some (Inl s) \<Rightarrow> Some (Inl s)
               | Some (Inr index_block_contents) \<Rightarrow>
                   map_option Inr (ReadMeta port ops buffered footer
                     \<lparr> t_options = options, t_file = file, t_cache_id = cache_id, t_filter = None,
                       t_metaindex_handle = ft_metaindex_handle footer,
                       t_index_block = new_Block (bc_data index_block_contents) \<rparr>)))"

section \<open>Reading\<close>

record ReadOptions =
  verify_checksums :: bool
  fill_cache :: bool

type_synonym block_cache = "(slice \<Rightarrow> Block option) option"

definition cache_key :: "'f Table \<Rightarrow> BlockHandle \<Rightarrow> slice" where
  "cache_key t handle = EncodeFixed64 (t_cache_id t) @ EncodeFixed64 (bh_offset handle)"

text \<open>The block, or the error, and what is put into the cache.\<close>

definition BlockReader_block ::
    "Port \<Rightarrow> 'f RandomAccessFile \<Rightarrow> bool \<Rightarrow> 'f Table \<Rightarrow> ReadOptions \<Rightarrow> block_cache \<Rightarrow> slice \<Rightarrow>
     ((Status + Block) \<times> (slice \<times> Block) option) option" where
  "BlockReader_block port ops buffered t options cache index_value =
     (case BlockHandle_DecodeFrom index_value of Inl s \<Rightarrow> Some (Inl s, None)
      | Inr (handle, _) \<Rightarrow>
          (case cache of
             Some lookup \<Rightarrow> (case lookup (cache_key t handle) of
                 Some block \<Rightarrow> Some (Inr block, None)
               | None \<Rightarrow> (case ReadBlock port ops buffered (t_file t) (verify_checksums options) handle of
                     None \<Rightarrow> None | Some (Inl s) \<Rightarrow> Some (Inl s, None)
                   | Some (Inr contents) \<Rightarrow>
                       let block = new_Block (bc_data contents) in
                       Some (Inr block, if bc_cachable contents \<and> fill_cache options then Some (cache_key t handle, block) else None)))
           | None \<Rightarrow> (case ReadBlock port ops buffered (t_file t) (verify_checksums options) handle of
                 None \<Rightarrow> None | Some (Inl s) \<Rightarrow> Some (Inl s, None)
               | Some (Inr contents) \<Rightarrow> Some (Inr (new_Block (bc_data contents)), None))))"

definition BlockReader ::
    "Port \<Rightarrow> 'f RandomAccessFile \<Rightarrow> bool \<Rightarrow> 'f Table \<Rightarrow> ReadOptions \<Rightarrow> block_cache \<Rightarrow> slice \<Rightarrow> BlockIter dyn" where
  "BlockReader port ops buffered t options cache index_value =
     map_option (\<lambda>(r, _). case r of Inl s \<Rightarrow> Inl (NewErrorIterator s) | Inr block \<Rightarrow> Block_NewIterator block)
       (BlockReader_block port ops buffered t options cache index_value)"

text \<open>A table's iterator: its operations and its initial state.\<close>

definition table_Iter ::
    "Port \<Rightarrow> 'f RandomAccessFile \<Rightarrow> bool \<Rightarrow> 'f Table \<Rightarrow> ReadOptions \<Rightarrow> block_cache \<Rightarrow> (BlockIter dyn, BlockIter dyn) TwoLevel Iterator" where
  "table_Iter port ops buffered t options cache =
     (let I = dyn_block (opt_comparator (t_options t)) in TwoLevelIterator I I (BlockReader port ops buffered t options cache))"

definition Table_NewIterator :: "'f Table \<Rightarrow> (BlockIter dyn, BlockIter dyn) TwoLevel" where
  "Table_NewIterator t =
     (let I = dyn_block (opt_comparator (t_options t)) in new_TwoLevel I I (Some (Block_NewIterator (t_index_block t))))"

text \<open>The filter's answer about the block of a handle; no filter or no handle keeps every key.\<close>

definition filter_keeps :: "'f Table \<Rightarrow> slice \<Rightarrow> slice \<Rightarrow> bool option" where
  "filter_keeps t handle_value k =
     (case t_filter t of None \<Rightarrow> Some True
      | Some (policy, rd) \<Rightarrow>
          (case BlockHandle_DecodeFrom handle_value of Inl _ \<Rightarrow> Some True
           | Inr (handle, _) \<Rightarrow> FilterBlock_KeyMayMatch policy rd (bh_offset handle) k))"

definition InternalGet ::
    "Port \<Rightarrow> 'f RandomAccessFile \<Rightarrow> bool \<Rightarrow> 'f Table \<Rightarrow> ReadOptions \<Rightarrow> block_cache \<Rightarrow> slice \<Rightarrow>
     (slice \<Rightarrow> slice \<Rightarrow> 's \<Rightarrow> 's) \<Rightarrow> 's \<Rightarrow> (Status \<times> 's) option" where
  "InternalGet port ops buffered t options cache k handle_result arg =
     (let I = dyn_block (opt_comparator (t_options t)) in
      case it_Seek I k (Some (Block_NewIterator (t_index_block t))) of None \<Rightarrow> None
      | Some iiter \<Rightarrow>
          let after = (\<lambda>s arg. Some (if status_ok s then it_status I iiter else s, arg)) in
          if \<not> it_Valid I iiter then after Status_OK arg
          else (case filter_keeps t (it_value I iiter) k of None \<Rightarrow> None
            | Some False \<Rightarrow> after Status_OK arg
            | Some True \<Rightarrow>
                (case it_Seek I k (BlockReader port ops buffered t options cache (it_value I iiter)) of None \<Rightarrow> None
                 | Some block_iter \<Rightarrow>
                     after (it_status I block_iter)
                       (if it_Valid I block_iter then handle_result (it_key I block_iter) (it_value I block_iter) arg else arg))))"

definition ApproximateOffsetOf :: "'f Table \<Rightarrow> slice \<Rightarrow> u64 option" where
  "ApproximateOffsetOf t key =
     (let I = dyn_block (opt_comparator (t_options t)) in
      case it_Seek I key (Some (Block_NewIterator (t_index_block t))) of None \<Rightarrow> None
      | Some index_iter \<Rightarrow>
          Some (if it_Valid I index_iter
            then (case BlockHandle_DecodeFrom (it_value I index_iter) of
                    Inr (handle, _) \<Rightarrow> bh_offset handle | Inl _ \<Rightarrow> bh_offset (t_metaindex_handle t))
            else bh_offset (t_metaindex_handle t)))"

section \<open>The index separates the blocks\<close>

text \<open>The block of an encoded handle.\<close>

definition block_at_handle :: "done_blocks \<Rightarrow> slice \<Rightarrow> kv list" where
  "block_at_handle dn e = (case map_of (map (\<lambda>(b, h). (BlockHandle_EncodeTo [] h, b)) dn) e of None \<Rightarrow> [] | Some b \<Rightarrow> b)"

lemma handle_inj: "BlockHandle_EncodeTo [] h = BlockHandle_EncodeTo [] h' \<Longrightarrow> h = h'"
  using handle_roundtrip [of h "[]"] handle_roundtrip [of h' "[]"] by simp

lemma block_at_handle_nth:
  assumes "sorted_wrt (<) (map (bh_offset \<circ> snd) dn)" "i < length dn"
  shows "block_at_handle dn (BlockHandle_EncodeTo [] (snd (dn ! i))) = fst (dn ! i)"
proof -
  have "distinct (map (bh_offset \<circ> snd) dn)" using assms(1) by (simp add: strict_sorted_iff)
  then have "distinct (map fst (map (\<lambda>(b, h). (BlockHandle_EncodeTo [] h, b)) dn))"
    by (induction dn) (force simp: split_beta dest!: handle_inj)+
  moreover have "(BlockHandle_EncodeTo [] (snd (dn ! i)), fst (dn ! i)) \<in> set (map (\<lambda>(b, h). (BlockHandle_EncodeTo [] h, b)) dn)"
    using nth_mem [OF assms(2)] by (force simp: split_beta)
  ultimately show ?thesis by (simp add: block_at_handle_def map_of_is_SomeI)
qed

lemma total_entries:
  assumes "index_for cmp dn [] ixs" "length ixs = length dn" "sorted_wrt (<) (map (bh_offset \<circ> snd) dn)"
  shows "tl_total (block_at_handle dn) ixs = entries dn"
proof -
  have "map (\<lambda>e. block_at_handle dn (snd e)) ixs = map fst dn"
    using assms(1,2) block_at_handle_nth [OF assms(3)]
    by (intro nth_equalityI) (auto simp: index_for_def index_entry_def)
  then show ?thesis by (simp add: tl_total_def entries_def)
qed

lemma entries_split:
  "i < length dn \<Longrightarrow> entries dn = entries (take i dn) @ fst (dn ! i) @ entries (drop (Suc i) dn)"
  by (subst id_take_nth_drop) (simp_all add: entries_def)

lemma entries_later: "i < j \<Longrightarrow> j < length dn \<Longrightarrow> e \<in> set (fst (dn ! j)) \<Longrightarrow> e \<in> set (entries (drop (Suc i) dn))"
proof -
  assume a: "i < j" "j < length dn" "e \<in> set (fst (dn ! j))"
  then have "drop (Suc i) dn ! (j - Suc i) = dn ! j" "j - Suc i < length (drop (Suc i) dn)" by simp_all
  then have "dn ! j \<in> set (drop (Suc i) dn)" by (metis nth_mem)
  then show ?thesis using a(3) by (auto simp: entries_def)
qed

lemma kv_sorted_append:
  "kv_sorted cmp ok (xs @ ys) \<longleftrightarrow> kv_sorted cmp ok xs \<and> kv_sorted cmp ok ys \<and> (\<forall>x \<in> set xs. \<forall>y \<in> set ys. cmp (fst x) (fst y) < 0)"
  by (auto simp: kv_sorted_def sorted_wrt_append)

context comparator_law
begin

lemma last_ge: "kv_sorted (Compare cmp) ok xs \<Longrightarrow> e \<in> set xs \<Longrightarrow> Compare cmp (fst e) (fst (last xs)) \<le> 0"
proof -
  assume s: "kv_sorted (Compare cmp) ok xs" and e: "e \<in> set xs"
  obtain ys z where xs: "xs = ys @ [z]" using e by (cases xs rule: rev_cases) auto
  show ?thesis using s e refl [of "fst z"] by (auto simp: xs kv_sorted_append) (simp_all add: kv_sorted_def)
qed

lemma separates:
  assumes "kv_sorted (Compare cmp) ok (entries dn)" "\<forall>(b, h) \<in> set dn. b \<noteq> []" "index_for cmp dn [] ixs" "length ixs = length dn"
    "i < length dn"
  shows "ok (fst (ixs ! i))"
    and "\<And>e. e \<in> set (fst (dn ! i)) \<Longrightarrow> Compare cmp (fst e) (fst (ixs ! i)) \<le> 0"
    and "\<And>e. e \<in> set (entries (drop (Suc i) dn)) \<Longrightarrow> Compare cmp (fst (ixs ! i)) (fst e) < 0"
proof -
  let ?b = "fst (dn ! i)" and ?rest = "entries (drop (Suc i) dn)" and ?s = "fst (ixs ! i)"
  have ne: "?b \<noteq> []" using assms(2) nth_mem [OF assms(5)] by (auto simp: split_beta)
  let ?k = "fst (last ?b)"
  have s: "kv_sorted (Compare cmp) ok ?b" "kv_sorted (Compare cmp) ok ?rest"
    "\<And>x y. x \<in> set ?b \<Longrightarrow> y \<in> set ?rest \<Longrightarrow> Compare cmp (fst x) (fst y) < 0"
    using assms(1) entries_split [OF assms(5)] by (auto simp: kv_sorted_append)
  have okb: "ok (fst x)" if "x \<in> set ?b" for x using s(1) that by (simp add: kv_sorted_def)
  have okr: "ok (fst x)" if "x \<in> set ?rest" for x using s(2) that by (simp add: kv_sorted_def)
  note k = okb [OF last_in_set [OF ne]]
  have e: "?s = (if ?rest = [] then FindShortSuccessor cmp ?k else FindShortestSeparator cmp ?k (fst (hd ?rest)))"
    using assms(3-5) by (simp add: index_for_def index_entry_def Let_def)
  have ge: "ok ?s \<and> Compare cmp ?k ?s \<le> 0 \<and> (?rest \<noteq> [] \<longrightarrow> Compare cmp ?s (fst (hd ?rest)) < 0)"
  proof (cases "?rest = []")
    case True
    then show ?thesis using e k successor_ok successor_ge by simp
  next
    case False
    then have "ok (fst (hd ?rest))" "Compare cmp ?k (fst (hd ?rest)) < 0"
      using okr [OF hd_in_set] s(3) [OF last_in_set [OF ne] hd_in_set] by simp_all
    then show ?thesis using e False k separator_ok separator_ge separator_less by simp
  qed
  show "ok ?s" using ge by simp
  show "Compare cmp (fst x) ?s \<le> 0" if "x \<in> set ?b" for x
    using trans [of "fst x" ?k ?s] last_ge [OF s(1) that] ge okb [OF that] k by blast
  show "Compare cmp ?s (fst x) < 0" if x: "x \<in> set ?rest" for x
  proof -
    obtain y ys where r: "?rest = y # ys" using x by (cases ?rest) auto
    have "Compare cmp (fst (hd ?rest)) (fst x) \<le> 0"
      using x s(2) refl [of "fst y"] okr by (auto simp: r kv_sorted_def)
    then show ?thesis using ord.ko_less_le [of ?s "fst (hd ?rest)" "fst x"] ge x okr r by auto
  qed
qed

lemma index_sorted:
  assumes "kv_sorted (Compare cmp) ok (entries dn)" "\<forall>(b, h) \<in> set dn. b \<noteq> []" "index_for cmp dn [] ixs" "length ixs = length dn"
  shows "kv_sorted (Compare cmp) ok ixs"
proof -
  have "Compare cmp (fst (ixs ! i)) (fst (ixs ! j)) < 0" if "i < j" "j < length ixs" for i j
  proof -
    have j: "j < length dn" "i < length dn" using that assms(4) by simp_all
    have "fst (dn ! j) \<noteq> []" using assms(2) nth_mem [OF j(1)] by (auto simp: split_beta)
    then have l: "last (fst (dn ! j)) \<in> set (fst (dn ! j))" by simp
    then have "ok (fst (last (fst (dn ! j))))" using assms(1) entries_split [OF j(1)] by (auto simp: kv_sorted_def)
    then show ?thesis
      using ord.ko_less_le [OF separates(1) [OF assms j(2)] _ separates(1) [OF assms j(1)]]
        separates(3) [OF assms j(2) entries_later [OF that(1) j(1) l]] separates(2) [OF assms j(1) l] by blast
  qed
  moreover have "ok (fst e)" if "e \<in> set ixs" for e
    using that separates(1) [OF assms] assms(4) by (auto simp: in_set_conv_nth)
  ultimately show ?thesis by (auto simp: kv_sorted_def sorted_wrt_iff_nth_less)
qed

end

section \<open>Iterators over stored blocks\<close>

definition dyn_at :: "('i \<Rightarrow> kv list \<Rightarrow> nat option \<Rightarrow> bool) \<Rightarrow> 'i dyn \<Rightarrow> kv list \<Rightarrow> nat option \<Rightarrow> bool" where
  "dyn_at at d xs p \<longleftrightarrow> (\<exists>it. d = Some (Inr it) \<and> at it xs p)"

context list_iterator
begin

lemma dyn_list_iterator: "list_iterator cmp ok (dyn_Iter I) (dyn_at at)"
proof
  fix d xs p
  assume "dyn_at at d xs p"
  then obtain it where it: "d = Some (Inr it)" "at it xs p" by (auto simp: dyn_at_def)
  show "kv_sorted cmp ok xs" by (rule at_sorted [OF it(2)])
  show "it_Valid (dyn_Iter I) d = (p \<noteq> None)" "it_status (dyn_Iter I) d = Status_OK"
    using at_valid [OF it(2)] at_status [OF it(2)] by (simp_all add: dyn_Iter_def dyn_get_def it(1))
  show "\<exists>d'. it_SeekToFirst (dyn_Iter I) d = Some d' \<and> dyn_at at d' xs (at_pos xs 0)"
    "\<exists>d'. it_SeekToLast (dyn_Iter I) d = Some d' \<and> dyn_at at d' xs (last_pos xs)"
    using at_SeekToFirst [OF it(2)] at_SeekToLast [OF it(2)] by (auto simp: dyn_Iter_def dyn_do_def dyn_at_def it(1))
  show "\<exists>d'. it_Seek (dyn_Iter I) k d = Some d' \<and> dyn_at at d' xs (at_pos xs (lower cmp k xs))" if "ok k" for k
    using at_Seek [OF it(2) that] by (auto simp: dyn_Iter_def dyn_do_def dyn_at_def it(1))
next
  fix d xs i
  assume "dyn_at at d xs (Some i)"
  then obtain it where it: "d = Some (Inr it)" "at it xs (Some i)" by (auto simp: dyn_at_def)
  show "i < length xs" by (rule at_bound [OF it(2)])
  show "it_key (dyn_Iter I) d = fst (xs ! i)" "it_value (dyn_Iter I) d = snd (xs ! i)"
    using at_key [OF it(2)] at_value [OF it(2)] by (simp_all add: dyn_Iter_def dyn_get_def it(1))
  show "\<exists>d'. it_Next (dyn_Iter I) d = Some d' \<and> dyn_at at d' xs (at_pos xs (Suc i))"
    "\<exists>d'. it_Prev (dyn_Iter I) d = Some d' \<and> dyn_at at d' xs (prev_pos i)"
    using at_Next [OF it(2)] at_Prev [OF it(2)] by (auto simp: dyn_Iter_def dyn_do_def dyn_at_def it(1))
qed

end

abbreviation dyn_block_at :: "Comparator \<Rightarrow> (slice \<Rightarrow> bool) \<Rightarrow> BlockIter dyn \<Rightarrow> kv list \<Rightarrow> nat option \<Rightarrow> bool" where
  "dyn_block_at cmp ok \<equiv> dyn_at (block_at cmp ok)"

sublocale comparator_law \<subseteq> dyn: list_iterator "Compare cmp" ok "dyn_block cmp" "dyn_block_at cmp ok"
  by (rule block.dyn_list_iterator)

text \<open>The two-level iterator over any block function and the handles that it opens.\<close>

sublocale comparator_law \<subseteq> tbl: two_level "Compare cmp" ok "dyn_block cmp" "dyn_block_at cmp ok" "dyn_block cmp" "dyn_block_at cmp ok"
    bf blocks "{h. \<exists>p. dyn_block_at cmp ok (bf h) (blocks h) p}" for bf blocks
  by unfold_locales simp

section \<open>A table that was built\<close>

locale table_reader = reliable_random_reader ops inv contents + comparator_law cmp ok
  for ops :: "'f RandomAccessFile" and inv contents cmp ok +
  fixes port :: Port and opt :: Options
  assumes comparator: "opt_comparator opt = cmp" and short: "short_keys cmp" and interval: "1 \<le> opt_block_restart_interval opt"
    and name: "opt_filter_policy opt = Some p \<Longrightarrow> length (Name p) < 2 ^ 31"
begin

definition image_ok :: "slice \<Rightarrow> done_blocks \<Rightarrow> kv list \<Rightarrow> bool" where
  "image_ok F dn ixs \<longleftrightarrow> table_image port opt F dn ixs \<and> kv_sorted (Compare cmp) ok (entries dn) \<and> weight (entries dn) < 2 ^ 30"

definition table_ok :: "'f Table \<Rightarrow> done_blocks \<Rightarrow> kv list \<Rightarrow> bool" where
  "table_ok t dn ixs \<longleftrightarrow> inv (t_file t) \<and> t_options t = opt \<and> image_ok (contents (t_file t)) dn ixs \<and>
     t_index_block t = new_Block (block_of 1 ixs) \<and>
     (\<exists>off. sorted (map fst (fblocks dn @ [(off, [])])) \<and>
        t_filter t = map_option (\<lambda>p. (p, new_FilterBlockReader (build_filter_block p (fblocks dn @ [(off, [])])))) (opt_filter_policy opt))"

lemma image_facts:
  assumes "image_ok F dn ixs"
  shows "kv_sorted (Compare cmp) ok (entries dn)" "\<forall>(b, h) \<in> set dn. b \<noteq> []" "index_for cmp dn [] ixs" "length ixs = length dn"
    "sorted_wrt (<) (map (bh_offset \<circ> snd) dn)" "kv_sorted (Compare cmp) ok ixs" "length (block_of 1 ixs) < 2 ^ 32"
    "tl_total (block_at_handle dn) ixs = entries dn"
proof -
  show s: "kv_sorted (Compare cmp) ok (entries dn)" "\<forall>(b, h) \<in> set dn. b \<noteq> []" "index_for cmp dn [] ixs"
    "length ixs = length dn" "sorted_wrt (<) (map (bh_offset \<circ> snd) dn)"
    using assms by (auto simp: image_ok_def table_image_def comparator)
  show "kv_sorted (Compare cmp) ok ixs" by (rule index_sorted [OF s(1-4)])
  show "tl_total (block_at_handle dn) ixs = entries dn" by (rule total_entries [OF s(3-5)])
  show "length (block_of 1 ixs) < 2 ^ 32"
    using length_block_of [of 1 ixs] index_weight [OF s(3,4,2) short] assms by (simp add: image_ok_def)
qed

lemma index_iterator:
  assumes "table_ok t dn ixs"
  shows "dyn_block_at cmp ok (Some (Block_NewIterator (t_index_block t))) ixs None"
proof -
  have "image_ok (contents (t_file t)) dn ixs" using assms by (simp add: table_ok_def)
  note i = image_facts [OF this]
  show ?thesis using block_of_iterator [OF i(6) _ i(7)] assms by (auto simp: dyn_at_def table_ok_def)
qed

text \<open>A cache is coherent when what it holds for a block of the table is that block.\<close>

definition coherent :: "'f Table \<Rightarrow> done_blocks \<Rightarrow> block_cache \<Rightarrow> bool" where
  "coherent t dn cache \<longleftrightarrow> (\<forall>lookup b h blk. cache = Some lookup \<longrightarrow> (b, h) \<in> set dn \<longrightarrow>
     lookup (cache_key t h) = Some blk \<longrightarrow> blk = new_Block (block_of (opt_block_restart_interval opt) b))"

lemma block_facts:
  assumes "image_ok F dn ixs" "i < length dn"
  shows "snd (ixs ! i) = BlockHandle_EncodeTo [] (snd (dn ! i))"
    "stored port F (snd (dn ! i)) (block_of (opt_block_restart_interval opt) (fst (dn ! i)))"
    "kv_sorted (Compare cmp) ok (fst (dn ! i))" "length (block_of (opt_block_restart_interval opt) (fst (dn ! i))) < 2 ^ 32"
proof -
  note i = image_facts [OF assms(1)]
  show "snd (ixs ! i) = BlockHandle_EncodeTo [] (snd (dn ! i))"
    using i(3,4) assms(2) by (simp add: index_for_def index_entry_def)
  show "stored port F (snd (dn ! i)) (block_of (opt_block_restart_interval opt) (fst (dn ! i)))"
    using assms nth_mem [OF assms(2)] by (auto simp: image_ok_def table_image_def split_beta)
  show "kv_sorted (Compare cmp) ok (fst (dn ! i))"
    using i(1) entries_split [OF assms(2)] by (simp add: kv_sorted_append)
  have "weight (fst (dn ! i)) \<le> weight (entries dn)" using arg_cong [OF entries_split [OF assms(2)], of weight] by simp
  then show "length (block_of (opt_block_restart_interval opt) (fst (dn ! i))) < 2 ^ 32"
    using length_block_of [OF interval, of "fst (dn ! i)"] assms(1) by (simp add: image_ok_def)
qed

lemma BlockReader_at:
  assumes t: "table_ok t dn ixs" and i: "i < length dn" and c: "coherent t dn cache"
  shows "dyn_block_at cmp ok (BlockReader port ops buffered t options cache (snd (ixs ! i))) (fst (dn ! i)) None"
proof -
  have im: "image_ok (contents (t_file t)) dn ixs" "inv (t_file t)" using t by (simp_all add: table_ok_def)
  note b = block_facts [OF im(1) i]
  let ?h = "snd (dn ! i)" and ?d = "block_of (opt_block_restart_interval opt) (fst (dn ! i))"
  obtain cc where rb: "ReadBlock port ops buffered (t_file t) (verify_checksums options) ?h = Some (Inr \<lparr> bc_data = ?d, bc_cachable = cc \<rparr>)"
    using ReadBlock_stored [OF im(2) b(2)] by blast
  have "dn ! i \<in> set dn" using i by simp
  then have "\<forall>lookup blk. cache = Some lookup \<longrightarrow> lookup (cache_key t ?h) = Some blk \<longrightarrow> blk = new_Block ?d"
    using c by (metis coherent_def prod.collapse)
  then have "\<exists>ins. BlockReader_block port ops buffered t options cache (snd (ixs ! i)) = Some (Inr (new_Block ?d), ins)"
    using rb handle_roundtrip [of ?h "[]"] unfolding b(1) BlockReader_block_def
    by (simp add: Let_def split: option.splits)
  moreover obtain it where "Block_NewIterator (new_Block ?d) = Inr it" "block_at cmp ok it (fst (dn ! i)) None"
    using block_of_iterator [OF b(3) interval b(4)] by blast
  ultimately show ?thesis by (auto simp: BlockReader_def dyn_at_def)
qed

text \<open>The iterator of the table stands for the entries.\<close>

lemma table_index_ok:
  assumes t: "table_ok t dn ixs" and c: "coherent t dn cache"
  shows "tbl.index_ok (block_at_handle dn) (BlockReader port ops buffered t options cache) ixs"
proof -
  have im: "image_ok (contents (t_file t)) dn ixs" using t by (simp add: table_ok_def)
  note i = image_facts [OF im]
  have blk: "block_at_handle dn (snd (ixs ! n)) = fst (dn ! n)" if "n < length ixs" for n
    using block_at_handle_nth [OF i(5), of n] block_facts(1) [OF im, of n] that i(4) by simp
  have "\<exists>p. dyn_block_at cmp ok (BlockReader port ops buffered t options cache h) (block_at_handle dn h) p" if "h \<in> snd ` set ixs" for h
  proof -
    obtain n where n: "n < length ixs" "h = snd (ixs ! n)" using \<open>h \<in> snd ` set ixs\<close> by (auto simp: in_set_conv_nth)
    then show ?thesis using BlockReader_at [OF t _ c, of n] i(4) by (auto simp: blk)
  qed
  moreover have "Compare cmp (fst e) (fst (ixs ! n)) \<le> 0" if "n < length ixs" "e \<in> set (block_at_handle dn (snd (ixs ! n)))" for n e
    using separates(2) [OF i(1-4), of n e] that i(4) blk by simp
  moreover have "Compare cmp (fst (ixs ! m)) (fst e) < 0"
    if "n < length ixs" "m < n" "e \<in> set (block_at_handle dn (snd (ixs ! n)))" for n m e
    using separates(3) [OF i(1-4), of m e] entries_later [OF that(2), of dn e] that i(4) blk by simp
  ultimately show ?thesis unfolding tbl.index_ok_def i(8) using i(1) by blast
qed

lemma NewIterator_at:
  assumes t: "table_ok t dn ixs" and c: "coherent t dn cache"
  shows "tbl.tl_at (block_at_handle dn) (BlockReader port ops buffered t options cache) (Table_NewIterator t) (entries dn) None"
proof -
  have im: "image_ok (contents (t_file t)) dn ixs" "t_options t = opt" using t by (simp_all add: table_ok_def)
  let ?w = "iw_Set (dyn_block cmp) (Some (Some (Block_NewIterator (t_index_block t)))) new_IteratorWrapper"
  have "dyn.wrap_at ?w ixs None" by (rule dyn.wrap_Set [OF index_iterator [OF t]])
  then have "tbl.tl_out (block_at_handle dn) (BlockReader port ops buffered t options cache) ixs (Table_NewIterator t)"
    using table_index_ok [OF t c] im(2)
    by (auto simp: tbl.tl_out_def tbl.tl_state_def tbl.data_ok_def Table_NewIterator_def new_TwoLevel_def comparator Let_def
        iw_Set_def new_IteratorWrapper_def)
  then show ?thesis unfolding tbl.tl_at_def using image_facts(8) [OF im(1), symmetric] by (intro exI [of _ ixs]) simp
qed

text \<open>Opening.\<close>

lemma ReadFilter_stored:
  assumes "inv (t_file t)" "stored port (contents (t_file t)) fh d"
  shows "ReadFilter port ops buffered (BlockHandle_EncodeTo [] fh) t =
    Some (t\<lparr> t_filter := map_option (\<lambda>p. (p, new_FilterBlockReader d)) (opt_filter_policy (t_options t)) \<rparr>)"
proof -
  obtain c where "ReadBlock port ops buffered (t_file t) (opt_paranoid_checks (t_options t)) fh = Some (Inr \<lparr> bc_data = d, bc_cachable = c \<rparr>)"
    using ReadBlock_stored [OF assms] by blast
  then show ?thesis using handle_roundtrip [of fh "[]"] by (simp add: ReadFilter_def)
qed

lemma ReadMeta_stored:
  assumes t: "inv (t_file t)" "t_options t = opt" "t_filter t = None"
    and m: "stored port (contents (t_file t)) (ft_metaindex_handle ft) (block_of (opt_block_restart_interval opt) (meta_entries opt fh))"
    and f: "\<forall>p. opt_filter_policy opt = Some p \<longrightarrow> stored port (contents (t_file t)) fh (d p)"
  shows "ReadMeta port ops buffered ft t =
    Some (t\<lparr> t_filter := map_option (\<lambda>p. (p, new_FilterBlockReader (d p))) (opt_filter_policy opt) \<rparr>)"
proof (cases "opt_filter_policy opt")
  case None
  then show ?thesis using t by (cases t) (simp add: ReadMeta_def)
next
  case (Some p)
  let ?I = "dyn_block BytewiseComparator" and ?e = "(filter_key p, BlockHandle_EncodeTo [] fh)"
  let ?b = "block_of (opt_block_restart_interval opt) [?e]"
  have me: "meta_entries opt fh = [?e]" using Some by (simp add: meta_entries_def)
  obtain c where rb: "ReadBlock port ops buffered (t_file t) (opt_paranoid_checks opt) (ft_metaindex_handle ft) =
      Some (Inr \<lparr> bc_data = ?b, bc_cachable = c \<rparr>)"
    using ReadBlock_stored [OF t(1) m] by (auto simp: me)
  have srt: "kv_sorted (Compare BytewiseComparator) (\<lambda>_. True) [?e]" by (simp add: kv_sorted_def)
  have "length ?b < 2 ^ 32"
    using length_block_of [OF interval, of "[?e]"] name [OF Some] length_handle [of fh]
    by (simp add: filter_key_def bytes_of_string_def)
  then have "dyn_block_at BytewiseComparator (\<lambda>_. True) (Some (Block_NewIterator (new_Block ?b))) [?e] None"
    using block_of_iterator [OF srt interval] by (auto simp: dyn_at_def)
  moreover have "lower (Compare BytewiseComparator) (filter_key p) [?e] = 0"
    using bytewise.refl [of "filter_key p"] by (simp add: lower_def)
  ultimately obtain it where it: "it_Seek ?I (filter_key p) (Some (Block_NewIterator (new_Block ?b))) = Some it"
    "dyn_block_at BytewiseComparator (\<lambda>_. True) it [?e] (Some 0)"
    using bytewise.dyn.at_Seek [of "Some (Block_NewIterator (new_Block ?b))" "[?e]" None "filter_key p"] by (auto simp: at_pos_def)
  have v: "it_Valid ?I it" "it_key ?I it = filter_key p" "it_value ?I it = BlockHandle_EncodeTo [] fh"
    using bytewise.dyn.at_valid [OF it(2)] bytewise.dyn.at_key [OF it(2)] bytewise.dyn.at_value [OF it(2)] by simp_all
  have "ReadMeta port ops buffered ft t = ReadFilter port ops buffered (BlockHandle_EncodeTo [] fh) t"
    using Some rb it(1) v t(2) by (simp add: ReadMeta_def Let_def)
  then show ?thesis using ReadFilter_stored [OF t(1)] f Some t(2) by simp
qed

lemma Open_ok:
  assumes f: "inv f" and im: "image_ok (contents f) dn ixs"
  shows "\<exists>t. Table_Open port ops buffered opt cache_id f (of_nat (length (contents f))) = Some (Inr t) \<and> table_ok t dn ixs"
proof -
  obtain body mh ih fh off where F: "length (contents f) < 2 ^ 64"
    "contents f = body @ Footer_EncodeTo [] \<lparr> ft_metaindex_handle = mh, ft_index_handle = ih \<rparr>"
    "sorted (map fst (fblocks dn @ [(off, [])]))" "stored port (contents f) ih (block_of 1 ixs)"
    "stored port (contents f) mh (block_of (opt_block_restart_interval opt) (meta_entries opt fh))"
    "\<forall>p. opt_filter_policy opt = Some p \<longrightarrow> stored port (contents f) fh (build_filter_block p (fblocks dn @ [(off, [])]))"
    using im unfolding image_ok_def table_image_def by blast
  let ?ft = "\<lparr> ft_metaindex_handle = mh, ft_index_handle = ih \<rparr>" and ?n = "of_nat (length (contents f)) :: u64"
  have len: "length (contents f) = length body + 48" by (simp add: F(2) length_footer)
  have "unat (?n - 48) = length body" "\<not> ?n < 48"
  proof -
    have n: "?n = of_nat (length body) + 48" by (simp add: len)
    then show "unat (?n - 48) = length body" using F(1) len by (simp add: unat_of_nat_small)
    have "unat ?n = length (contents f)" using F(1) by (simp add: unat_of_nat_small)
    then show "\<not> ?n < 48" using len by (simp add: word_less_nat_alt)
  qed
  moreover have "rf_Read ops (length body) 48 f = (Status_OK, Footer_EncodeTo [] ?ft)"
    using pread [OF f, of "length body" 48] F(2) by (simp add: length_footer)
  moreover have "Footer_DecodeFrom (Footer_EncodeTo [] ?ft) = Inr (?ft, [])" using footer_decode [of ?ft "[]"] by simp
  moreover obtain c where "ReadBlock port ops buffered f (opt_paranoid_checks opt) ih = Some (Inr \<lparr> bc_data = block_of 1 ixs, bc_cachable = c \<rparr>)"
    using ReadBlock_stored [OF f F(4)] by blast
  ultimately show ?thesis
    using ReadMeta_stored [of "\<lparr> t_options = opt, t_file = f, t_cache_id = cache_id, t_filter = None, t_metaindex_handle = mh,
        t_index_block = new_Block (block_of 1 ixs) \<rparr>" ?ft fh "\<lambda>p. build_filter_block p (fblocks dn @ [(off, [])])" buffered] F f im
    by (auto simp: Table_Open_def Let_def table_ok_def intro: exI [of _ off])
qed

end

section \<open>Lookups\<close>

text \<open>The policy of the options finds every key of the list, however the list is divided into groups, and its filters fit.\<close>

definition policy_ok :: "Options \<Rightarrow> slice list \<Rightarrow> bool" where
  "policy_ok opt ks \<longleftrightarrow> filters_fit opt ks \<and>
     (\<forall>p. opt_filter_policy opt = Some p \<longrightarrow> length (Name p) < 2 ^ 31 \<and>
        (\<exists>adm. filter_policy p adm \<and> (\<forall>gs. concat gs = ks \<longrightarrow> (\<forall>g \<in> set gs. g \<noteq> [] \<longrightarrow> adm g))))"

lemma lower_entries:
  fixes f :: "slice \<Rightarrow> slice \<Rightarrow> int"
  assumes "n < length dn" "\<And>e. e \<in> set (entries (take n dn)) \<Longrightarrow> f (fst e) k < 0" "lower f k (fst (dn ! n)) < length (fst (dn ! n))"
  shows "lower f k (entries dn) = length (entries (take n dn)) + lower f k (fst (dn ! n))"
    and "lower f k (entries dn) < length (entries dn)"
    and "entries dn ! lower f k (entries dn) = fst (dn ! n) ! lower f k (fst (dn ! n))"
proof -
  let ?p = "entries (take n dn)" and ?b = "fst (dn ! n)" and ?j = "lower f k (fst (dn ! n))"
  note e = entries_split [OF assms(1)]
  show l: "lower f k (entries dn) = length ?p + ?j"
  proof (rule lower_eqI)
    show "length ?p + ?j \<le> length (entries dn)" using e assms(3) by simp
    show "f (fst (entries dn ! i)) k < 0" if i: "i < length ?p + ?j" for i
    proof (cases "i < length ?p")
      case True
      then show ?thesis using assms(2) [OF nth_mem [OF True]] unfolding e by (simp add: nth_append)
    next
      case False
      then have "f (fst (?b ! (i - length ?p))) k < 0" using i by (intro lower_less) simp
      moreover have "i - length ?p < length ?b" using False i assms(3) by linarith
      ultimately show ?thesis using False unfolding e by (simp add: nth_append)
    qed
    show "\<not> f (fst (entries dn ! (length ?p + ?j))) k < 0"
      using lower_not_less [OF assms(3)] assms(3) unfolding e by (simp add: nth_append)
  qed
  show "lower f k (entries dn) < length (entries dn)" "entries dn ! lower f k (entries dn) = ?b ! ?j"
    unfolding l using assms(3) by (simp_all add: e nth_append)
qed

context table_reader
begin

lemma filter_keeps_block:
  assumes t: "table_ok t dn ixs" and n: "n < length dn" and p: "policy_ok opt (map fst (entries dn))"
  shows "\<exists>keep. filter_keeps t (snd (ixs ! n)) k = Some keep \<and>
    ((\<exists>e \<in> set (fst (dn ! n)). \<forall>p f. opt_filter_policy opt = Some p \<longrightarrow> KeyMayMatch p k f = KeyMayMatch p (fst e) f) \<longrightarrow> keep)"
proof (cases "opt_filter_policy opt")
  case None
  then show ?thesis using t by (intro exI [of _ True]) (simp add: filter_keeps_def table_ok_def)
next
  case (Some q)
  have im: "image_ok (contents (t_file t)) dn ixs" using t by (simp add: table_ok_def)
  obtain off where off: "sorted (map fst (fblocks dn @ [(off, [])]))"
    "t_filter t = Some (q, new_FilterBlockReader (build_filter_block q (fblocks dn @ [(off, [])])))"
    using t Some by (auto simp: table_ok_def)
  obtain adm where adm: "filter_policy q adm" "\<forall>gs. concat gs = map fst (entries dn) \<longrightarrow> (\<forall>g \<in> set gs. g \<noteq> [] \<longrightarrow> adm g)"
    "filters_fit opt (map fst (entries dn))" using p Some by (auto simp: policy_ok_def)
  then have fb: "filter_block q adm" by (simp add: filter_block_def)
  let ?bs = "fblocks dn @ [(off, [])]" and ?o = "bh_offset (snd (dn ! n))"
  let ?g = "key_groups ?bs ! (unat ?o div 2048)"
  have c: "concat (key_groups ?bs) = map fst (entries dn)" by (simp only: key_groups_concat concat_fblocks)
  have small: "length (filters_data q (key_groups ?bs)) < 2 ^ 32" using adm(3) Some c unfolding filters_fit_def by blast
  have mem: "(?o, map fst (fst (dn ! n))) \<in> set ?bs" using nth_mem [OF n] by (force simp: fblocks_def split_beta)
  have ne: "fst (dn ! n) \<noteq> []" using image_facts(2) [OF im] nth_mem [OF n] by (auto simp: split_beta)
  have in_group: "unat ?o div 2048 < length (key_groups ?bs) \<and> fst e \<in> set ?g" if "e \<in> set (fst (dn ! n))" for e
    using key_groups_in [OF off(1) mem, of "fst e"] that by simp
  then have g: "unat ?o div 2048 < length (key_groups ?bs)" using last_in_set [OF ne] by blast
  have val: "filter_keeps t (snd (ixs ! n)) k = Some (KeyMayMatch q k (group_filter q ?g))"
    using reader_group [OF small g, of k] handle_roundtrip [of "snd (dn ! n)" "[]"]
    by (simp add: filter_keeps_def off(2) block_facts(1) [OF im n] filter_block.build_filter_block_contents [OF fb])
  have "KeyMayMatch q k (group_filter q ?g)" if "e \<in> set (fst (dn ! n))" "KeyMayMatch q k (group_filter q ?g) = KeyMayMatch q (fst e) (group_filter q ?g)" for e
  proof -
    have e: "fst e \<in> set ?g" using in_group that(1) by blast
    then have "?g \<noteq> []" by auto
    moreover have "?g \<in> set (key_groups ?bs)" using g by simp
    ultimately have "adm ?g" using adm(2) c by blast
    then show ?thesis using filter_policy.no_false_negative [OF adm(1) _ e] \<open>?g \<noteq> []\<close> that(2) by (simp add: group_filter_def)
  qed
  then show ?thesis using val Some by blast
qed

text \<open>The lookup looks at one block, the one the index names.\<close>

lemma InternalGet_block:
  assumes t: "table_ok t dn ixs" and c: "coherent t dn cache" and k: "ok k" and p: "policy_ok opt (map fst (entries dn))"
  defines "n \<equiv> lower (Compare cmp) k ixs"
  shows "n = length dn \<longrightarrow> InternalGet port ops buffered t options cache k hr arg = Some (Status_OK, arg)"
    and "n < length dn \<longrightarrow> (\<exists>keep. InternalGet port ops buffered t options cache k hr arg =
      Some (Status_OK, if keep \<and> lower (Compare cmp) k (fst (dn ! n)) < length (fst (dn ! n))
        then let e = fst (dn ! n) ! lower (Compare cmp) k (fst (dn ! n)) in hr (fst e) (snd e) arg else arg) \<and>
      ((\<exists>e \<in> set (fst (dn ! n)). \<forall>p f. opt_filter_policy opt = Some p \<longrightarrow> KeyMayMatch p k f = KeyMayMatch p (fst e) f) \<longrightarrow> keep))"
proof -
  let ?I = "dyn_block cmp" and ?b = "fst (dn ! n)"
  have im: "image_ok (contents (t_file t)) dn ixs" "t_options t = opt" using t by (simp_all add: table_ok_def)
  note i = image_facts [OF im(1)]
  obtain ii where ii: "it_Seek ?I k (Some (Block_NewIterator (t_index_block t))) = Some ii" "dyn_block_at cmp ok ii ixs (at_pos ixs n)"
    using dyn.at_Seek [OF index_iterator [OF t] k] by (auto simp: n_def)
  note st = dyn.at_status [OF ii(2)]
  show "n = length dn \<longrightarrow> InternalGet port ops buffered t options cache k hr arg = Some (Status_OK, arg)"
    using ii(1) dyn.at_valid [OF ii(2)] st i(4) by (auto simp: InternalGet_def im(2) comparator at_pos_def)
  show "n < length dn \<longrightarrow> (\<exists>keep. InternalGet port ops buffered t options cache k hr arg =
      Some (Status_OK, if keep \<and> lower (Compare cmp) k ?b < length ?b
        then let e = ?b ! lower (Compare cmp) k ?b in hr (fst e) (snd e) arg else arg) \<and>
      ((\<exists>e \<in> set ?b. \<forall>p f. opt_filter_policy opt = Some p \<longrightarrow> KeyMayMatch p k f = KeyMayMatch p (fst e) f) \<longrightarrow> keep))"
  proof
    assume n: "n < length dn"
    then have at: "dyn_block_at cmp ok ii ixs (Some n)" using ii(2) i(4) by (simp add: at_pos_def)
    have v: "it_Valid ?I ii" "it_value ?I ii = snd (ixs ! n)" using dyn.at_valid [OF at] dyn.at_value [OF at] by simp_all
    obtain keep where keep: "filter_keeps t (snd (ixs ! n)) k = Some keep"
      "(\<exists>e \<in> set ?b. \<forall>p f. opt_filter_policy opt = Some p \<longrightarrow> KeyMayMatch p k f = KeyMayMatch p (fst e) f) \<longrightarrow> keep"
      using filter_keeps_block [OF t n p] by blast
    let ?d = "BlockReader port ops buffered t options cache (snd (ixs ! n))"
    obtain d where d: "it_Seek ?I k ?d = Some d" "dyn_block_at cmp ok d ?b (at_pos ?b (lower (Compare cmp) k ?b))"
      using dyn.at_Seek [OF BlockReader_at [OF t n c] k] by blast
    have "it_status ?I d = Status_OK" by (rule dyn.at_status [OF d(2)])
    moreover have "it_Valid ?I d \<longleftrightarrow> lower (Compare cmp) k ?b < length ?b" using dyn.at_valid [OF d(2)] by (simp add: at_pos_def)
    moreover have "it_key ?I d = fst (?b ! lower (Compare cmp) k ?b)" "it_value ?I d = snd (?b ! lower (Compare cmp) k ?b)"
      if "lower (Compare cmp) k ?b < length ?b"
      using that dyn.at_key [of d ?b] dyn.at_value [of d ?b] d(2) by (simp_all add: at_pos_def)
    ultimately have "InternalGet port ops buffered t options cache k hr arg =
      Some (Status_OK, if keep \<and> lower (Compare cmp) k ?b < length ?b
        then let e = ?b ! lower (Compare cmp) k ?b in hr (fst e) (snd e) arg else arg)"
      using ii(1) v keep(1) d(1) st by (cases keep) (simp_all add: InternalGet_def im(2) comparator Let_def)
    then show "\<exists>keep. InternalGet port ops buffered t options cache k hr arg =
      Some (Status_OK, if keep \<and> lower (Compare cmp) k ?b < length ?b
        then let e = ?b ! lower (Compare cmp) k ?b in hr (fst e) (snd e) arg else arg) \<and>
      ((\<exists>e \<in> set ?b. \<forall>p f. opt_filter_policy opt = Some p \<longrightarrow> KeyMayMatch p k f = KeyMayMatch p (fst e) f) \<longrightarrow> keep)"
      using keep(2) by blast
  qed
qed

end

end
