(* ===== verification/Table_Get.thy ===== *)
theory Table_Get
  imports Table_Reader Mem_Env
begin

unbundle bit_operations_syntax

text \<open>
  Tables of internal keys: what a point lookup in a table that was built and opened returns. The callback of the lookup is
  \<^verbatim>\<open>SaveValue\<close> of \<^verbatim>\<open>db/version_set.cc\<close>. An index key may lie between the user keys of two blocks, so a lookup can end at a block that has no
  entry at or past its key; the lemma \<open>separator_gap\<close> shows that then no later block has its user key.
\<close>

datatype SaverState = SaverNotFound | SaverFound | SaverDeleted | SaverCorrupt

record Saver =
  sv_state :: SaverState
  sv_ucmp :: Comparator
  sv_user_key :: slice
  sv_value :: slice

definition SaveValue :: "slice \<Rightarrow> slice \<Rightarrow> Saver \<Rightarrow> Saver" where
  "SaveValue ikey v s =
     (case ParseInternalKey ikey of None \<Rightarrow> s\<lparr> sv_state := SaverCorrupt \<rparr>
      | Some parsed_key \<Rightarrow>
          if Compare (sv_ucmp s) (user_key parsed_key) (sv_user_key s) = 0
          then let s = s\<lparr> sv_state := (if vtype parsed_key = kTypeValue then SaverFound else SaverDeleted) \<rparr>
               in if sv_state s = SaverFound then s\<lparr> sv_value := v \<rparr> else s
          else s)"

section \<open>The gap between two blocks\<close>

context user_comparator
begin

lemma separator_gap:
  assumes ok: "internal_ok ok l" "internal_ok ok h" "internal_ok ok k"
    and lk: "internal_Compare cmp l k < 0" and ks: "internal_Compare cmp k (internal_FindShortestSeparator cmp l h) \<le> 0"
    and lh: "internal_Compare cmp l h < 0"
  shows "Compare cmp (ExtractUserKey k) (ExtractUserKey h) < 0"
proof -
  have o: "ok (ExtractUserKey l)" "ok (ExtractUserKey h)" "ok (ExtractUserKey k)" using ok by (simp_all add: internal_ok_def)
  from o(1,2) show ?thesis
  proof (cases rule: internal_FindShortestSeparator_cases)
    case 1
    have "internal_Compare cmp k l > 0" using lk antisym [OF o(1,3)] eq_sym [OF o(1,3)] by (auto simp: internal_iffs)
    then show ?thesis using ks 1 by simp
  next
    case (2 t)
    then have "Compare cmp (ExtractUserKey l) (ExtractUserKey h) \<noteq> 0" using separator_eq [OF o(1,2)] by auto
    then have "Compare cmp (ExtractUserKey l) (ExtractUserKey h) < 0" using lh by (simp add: internal_less_iff)
    then have t: "Compare cmp t (ExtractUserKey h) < 0" using 2(2) separator_less [OF o(1,2)] by simp
    have "ExtractUserKey (internal_FindShortestSeparator cmp l h) = t" using 2(1) by simp
    then have "Compare cmp (ExtractUserKey k) t \<le> 0" using ks by (auto simp: internal_le_iff)
    then show ?thesis using ord.ko_le_less [OF o(3) 2(4) o(2)] t by blast
  qed
qed

end

section \<open>Comparators and policies of a database\<close>

abbreviation icmp :: Comparator where
  "icmp \<equiv> InternalKeyComparator BytewiseComparator"

lemma short_keys_internal: "short_keys icmp"
proof -
  have u: "length t + 8 \<le> length s" if "length t < length (ExtractUserKey s)" for s t
    using that by (simp add: ExtractUserKey_def)
  show ?thesis
    using u by (auto simp: short_keys_def InternalKeyComparator_def internal_FindShortestSeparator_def
        internal_FindShortSuccessor_def Let_def PutFixed64_def)
qed

lemma filters_data_bound:
  assumes "\<And>g. g \<in> set gs \<Longrightarrow> g \<noteq> [] \<Longrightarrow> length (CreateFilter p g []) \<le> length g * c"
  shows "length (filters_data p gs) \<le> length (concat gs) * c"
  using assms
proof (induction gs)
  case (Cons g gs)
  have "length (group_filter p g) \<le> length g * c" using Cons.prems [of g] by (simp add: group_filter_def)
  moreover have "length (filters_data p gs) \<le> length (concat gs) * c" by (rule Cons.IH) (rule Cons.prems, simp_all)
  ultimately show ?case by (simp add: filters_data_def add_mult_distrib)
qed (simp add: filters_data_def)

lemma group_length: "concat gs = ks \<Longrightarrow> g \<in> set gs \<Longrightarrow> length g \<le> length ks"
  by (auto simp: length_concat dest!: split_list)

text \<open>The policies that the options may name, with the sizes for which no key is lost.\<close>

definition db_policy :: "Options \<Rightarrow> nat \<Rightarrow> bool" where
  "db_policy opt n \<longleftrightarrow> opt_filter_policy opt = None \<or>
     (\<exists>bits. opt_filter_policy opt = Some (InternalFilterPolicy (bloom_policy bits)) \<and> bits < 2 ^ 31 \<and> n * (bits + 9) < 2 ^ 32) \<or>
     opt_filter_policy opt = Some (InternalFilterPolicy wormhole_policy) \<and> n \<le> 51"

lemma bloom_group_bound:
  assumes "bits < 2 ^ 31" "length g < 2 ^ 31" "g \<noteq> []"
  shows "length (CreateFilter (InternalFilterPolicy (bloom_policy bits)) g []) \<le> length g * (bits + 9)"
proof -
  have "length (bloom_CreateFilter (new_bloom bits) (map ExtractUserKey g) []) = (max 64 (length g * bits) + 7) div 8 + 1"
    using bloom_filter_shape [of bits "map ExtractUserKey g"] assms by simp
  moreover have "(max 64 (length g * bits) + 7) div 8 + 1 \<le> length g * bits + 9" by (simp add: max_def) linarith
  moreover have "9 \<le> length g * 9" using assms(3) by (cases g) simp_all
  ultimately show ?thesis by (simp add: InternalFilterPolicy_def bloom_policy_def distrib_left)
qed

lemma policy_ok_db:
  assumes "db_policy opt (length ks)" "length ks < 2 ^ 31"
  shows "policy_ok opt ks"
  using assms(1) unfolding db_policy_def
proof (elim disjE exE conjE)
  assume "opt_filter_policy opt = None"
  then show ?thesis by (simp add: policy_ok_def filters_fit_def)
next
  fix bits assume b: "opt_filter_policy opt = Some (InternalFilterPolicy (bloom_policy bits))" "bits < 2 ^ 31" "length ks * (bits + 9) < 2 ^ 32"
  let ?p = "InternalFilterPolicy (bloom_policy bits)"
  have g: "length g < 2 ^ 31" if "concat gs = ks" "g \<in> set gs" for gs g using group_length [OF that] assms(2) by simp
  have "length (filters_data ?p gs) < 2 ^ 32" if "concat gs = ks" for gs
    using filters_data_bound [of gs ?p "bits + 9"] bloom_group_bound [OF b(2) g [OF that]] b(3) that by fastforce
  moreover have "filter_policy ?p (\<lambda>ks. bits < 2 ^ 31 \<and> length (map ExtractUserKey ks) < 2 ^ 31)"
    by unfold_locales
  moreover have "length (Name ?p) < 2 ^ 31" by (simp add: InternalFilterPolicy_def bloom_policy_def)
  ultimately show ?thesis using b g by (fastforce simp: policy_ok_def filters_fit_def)
next
  assume w: "opt_filter_policy opt = Some (InternalFilterPolicy wormhole_policy)" "length ks \<le> 51"
  let ?p = "InternalFilterPolicy wormhole_policy"
  have g: "length g \<le> 51" if "concat gs = ks" "g \<in> set gs" for gs g using group_length [OF that] w(2) by simp
  have len: "length (CreateFilter ?p g []) \<le> length g * 136" if "length g \<le> 51" "g \<noteq> []" for g
    using wormhole_filter_length [of "map ExtractUserKey g"] that by (cases g) (auto simp: InternalFilterPolicy_def)
  have "length (filters_data ?p gs) < 2 ^ 32" if "concat gs = ks" for gs
    using filters_data_bound [of gs ?p 136] len g [OF that] w(2) that by fastforce
  moreover have "filter_policy ?p (\<lambda>ks. length (map ExtractUserKey ks) \<le> 2 ^ 30 \<and> all_inserted (map ExtractUserKey ks))"
    by unfold_locales
  moreover have "length (Name ?p) < 2 ^ 31" by (simp add: InternalFilterPolicy_def wormhole_policy_def)
  moreover have "length (map ExtractUserKey h) \<le> 2 ^ 30 \<and> all_inserted (map ExtractUserKey h)" if "concat gs = ks" "h \<in> set gs" for gs h
    using g [OF that] all_inserted_small [of "map ExtractUserKey h"] by simp
  ultimately show ?thesis using w by (fastforce simp: policy_ok_def filters_fit_def)
qed

section \<open>Lookups of user keys\<close>

context table_reader
begin

text \<open>The entries of the blocks before the one the index names are before the key.\<close>

lemma before_block:
  assumes "image_ok F dn ixs" "ok k" "e \<in> set (entries (take (lower (Compare cmp) k ixs) dn))"
  shows "Compare cmp (fst e) k < 0"
proof -
  let ?n = "lower (Compare cmp) k ixs"
  note i = image_facts [OF assms(1)]
  obtain d where d: "d \<in> set (take ?n dn)" "e \<in> set (fst d)" using assms(3) by (auto simp: entries_def)
  then obtain m where m: "m < length dn" "m < ?n" "e \<in> set (fst (dn ! m))" by (auto simp: in_set_conv_nth [of d])
  have "Compare cmp (fst (ixs ! m)) k < 0" by (rule lower_less [OF m(2)])
  moreover have "ok (fst e)" using i(1) entries_split [OF m(1)] m(3) by (auto simp: kv_sorted_def)
  ultimately show ?thesis
    using ord.ko_le_less [OF _ separates(1) [OF i(1-4) m(1)] assms(2)] separates(2) [OF i(1-4) m(1,3)] by blast
qed

lemma all_before:
  assumes "image_ok F dn ixs" "ok k" "lower (Compare cmp) k ixs = length dn"
  shows "lower (Compare cmp) k (entries dn) = length (entries dn)"
proof (rule lower_eqI)
  show "Compare cmp (fst (entries dn ! i)) k < 0" if "i < length (entries dn)" for i
    using before_block [OF assms(1,2), of "entries dn ! i"] that by (simp add: assms(3))
qed simp_all

lemma past_block:
  assumes im: "image_ok F dn ixs" and k: "ok k" and n: "lower (Compare cmp) k ixs < length dn"
    and j: "\<not> lower (Compare cmp) k (fst (dn ! lower (Compare cmp) k ixs)) < length (fst (dn ! lower (Compare cmp) k ixs))"
    and l: "lower (Compare cmp) k (entries dn) < length (entries dn)"
  defines "b \<equiv> fst (dn ! lower (Compare cmp) k ixs)" and "rest \<equiv> entries (drop (Suc (lower (Compare cmp) k ixs)) dn)"
  shows "entries dn ! lower (Compare cmp) k (entries dn) \<in> set rest" "b \<noteq> []" "Compare cmp (fst (last b)) k < 0"
    "Compare cmp k (FindShortestSeparator cmp (fst (last b)) (fst (hd rest))) \<le> 0"
    "Compare cmp (fst (last b)) (fst (hd rest)) < 0" "ok (fst (last b))" "ok (fst (hd rest))"
proof -
  let ?n = "lower (Compare cmp) k ixs" and ?e = "entries dn ! lower (Compare cmp) k (entries dn)"
  note i = image_facts [OF im]
  note sp = entries_split [OF n]
  have b: "Compare cmp (fst e) k < 0" if e: "e \<in> set b" for e
  proof -
    obtain m where "m < length b" "e = b ! m" using e by (auto simp: in_set_conv_nth)
    then show ?thesis using lower_less [of m "Compare cmp" k b] j by (simp add: b_def)
  qed
  have "\<not> Compare cmp (fst ?e) k < 0" by (rule lower_not_less [OF l])
  moreover have "?e \<in> set (entries (take ?n dn)) \<union> set b \<union> set rest" using nth_mem [OF l] arg_cong [OF sp, of set] by (auto simp: b_def rest_def)
  ultimately show e: "?e \<in> set rest" using b before_block [OF im k] by blast
  show ne: "b \<noteq> []" using i(2) nth_mem [OF n] by (auto simp: b_def split_beta)
  then show "Compare cmp (fst (last b)) k < 0" by (intro b) simp
  have r: "rest \<noteq> []" using e by auto
  have s: "kv_sorted (Compare cmp) ok (b @ rest)" using i(1) sp by (simp add: kv_sorted_append b_def rest_def)
  show "Compare cmp (fst (last b)) (fst (hd rest)) < 0"
    using s ne r last_in_set [OF ne] hd_in_set [OF r] unfolding kv_sorted_append by blast
  show "ok (fst (last b))" "ok (fst (hd rest))"
    using s ne r last_in_set [OF ne] hd_in_set [OF r] by (auto simp: kv_sorted_def)
  have "fst (ixs ! ?n) = FindShortestSeparator cmp (fst (last b)) (fst (hd rest))"
    using i(3,4) n r by (simp add: index_for_def index_entry_def Let_def b_def rest_def)
  moreover have "\<not> Compare cmp (fst (ixs ! ?n)) k < 0" using n i(4) by (intro lower_not_less) simp
  ultimately show "Compare cmp k (FindShortestSeparator cmp (fst (last b)) (fst (hd rest))) \<le> 0"
    using antisym [OF separates(1) [OF i(1-4) n] k] ord.ko_le_iff [OF k separates(1) [OF i(1-4) n]] by simp
qed

end

locale user_table = table_reader ops inv contents "InternalKeyComparator ucmp" "internal_ok uok" port opt + user: user_comparator ucmp uok
  for ops :: "'f RandomAccessFile" and inv contents ucmp uok port opt +
  assumes internal_policy: "opt_filter_policy opt = Some p \<Longrightarrow> \<exists>q. p = InternalFilterPolicy q"
begin

abbreviation (input) cp :: "slice \<Rightarrow> slice \<Rightarrow> int" where
  "cp \<equiv> Compare (InternalKeyComparator ucmp)"

lemma same_user_in_block:
  assumes im: "image_ok F dn ixs" and k: "internal_ok uok k"
    and l: "lower cp k (entries dn) < length (entries dn)" "ExtractUserKey (fst (entries dn ! lower cp k (entries dn))) = ExtractUserKey k"
  shows "lower cp k ixs < length dn" "lower cp k (fst (dn ! lower cp k ixs)) < length (fst (dn ! lower cp k ixs))"
proof -
  show n: "lower cp k ixs < length dn"
    using all_before [OF im k] l(1) lower_le [of cp k ixs] image_facts(4) [OF im] by fastforce
  show "lower cp k (fst (dn ! lower cp k ixs)) < length (fst (dn ! lower cp k ixs))"
  proof (rule ccontr)
    let ?rest = "entries (drop (Suc (lower cp k ixs)) dn)" and ?e = "entries dn ! lower cp k (entries dn)"
    assume j: "\<not> ?thesis"
    note p = past_block [OF im k n j l(1)]
    have less: "Compare ucmp (ExtractUserKey k) (ExtractUserKey (fst (hd ?rest))) < 0"
      using user.separator_gap [OF p(6,7) k] p(3-5) by (simp add: InternalKeyComparator_def)
    have s: "kv_sorted cp (internal_ok uok) ?rest"
      using image_facts(1) [OF im] entries_split [OF n] by (simp add: kv_sorted_append)
    have "cp (fst (hd ?rest)) (fst ?e) \<le> 0"
      using s p(1) refl [OF p(7)] by (cases ?rest) (auto simp: kv_sorted_def)
    then have le: "Compare ucmp (ExtractUserKey (fst (hd ?rest))) (ExtractUserKey (fst ?e)) \<le> 0"
      by (auto simp: InternalKeyComparator_def user.internal_le_iff)
    have o: "uok (ExtractUserKey k)" "uok (ExtractUserKey (fst (hd ?rest)))" using k p(7) by (simp_all add: internal_ok_def)
    then show False
      using user.ord.ko_less_le [OF o(1,2,1)] less le l(2) user.refl [OF o(1)] by simp
  qed
qed

lemma InternalGet_user:
  assumes t: "table_ok t dn ixs" and c: "coherent t dn cache" and k: "internal_ok uok k" and p: "policy_ok opt (map fst (entries dn))"
  shows "\<exists>arg'. InternalGet port ops buffered t options cache k hr arg = Some (Status_OK, arg') \<and>
    (let l = lower cp k (entries dn); e = entries dn ! l in
     (l < length (entries dn) \<and> ExtractUserKey (fst e) = ExtractUserKey k \<longrightarrow> arg' = hr (fst e) (snd e) arg) \<and>
     (arg' = arg \<or> l < length (entries dn) \<and> arg' = hr (fst e) (snd e) arg))"
proof -
  have im: "image_ok (contents (t_file t)) dn ixs" using t by (simp add: table_ok_def)
  let ?n = "lower cp k ixs" and ?l = "lower cp k (entries dn)"
  let ?b = "fst (dn ! ?n)" and ?e = "entries dn ! ?l"
  note get = InternalGet_block [OF t c k p, of buffered options hr arg]
  note same = same_user_in_block [OF im k]
  show ?thesis
  proof (cases "?n < length dn")
    case False
    then have "?n = length dn" using lower_le [of cp k ixs] image_facts(4) [OF im] by simp
    then show ?thesis using get(1) same(1) by (auto simp: Let_def)
  next
    case True
    then obtain keep where g: "InternalGet port ops buffered t options cache k hr arg =
        Some (Status_OK, if keep \<and> lower cp k ?b < length ?b then let e = ?b ! lower cp k ?b in hr (fst e) (snd e) arg else arg)"
      "(\<exists>e \<in> set ?b. \<forall>p f. opt_filter_policy opt = Some p \<longrightarrow> KeyMayMatch p k f = KeyMayMatch p (fst e) f) \<longrightarrow> keep"
      using get(2) by blast
    show ?thesis
    proof (cases "lower cp k ?b < length ?b")
      case j: True
      note e = lower_entries [OF True before_block [OF im k] j]
      have mem: "?e \<in> set ?b" using nth_mem [OF j] e(3) by simp
      have "keep" if u: "ExtractUserKey (fst ?e) = ExtractUserKey k"
      proof -
        have "KeyMayMatch p k f = KeyMayMatch p (fst ?e) f" if "opt_filter_policy opt = Some p" for p f
          using internal_policy [OF that] u by (auto simp: InternalFilterPolicy_def)
        then show ?thesis using g(2) mem by blast
      qed
      then show ?thesis using g(1) j e(2,3) by (cases keep) (auto simp: Let_def)
    next
      case False
      then show ?thesis using g(1) same(2) by (auto simp: Let_def)
    qed
  qed
qed

end

section \<open>The options of a database\<close>

text \<open>The argument is the default environment.\<close>

definition new_Options :: "nat \<Rightarrow> Options" where
  "new_Options env_default =
     \<lparr> opt_comparator = BytewiseComparator, opt_create_if_missing = False, opt_error_if_exists = False,
       opt_paranoid_checks = False, opt_using_direct_io = False, opt_env = env_default, opt_info_log = None,
       opt_write_buffer_size = 4 * 1024 * 1024, opt_max_open_files = 1000, opt_block_cache = None,
       opt_block_size = 4 * 1024, opt_block_restart_interval = 16, opt_max_file_size = 2 * 1024 * 1024,
       opt_compression = kSnappyCompression, opt_zstd_compression_level = 1, opt_reuse_logs = False,
       opt_filter_policy = None \<rparr>"

text \<open>The bounds are of type \<^verbatim>\<open>int\<close>, so the value is compared after a conversion to 32 bits.\<close>

definition ClipToRange :: "int \<Rightarrow> int \<Rightarrow> int \<Rightarrow> int" where
  "ClipToRange v minvalue maxvalue =
     (let v = (if sint (of_int v :: 32 word) > maxvalue then maxvalue else v)
      in if sint (of_int v :: 32 word) < minvalue then minvalue else v)"

text \<open>
  The logger that the environment opens when the options have none, \<open>None\<close> when it cannot, and the cache that is made when
  the options have none are arguments.
\<close>

definition SanitizeOptions :: "nat option \<Rightarrow> nat \<Rightarrow> Options \<Rightarrow> Options" where
  "SanitizeOptions new_logger new_cache src =
     src\<lparr> opt_comparator := InternalKeyComparator (opt_comparator src),
         opt_filter_policy := map_option InternalFilterPolicy (opt_filter_policy src),
         opt_max_open_files := ClipToRange (opt_max_open_files src) (64 + 10) 50000,
         opt_write_buffer_size := nat (ClipToRange (int (opt_write_buffer_size src)) (64 * 2 ^ 10) (2 ^ 30)),
         opt_max_file_size := nat (ClipToRange (int (opt_max_file_size src)) (2 ^ 20) (2 ^ 30)),
         opt_block_size := nat (ClipToRange (int (opt_block_size src)) (2 ^ 10) (4 * 2 ^ 20)),
         opt_info_log := (case opt_info_log src of None \<Rightarrow> new_logger | Some l \<Rightarrow> Some l),
         opt_block_cache := Some (case opt_block_cache src of None \<Rightarrow> new_cache | Some c \<Rightarrow> c) \<rparr>"

lemma policy_Name [simp]:
  "Name (InternalFilterPolicy p) = Name p" "Name (bloom_policy bits) = ''leveldb.BuiltinBloomFilter2''"
  "Name wormhole_policy = ''leveldb.BuiltinWormholeFilter2''"
  by (simp_all add: InternalFilterPolicy_def bloom_policy_def wormhole_policy_def)

interpretation mem_table_writer: table_writer "mem_WritableFile (replicate 8192 0) a" "heap_file a" "heap_contents a" no_compression_port for a
  by unfold_locales

interpretation mem_user_table: user_table "mem_RandomAccessFile a" "heap_file a" "heap_contents a" BytewiseComparator "\<lambda>_. True" port
    "SanitizeOptions None 2 ((new_Options 1)\<lparr> opt_filter_policy := Some (bloom_policy bits) \<rparr>)" for a port bits
  by unfold_locales
    (auto simp: SanitizeOptions_def new_Options_def intro: short_keys_internal)

section \<open>Tables in memory files\<close>

lemma user_tableI:
  assumes "opt_comparator opt = icmp" "1 \<le> opt_block_restart_interval opt" "db_policy opt n"
  shows "user_table (mem_RandomAccessFile a) (heap_file a) (heap_contents a) BytewiseComparator (\<lambda>_. True) opt"
proof unfold_locales
  show "short_keys icmp" by (rule short_keys_internal)
  show "length (Name p) < 2 ^ 31" "\<exists>q. p = InternalFilterPolicy q" if "opt_filter_policy opt = Some p" for p
    using that assms(3) by (auto simp: db_policy_def)
qed (use assms in simp_all)

text \<open>What a lookup finds: the first entry of the user key that is not newer than the lookup key.\<close>

definition table_find :: "kv list \<Rightarrow> slice \<Rightarrow> kv option" where
  "table_find xs k = find (\<lambda>e. ExtractUserKey (fst e) = ExtractUserKey k \<and> key_num (fst e) \<le> key_num k) xs"

lemma internal_less_bytewise:
  "Compare icmp a b < 0 \<longleftrightarrow> Compare BytewiseComparator (ExtractUserKey a) (ExtractUserKey b) < 0 \<or>
     ExtractUserKey a = ExtractUserKey b \<and> key_num b < key_num a"
  by (simp add: InternalKeyComparator_def bytewise_user.internal_less_iff bytewise_compare_eq)

lemma table_find_lower:
  fixes k :: slice
  assumes s: "kv_sorted (Compare icmp) (internal_ok (\<lambda>_. True)) xs"
  defines "l \<equiv> lower (Compare icmp) k xs"
  shows "table_find xs k = (if l < length xs \<and> ExtractUserKey (fst (xs ! l)) = ExtractUserKey k then Some (xs ! l) else None)"
proof -
  let ?P = "\<lambda>e. ExtractUserKey (fst e) = ExtractUserKey k \<and> key_num (fst e) \<le> key_num k"
  have before: "\<not> ?P (xs ! i)" if "i < l" for i
    using lower_less [of i "Compare icmp" k xs] that bytewise.refl [of "ExtractUserKey k"]
    by (auto simp: l_def internal_less_bytewise)
  show ?thesis
  proof (cases "l < length xs \<and> ExtractUserKey (fst (xs ! l)) = ExtractUserKey k")
    case True
    then have "\<not> Compare icmp (fst (xs ! l)) k < 0" using lower_not_less [of "Compare icmp" k xs] by (simp add: l_def)
    then have "?P (xs ! l)" using True by (auto simp: internal_less_bytewise)
    then show ?thesis using True before by (auto simp: table_find_def find_Some_iff)
  next
    case False
    have "\<not> ?P (xs ! i)" if i: "i < length xs" for i
    proof (cases "i < l")
      case li: False
      then have l: "l < length xs" "ExtractUserKey (fst (xs ! l)) \<noteq> ExtractUserKey k" using False i by auto
      let ?u = "ExtractUserKey (fst (xs ! l))" and ?v = "ExtractUserKey (fst (xs ! i))"
      have "\<not> Compare icmp (fst (xs ! l)) k < 0" using lower_not_less [of "Compare icmp" k xs] l(1) by (simp add: l_def)
      then have gt: "\<not> Compare BytewiseComparator ?u (ExtractUserKey k) < 0" by (simp add: internal_less_bytewise)
      have "Compare BytewiseComparator ?u ?v < 0 \<or> ?u = ?v"
        using kv_sorted_nth(1) [OF s, of l i] li i by (cases "i = l") (auto simp: internal_less_bytewise)
      then show ?thesis using gt l(2) by auto
    qed (rule before)
    then have "\<forall>e \<in> set xs. \<not> ?P e" by (metis in_set_conv_nth)
    then show ?thesis using False by (auto simp: table_find_def find_None_iff)
  qed
qed

lemma SaveValue_other:
  assumes "ParseInternalKey ik \<noteq> None" "sv_ucmp s = BytewiseComparator" "ExtractUserKey ik \<noteq> sv_user_key s"
  shows "SaveValue ik v s = s"
proof -
  obtain p where p: "ParseInternalKey ik = Some p" using assms(1) by blast
  then have "user_key p = ExtractUserKey ik" by (auto simp: ParseInternalKey_def Let_def ExtractUserKey_def split: if_splits)
  then show ?thesis using p assms(2,3) by (simp add: SaveValue_def bytewise_compare_eq)
qed

lemma ucast_and_255: "(ucast (w AND 0xff) :: byte) = ucast (w :: u64)"
proof -
  have m: "(0xff :: u64) = mask 8" by (simp add: mask_eq_exp_minus_1)
  show ?thesis unfolding m by (rule bit_word_eqI) (auto simp only: bit_ucast_iff bit_and_iff bit_mask_iff possible_bit_word, simp_all)
qed

lemma SaveValue_match:
  assumes "ParseInternalKey ik \<noteq> None" "sv_ucmp s = BytewiseComparator" "ExtractUserKey ik = sv_user_key s"
  shows "SaveValue ik v s = (if ucast (key_num ik) = kTypeValue then s\<lparr> sv_state := SaverFound, sv_value := v \<rparr>
    else s\<lparr> sv_state := SaverDeleted \<rparr>)"
proof -
  obtain p where p: "ParseInternalKey ik = Some p" using assms(1) by blast
  then have "user_key p = ExtractUserKey ik" "vtype p = ucast (key_num ik)"
    by (auto simp: ParseInternalKey_def Let_def ExtractUserKey_def ucast_and_255 split: if_splits)
  then show ?thesis using p assms(2,3) by (simp add: SaveValue_def bytewise_compare_eq)
qed

text \<open>A table is built in an empty memory file and opened.\<close>

lemma table_built:
  assumes fresh: "length fresh = kMemBlockSize" "h a = Some new_FileState" and port: "compression_port port"
    and opt: "opt_comparator opt = icmp" "1 \<le> opt_block_restart_interval opt" "opt_compression opt \<le> 2" "db_policy opt (length xs)"
    and xs: "kv_sorted (Compare icmp) (internal_ok (\<lambda>_. True)) xs" "weight xs < 2 ^ 30"
  shows "\<exists>r t dn ixs. build_table port (mem_WritableFile fresh a) opt xs h = Some (Status_OK, r) \<and>
    Table_Open port (mem_RandomAccessFile a) buffered opt cache_id (tb_file r) (FileSize r) = Some (Inr t) \<and>
    table_reader.table_ok (heap_file a) (heap_contents a) icmp (internal_ok (\<lambda>_. True)) port opt t dn ixs \<and> entries dn = xs \<and>
    policy_ok opt (map fst xs)"
proof -
  have h: "heap_file a h" "heap_contents a h = []"
    using fresh(2) by (simp_all add: heap_file_def heap_contents_def new_FileState_def fs_inv_def fs_contents_def)
  have fb: "fresh_blocks fresh" using fresh(1) by unfold_locales
  have tw: "table_writer (mem_WritableFile fresh a) (heap_file a) (heap_contents a) port"
    using fresh_blocks.axioms_writer [OF fb] port by (simp add: table_writer_def)
  have ut: "user_table (mem_RandomAccessFile a) (heap_file a) (heap_contents a) BytewiseComparator (\<lambda>_. True) opt"
    by (rule user_tableI [OF opt(1,2,4)])
  then have tr: "table_reader (mem_RandomAccessFile a) (heap_file a) (heap_contents a) icmp (internal_ok (\<lambda>_. True)) opt"
    by (simp add: user_table_def)
  have "19 * length xs \<le> weight xs" by (induction xs) auto
  then have pol: "policy_ok opt (map fst xs)" using policy_ok_db [of opt "map fst xs"] opt(4) xs(2) by simp
  define adm where "adm p = (SOME adm. filter_policy p adm)" for p
  have adm: "length (Name p) < 2 ^ 31 \<and> filter_policy p (adm p)" if "opt_filter_policy opt = Some p" for p
    using pol that unfolding policy_ok_def adm_def by (blast intro: someI [of "filter_policy p"])
  have sk: "short_keys (opt_comparator opt)" and ff: "filters_fit opt (map fst xs)"
    using short_keys_internal pol opt(1) by (simp_all add: policy_ok_def)
  obtain r dn ixs where r: "build_table port (mem_WritableFile fresh a) opt xs h = Some (Status_OK, r)" "heap_file a (tb_file r)"
    "unat (FileSize r) = length (heap_contents a (tb_file r))" "table_image port opt (heap_contents a (tb_file r)) dn ixs" "entries dn = xs"
    using table_writer.build_table_image [OF tw, where adm = adm, OF h opt(2,3) sk ff] adm xs(2) by blast
  have "table_reader.image_ok icmp (internal_ok (\<lambda>_. True)) port opt (heap_contents a (tb_file r)) dn ixs"
    using r(4,5) xs by (simp add: table_reader.image_ok_def [OF tr])
  moreover have "FileSize r = of_nat (length (heap_contents a (tb_file r)))" unfolding r(3) [symmetric] by simp
  ultimately obtain t where "Table_Open port (mem_RandomAccessFile a) buffered opt cache_id (tb_file r) (FileSize r) = Some (Inr t)"
    "table_reader.table_ok (heap_file a) (heap_contents a) icmp (internal_ok (\<lambda>_. True)) port opt t dn ixs"
    using table_reader.Open_ok [OF tr, OF r(2), of port dn ixs buffered cache_id] by auto
  then show ?thesis using r(1,5) pol by blast
qed

section \<open>Properties\<close>

text \<open>C4. Point lookup in a table: entries with increasing internal keys are added to a table builder over a new memory file,
  the table is finished and opened again, with compression or without, with no filter, with a Bloom filter within
  its size bound or (up to 51 entries) with a wormhole filter. The lookup of a key then hands to its callback the newest entry of that user key that is not newer than
  the key: a value is found, a deletion is reported as one, and without such an entry the result is unchanged.
  No step fails, reads outside the file's bytes or loops.\<close>
theorem table_get:
  assumes "length fresh = kMemBlockSize" "h a = Some new_FileState" "compression_port port"
    and "opt_comparator opt = icmp" "1 \<le> opt_block_restart_interval opt" "opt_compression opt \<le> 2" "db_policy opt (length xs)"
    and "kv_sorted (Compare icmp) (internal_ok (\<lambda>_. True)) xs" "weight xs < 2 ^ 30"
    and "\<forall>e \<in> set xs. ParseInternalKey (fst e) \<noteq> None" "8 \<le> length k"
  shows "\<exists>r t. build_table port (mem_WritableFile fresh a) opt xs h = Some (Status_OK, r) \<and>
    Table_Open port (mem_RandomAccessFile a) buffered opt cache_id (tb_file r) (FileSize r) = Some (Inr t) \<and>
    InternalGet port (mem_RandomAccessFile a) buffered t options None k SaveValue
        \<lparr> sv_state = SaverNotFound, sv_ucmp = BytewiseComparator, sv_user_key = ExtractUserKey k, sv_value = v0 \<rparr> =
      Some (Status_OK, case table_find xs k of
        None \<Rightarrow> \<lparr> sv_state = SaverNotFound, sv_ucmp = BytewiseComparator, sv_user_key = ExtractUserKey k, sv_value = v0 \<rparr>
      | Some e \<Rightarrow> if ucast (key_num (fst e)) = kTypeValue
          then \<lparr> sv_state = SaverFound, sv_ucmp = BytewiseComparator, sv_user_key = ExtractUserKey k, sv_value = snd e \<rparr>
          else \<lparr> sv_state = SaverDeleted, sv_ucmp = BytewiseComparator, sv_user_key = ExtractUserKey k, sv_value = v0 \<rparr>)"
proof -
  let ?s = "\<lparr> sv_state = SaverNotFound, sv_ucmp = BytewiseComparator, sv_user_key = ExtractUserKey k, sv_value = v0 \<rparr>"
  let ?l = "lower (Compare icmp) k xs"
  obtain r t dn ixs where b: "build_table port (mem_WritableFile fresh a) opt xs h = Some (Status_OK, r)"
    "Table_Open port (mem_RandomAccessFile a) buffered opt cache_id (tb_file r) (FileSize r) = Some (Inr t)"
    "table_reader.table_ok (heap_file a) (heap_contents a) icmp (internal_ok (\<lambda>_. True)) port opt t dn ixs" "entries dn = xs"
    "policy_ok opt (map fst xs)"
    using table_built [where h = h and a = a, OF assms(1-9)] by blast
  have ut: "user_table (mem_RandomAccessFile a) (heap_file a) (heap_contents a) BytewiseComparator (\<lambda>_. True) opt"
    by (rule user_tableI [OF assms(4,5,7)])
  then have tr: "table_reader (mem_RandomAccessFile a) (heap_file a) (heap_contents a) icmp (internal_ok (\<lambda>_. True)) opt"
    by (simp add: user_table_def)
  have "table_reader.coherent opt t dn None" "internal_ok (\<lambda>_. True) k"
    using assms(11) by (simp_all add: internal_ok_def table_reader.coherent_def [OF tr])
  note get = user_table.InternalGet_user [OF ut b(3) this(1) this(2), of buffered options SaveValue ?s, unfolded b(4), OF b(5)]
  obtain s' where g: "InternalGet port (mem_RandomAccessFile a) buffered t options None k SaveValue ?s = Some (Status_OK, s')"
    "?l < length xs \<and> ExtractUserKey (fst (xs ! ?l)) = ExtractUserKey k \<longrightarrow> s' = SaveValue (fst (xs ! ?l)) (snd (xs ! ?l)) ?s"
    "s' = ?s \<or> ?l < length xs \<and> s' = SaveValue (fst (xs ! ?l)) (snd (xs ! ?l)) ?s"
    using get unfolding Let_def by blast
  have "s' = ?s" if "\<not> (?l < length xs \<and> ExtractUserKey (fst (xs ! ?l)) = ExtractUserKey k)"
    using g(3) that SaveValue_other [of "fst (xs ! ?l)" ?s] assms(10) by auto
  moreover have "SaveValue (fst e) (snd e) ?s = (if ucast (key_num (fst e)) = kTypeValue
      then \<lparr> sv_state = SaverFound, sv_ucmp = BytewiseComparator, sv_user_key = ExtractUserKey k, sv_value = snd e \<rparr>
      else \<lparr> sv_state = SaverDeleted, sv_ucmp = BytewiseComparator, sv_user_key = ExtractUserKey k, sv_value = v0 \<rparr>)"
    if "e \<in> set xs" "ExtractUserKey (fst e) = ExtractUserKey k" for e
    using SaveValue_match [of "fst e" ?s "snd e"] assms(10) that by simp
  ultimately show ?thesis using b(1,2) g(1,2) table_find_lower [OF assms(8), of k] by (auto simp: Let_def)
qed


theorem table_get_witness:
  "\<exists>r t. build_table no_compression_port (mem_WritableFile (replicate 8192 0) 0)
      (SanitizeOptions None 2 ((new_Options 1)\<lparr> opt_filter_policy := Some (bloom_policy 10) \<rparr>))
      [(InternalKey [1] 9 1, [7]), (InternalKey [1] 4 1, [8]), (InternalKey [2] 5 0, [])] [0 \<mapsto> new_FileState] = Some (Status_OK, r) \<and>
    Table_Open no_compression_port (mem_RandomAccessFile 0) True (SanitizeOptions None 2 ((new_Options 1)\<lparr> opt_filter_policy := Some (bloom_policy 10) \<rparr>)) 0
      (tb_file r) (FileSize r) = Some (Inr t) \<and>
    InternalGet no_compression_port (mem_RandomAccessFile 0) True t \<lparr> verify_checksums = True, fill_cache = True \<rparr> None (InternalKey [1] 6 1) SaveValue
      \<lparr> sv_state = SaverNotFound, sv_ucmp = BytewiseComparator, sv_user_key = [1], sv_value = [] \<rparr> =
      Some (Status_OK, \<lparr> sv_state = SaverFound, sv_ucmp = BytewiseComparator, sv_user_key = [1], sv_value = [8] \<rparr>)"
proof -
  let ?xs = "[(InternalKey [1] 9 1, [7]), (InternalKey [1] 4 1, [8]), (InternalKey [2] 5 0, [])] :: kv list"
  let ?opt = "SanitizeOptions None 2 ((new_Options 1)\<lparr> opt_filter_policy := Some (bloom_policy 10) \<rparr>)"
  have o: "opt_comparator ?opt = icmp" "1 \<le> opt_block_restart_interval ?opt" "opt_compression ?opt \<le> 2"
    by (simp_all add: SanitizeOptions_def new_Options_def)
  have p: "db_policy ?opt (length ?xs)"
    unfolding db_policy_def by (intro disjI2 disjI1 exI [of _ 10]) (simp add: SanitizeOptions_def)
  have s: "kv_sorted (Compare icmp) (internal_ok (\<lambda>_. True)) ?xs" by code_simp
  have w: "weight ?xs = 86" by code_simp
  have k: "\<forall>e \<in> set ?xs. ParseInternalKey (fst e) \<noteq> None" "8 \<le> length (InternalKey [1] 6 1)" by code_simp+
  have f: "table_find ?xs (InternalKey [1] 6 1) = Some (InternalKey [1] 4 1, [8])"
    "ExtractUserKey (InternalKey [1] 6 1) = [1]" "(ucast (key_num (InternalKey [1] 4 1)) :: byte) = 1" by code_simp+
  have "weight ?xs < 2 ^ 30" unfolding w by simp
  from table_get [where h = "[0 \<mapsto> new_FileState]" and a = 0, OF _ _ no_compression.compression_port_axioms o p s this k,
      of "replicate 8192 0" True 0 "\<lparr> verify_checksums = True, fill_cache = True \<rparr>" "[]"]
  show ?thesis unfolding f by (simp only: option.case fst_conv snd_conv if_True f fun_upd_same length_replicate refl)
qed

text \<open>C5. Scanning a table: the iterator of a table that was built from entries with increasing internal keys and opened again
  delivers exactly these entries from its first position, and from a key that was sought the entries at or past that key. The
  iterator's status is good throughout, and no step fails or reads outside the file's bytes.\<close>
theorem table_scan:
  assumes "length fresh = kMemBlockSize" "h a = Some new_FileState" "compression_port port"
    and "opt_comparator opt = icmp" "1 \<le> opt_block_restart_interval opt" "opt_compression opt \<le> 2" "db_policy opt (length xs)"
    and "kv_sorted (Compare icmp) (internal_ok (\<lambda>_. True)) xs" "weight xs < 2 ^ 30" "8 \<le> length k"
  shows "\<exists>r t it1 it2. build_table port (mem_WritableFile fresh a) opt xs h = Some (Status_OK, r) \<and>
    Table_Open port (mem_RandomAccessFile a) buffered opt cache_id (tb_file r) (FileSize r) = Some (Inr t) \<and>
    (let I = table_Iter port (mem_RandomAccessFile a) buffered t options None in
     it_SeekToFirst I (Table_NewIterator t) = Some it1 \<and> it_status I it1 = Status_OK \<and> it_scan I it1 [] = Some xs \<and>
     it_Seek I k (Table_NewIterator t) = Some it2 \<and> it_status I it2 = Status_OK \<and>
     it_scan I it2 [] = Some (drop (lower (Compare icmp) k xs) xs))"
proof -
  obtain r t dn ixs where b: "build_table port (mem_WritableFile fresh a) opt xs h = Some (Status_OK, r)"
    "Table_Open port (mem_RandomAccessFile a) buffered opt cache_id (tb_file r) (FileSize r) = Some (Inr t)"
    "table_reader.table_ok (heap_file a) (heap_contents a) icmp (internal_ok (\<lambda>_. True)) port opt t dn ixs" "entries dn = xs"
    using table_built [where h = h and a = a, OF assms(1-9)] by blast
  have "user_table (mem_RandomAccessFile a) (heap_file a) (heap_contents a) BytewiseComparator (\<lambda>_. True) opt"
    by (rule user_tableI [OF assms(4,5,7)])
  then have tr: "table_reader (mem_RandomAccessFile a) (heap_file a) (heap_contents a) icmp (internal_ok (\<lambda>_. True)) opt"
    by (simp add: user_table_def)
  let ?bf = "BlockReader port (mem_RandomAccessFile a) buffered t options None" and ?bl = "block_at_handle dn"
  have "table_reader.coherent opt t dn None" by (simp add: table_reader.coherent_def [OF tr])
  from table_reader.NewIterator_at [OF tr b(3) this, of buffered options]
  have at: "bytewise_user.internal.tbl.tl_at ?bl ?bf (Table_NewIterator t) xs None" by (simp add: b(4))
  have I: "table_Iter port (mem_RandomAccessFile a) buffered t options None = TwoLevelIterator (dyn_block icmp) (dyn_block icmp) ?bf"
    using b(3) assms(4) by (simp add: table_Iter_def Let_def table_reader.table_ok_def [OF tr])
  have k: "internal_ok (\<lambda>_. True) k" using assms(10) by (simp add: internal_ok_def)
  obtain it1 where 1: "it_SeekToFirst (TwoLevelIterator (dyn_block icmp) (dyn_block icmp) ?bf) (Table_NewIterator t) = Some it1"
    "bytewise_user.internal.tbl.tl_at ?bl ?bf it1 xs (at_pos xs 0)"
    using bytewise_user.internal.tbl.tl.at_SeekToFirst [OF at] by blast
  obtain it2 where 2: "it_Seek (TwoLevelIterator (dyn_block icmp) (dyn_block icmp) ?bf) k (Table_NewIterator t) = Some it2"
    "bytewise_user.internal.tbl.tl_at ?bl ?bf it2 xs (at_pos xs (lower (Compare icmp) k xs))"
    using bytewise_user.internal.tbl.tl.at_Seek [OF at k] by blast
  show ?thesis
    using b(1,2) 1 2 bytewise_user.internal.tbl.tl.at_status [OF 1(2)] bytewise_user.internal.tbl.tl.at_status [OF 2(2)]
      bytewise_user.internal.tbl.tl.scan_from [OF 1(2), of "[]"] bytewise_user.internal.tbl.tl.scan_from [OF 2(2), of "[]"]
    by (auto simp: I Let_def)
qed

theorem table_scan_witness:
  "\<exists>r t it1 it2. build_table no_compression_port (mem_WritableFile (replicate 8192 0) 0) (SanitizeOptions None 2 (new_Options 1))
      [(InternalKey [1] 9 1, [7]), (InternalKey [2] 5 0, [])] [0 \<mapsto> new_FileState] = Some (Status_OK, r) \<and>
    Table_Open no_compression_port (mem_RandomAccessFile 0) False (SanitizeOptions None 2 (new_Options 1)) 3 (tb_file r) (FileSize r) = Some (Inr t) \<and>
    (let I = table_Iter no_compression_port (mem_RandomAccessFile 0) False t \<lparr> verify_checksums = False, fill_cache = True \<rparr> None in
     it_SeekToFirst I (Table_NewIterator t) = Some it1 \<and> it_status I it1 = Status_OK \<and>
     it_scan I it1 [] = Some [(InternalKey [1] 9 1, [7]), (InternalKey [2] 5 0, [])] \<and>
     it_Seek I (InternalKey [1, 1] 0 1) (Table_NewIterator t) = Some it2 \<and> it_status I it2 = Status_OK \<and>
     it_scan I it2 [] = Some [(InternalKey [2] 5 0, [])])"
proof -
  let ?xs = "[(InternalKey [1] 9 1, [7]), (InternalKey [2] 5 0, [])] :: kv list" and ?opt = "SanitizeOptions None 2 (new_Options 1)"
  have o: "opt_comparator ?opt = icmp" "1 \<le> opt_block_restart_interval ?opt" "opt_compression ?opt \<le> 2" "db_policy ?opt (length ?xs)"
    by (simp_all add: SanitizeOptions_def new_Options_def db_policy_def)
  have s: "kv_sorted (Compare icmp) (internal_ok (\<lambda>_. True)) ?xs" by code_simp
  have w: "weight ?xs = 57" by code_simp
  have k: "8 \<le> length (InternalKey [1, 1] 0 1)" by code_simp
  have l: "lower (Compare icmp) (InternalKey [1, 1] 0 1) ?xs = 1" by code_simp
  have "weight ?xs < 2 ^ 30" unfolding w by simp
  from table_scan [where h = "[0 \<mapsto> new_FileState]" and a = 0, OF _ _ no_compression.compression_port_axioms o s this k,
      of "replicate 8192 0" False 3 "\<lparr> verify_checksums = False, fill_cache = True \<rparr>"]
  show ?thesis unfolding l by (simp only: drop_Suc_Cons One_nat_def drop_0 fun_upd_same length_replicate refl)
qed

end
