(* ===== verification/Spec2Isabelle.thy ===== *)
theory Spec2Isabelle
  imports Wormhole_Crash Wormhole_Crowded LDB_Status Filter_Block Crc32c Log_Reader Write_Batch Merger Table_Get
begin

text \<open>
  This is a verification of the wormhole filters repository: a hash filter for persistent memory
  (\<^verbatim>\<open>src/src/pm_wf\<close>) and a LevelDB (\<^verbatim>\<open>src/leveldb\<close>) in which the same filter is a filter policy of the tables. Paths below
  are relative to \<^verbatim>\<open>src/leveldb\<close> unless they begin with \<^verbatim>\<open>src/\<close>.

  \<^bold>\<open>How the program is modelled.\<close> Machine integers are words of their width; a \<^verbatim>\<open>char\<close> is a byte, a \<^verbatim>\<open>Slice\<close> or
  \<^verbatim>\<open>std::string\<close> a list of bytes. A class is a record of its members and a method a function that returns the new
  record. Virtual interfaces (filter policy, comparator, iterator, files) are records of operations, and what their headers
  promise is a locale, interpreted on the implementations of the repository. A status is kept as the code
  represents it. A read outside the data, a division by zero, a null pointer or a loop that does not return is \<open>None\<close> or an
  error value; loops without an evident bound are \<open>partial_function (option)\<close>, and that they return is proved. There is no fuel.
  Assertions are not part of the program. Addresses, arenas and freed memory are modelled where a claim depends on them
  (skip-list nodes, the files of the in-memory environment).

  \<^bold>\<open>The wormhole filter.\<close> \<open>Tag_Lanes\<close> has the 16-bit tags of a 64-bit bucket and the SWAR test, \<open>Wormhole_Core\<close> the abstract filter
  (a multiset of home buckets and fingerprints) and the locale of a tag store, \<open>Wormhole_Loops\<close> the nested insertion loops that both
  sources have. \<open>Wormhole_PM\<close> is \<^verbatim>\<open>src/src/pm_wf/pmwormholefilter.hpp\<close>: insertion, lookup and deletion return, keep the
  filter well formed and implement the multiset; an inserted key is found until it is deleted. \<open>Wormhole_Crash\<close> lets the power fail at any
  point, with the stores of the current operation that were not persisted kept or lost: no durable key is lost, but the last
  store of an insertion is never persisted. libpmemobj is a sequence of store and persist events. \<open>Hash\<close> and \<open>Wormhole_Policy\<close> are
  \<^verbatim>\<open>util/hash.cc\<close> and \<^verbatim>\<open>util/wormhole.cc\<close>; the policy loses no key up to 51 keys, stays inside any
  filter whose bucket count fits its length (but not inside a filter of two to seven bytes), and \<open>Wormhole_Crowded\<close> gives 65 keys for which it does.

  \<^bold>\<open>Filters.\<close> \<open>Filter_Policy\<close> is the interface with its contract, \<open>Bloom\<close> is \<^verbatim>\<open>util/bloom.cc\<close>, \<open>Filter_Block\<close> is
  \<^verbatim>\<open>table/filter_block.cc\<close>: the reader accepts every key that was added to the block of the offset it is asked about, and stays in its bytes
  but for an undefined shift by a corrupt byte.

  \<^bold>\<open>Encodings.\<close> \<open>Coding\<close> (\<^verbatim>\<open>util/coding.cc\<close>) has the round trips of all integer and string encodings; \<open>Crc32c_Tables\<close> and \<open>Crc32c\<close>
  (\<^verbatim>\<open>util/crc32c.cc\<close>) the equivalence of the strided table routine with division by the polynomial, and that the probe for the accelerated routine
  chooses it exactly when the CRC-32C library is there, a parameter that is assumed to compute CRC-32C; \<open>LDB_Status\<close> is \<^verbatim>\<open>util/status.cc\<close>;
  \<open>Random_Gen\<close> is \<^verbatim>\<open>util/random.h\<close>. \<open>Comparator\<close> and \<open>Internal_Key\<close> (\<^verbatim>\<open>util/comparator.cc\<close>, \<^verbatim>\<open>db/dbformat.cc\<close>) have the orders on user
  keys and internal keys and the separators that the index of a table uses.

  \<^bold>\<open>Files and logs.\<close> \<open>File_Ops\<close> has the file interfaces of \<^verbatim>\<open>include/leveldb/env.h\<close>; \<open>Mem_Env\<close> (\<^verbatim>\<open>helpers/memenv/memenv.cc\<close>)
  implements them by 8 KB blocks on a heap of reference-counted files and is shown to be a byte string. \<open>Log_Writer\<close> and \<open>Log_Reader\<close>
  (\<^verbatim>\<open>db/log_writer.cc\<close>, \<^verbatim>\<open>db/log_reader.cc\<close>) read back what was written, and reading ends for every file.

  \<^bold>\<open>Memory table.\<close> \<open>Skip_List\<close>, \<open>Mem_Table\<close> and \<open>Write_Batch\<close> (\<^verbatim>\<open>db/skiplist.h\<close>, \<^verbatim>\<open>db/memtable.cc\<close>, \<^verbatim>\<open>db/write_batch.cc\<close>): a lookup
  answers with the newest operation on the key that is visible at its sequence number, for any heights the generator draws.

  \<^bold>\<open>Tables.\<close> \<open>LDB_Iterator\<close> has the iterator interface; its locale says that an iterator stands for a sorted list and a position.
  \<open>Block_Format\<close> and \<open>Block_Iter\<close> (\<^verbatim>\<open>table/block_builder.cc\<close>, \<^verbatim>\<open>table/block.cc\<close>), \<open>Merger\<close> (\<^verbatim>\<open>table/merger.cc\<close>) and \<open>Two_Level\<close>
  (\<^verbatim>\<open>table/two_level_iterator.cc\<close>) implement it; a corrupt entry whose lengths wrap around gives a value outside its block. \<open>Table_Format\<close> (\<^verbatim>\<open>table/format.cc\<close>) has handles, footers and the reading of a block, with the handles for
  which the sum of the sizes wraps around and the read leaves its buffer;
  \<open>Table_Builder\<close> (\<^verbatim>\<open>table/table_builder.cc\<close>) the builder and \<open>Table_Layout\<close> its invariant and the layout of the file it writes;
  \<open>Table_Reader\<close> (\<^verbatim>\<open>table/table.cc\<close>) opening, lookup and iteration; \<open>Table_Get\<close> the composition: what was added is found by lookups, through
  index, filter and blocks, and is delivered by scans. The compression libraries are a parameter (\<open>Port\<close>) with the hypothesis that what
  is compressed is uncompressed again, and the block cache is the map of what it holds.

  \<^bold>\<open>Bounds.\<close> Blocks are smaller than 4 GB, since offsets in a block have 32 bits; the entries of a table have less than 1 GB together,
  which keeps every block, the index and all offsets in range. The filters of a table have less than 4 GB. Filter policies are used
  up to \<open>2 ^ 31\<close> keys (Bloom) and \<open>2 ^ 30\<close> keys (wormhole), the limits of the 32-bit arithmetic in them.

  \<^bold>\<open>Not modelled.\<close> The database itself (\<^verbatim>\<open>db/db_impl.cc\<close>), the version set and its compactions, and the LRU cache run under mutexes with
  a background thread; only the sanitising of the options and the lookup callback that tables need are taken from them. The version edit, file names, table
  cache, database iterator, snapshots, repair and dump tools are used by these parts alone. The POSIX and Windows environments and the
  direct-I/O buffers are system calls; the locales of \<open>File_Ops\<close> state what is relied on. The C binding forwards calls, the arena
  allocates memory, the histogram computes statistics in floating point; tests and benchmarks are programs of their own. The memory order
  of concurrent skip-list readers is not modelled: every sequence of operations here has one thread.
\<close>

end
